(* ===== verification/Prelude.thy ===== *)
theory Prelude
  imports Main "HOL-Library.Char_ord" "HOL-Library.List_Lexorder" "HOL-Library.Sublist"
    "HOL-Library.Multiset"
begin

text \<open>
  What the component theories share.

  \<^item> Go's three-way comparison: \<open>cmp\<close> is \<^verbatim>\<open>cmp.Compare\<close>, \<open>cmp_or\<close> is \<^verbatim>\<open>cmp.Or\<close> on its
    results, \<open>compareFunc\<close> is \<^verbatim>\<open>slices.CompareFunc\<close>. Go compares strings bytewise and
    lexicographically; that is the order of \<^typ>\<open>string\<close> set up by Char\_ord and List\_Lexorder.
    The contract a comparator has to meet is the locale \<open>three_way\<close>; \<open>sortFunc\<close> is
    \<^verbatim>\<open>slices.SortFunc\<close>, and what it promises is proved from that contract.
  \<^item> Go maps: an association list whose keys are strictly increasing (\<open>gok\<close>). Two Go maps with
    the same entries are then the same value, so \<^verbatim>\<open>reflect.DeepEqual\<close> on them is equality, and a
    \<^verbatim>\<open>range\<close> loop is a recursion over the list. The interface the components rely on is the
    locale \<open>go_map\<close>; \<open>gm\<close> interprets it on the association lists.
  \<^item> Reachability in a graph given by a successor function, with the closure argument that the
    worklist loops share (locale \<open>successor_graph\<close>).
  \<^item> The string operations of Go's \<^verbatim>\<open>strings\<close> package that the sources call.
\<close>

named_theorems map_simps \<open>lookups in updated Go maps\<close>
named_theorems inv_intros \<open>preservation of component invariants\<close>

section \<open>Comparison\<close>

definition cmp :: "'a::linorder \<Rightarrow> 'a \<Rightarrow> int" where
  "cmp a b = (if a < b then -1 else if b < a then 1 else 0)"

fun cmp_or :: "int list \<Rightarrow> int" where
  "cmp_or [] = 0"
| "cmp_or (x # xs) = (if x \<noteq> 0 then x else cmp_or xs)"

fun compareFunc :: "('a \<Rightarrow> 'a \<Rightarrow> int) \<Rightarrow> 'a list \<Rightarrow> 'a list \<Rightarrow> int" where
  "compareFunc f [] [] = 0"
| "compareFunc f [] (y # ys) = -1"
| "compareFunc f (x # xs) [] = 1"
| "compareFunc f (x # xs) (y # ys) = (if f x y \<noteq> 0 then f x y else compareFunc f xs ys)"

lemma cmp_eq_0 [simp]: "cmp a b = 0 \<longleftrightarrow> a = b"
  by (auto simp: cmp_def)

lemma cmp_less_0 [simp]: "cmp a b < 0 \<longleftrightarrow> a < b"
  by (auto simp: cmp_def)

lemma cmp_greater_0 [simp]: "0 < cmp a b \<longleftrightarrow> b < a"
  by (auto simp: cmp_def)

lemma cmp_swap: "cmp b a = - cmp a b"
  by (auto simp: cmp_def)

lemma compareFunc_eq_0:
  assumes "\<And>x y. x \<in> set xs \<Longrightarrow> y \<in> set ys \<Longrightarrow> f x y = 0 \<longleftrightarrow> x = y"
  shows "compareFunc f xs ys = 0 \<longleftrightarrow> xs = ys"
  using assms by (induction f xs ys rule: compareFunc.induct) auto

text \<open>Go's \<^verbatim>\<open>cmp.Or\<close> on strings: the first value that is not the zero value.\<close>

fun str_or :: "string list \<Rightarrow> string" where
  "str_or [] = []"
| "str_or (s # ss) = (if s \<noteq> [] then s else str_or ss)"

section \<open>Comparators and sorting\<close>

fun insertFunc :: "('a \<Rightarrow> 'a \<Rightarrow> int) \<Rightarrow> 'a \<Rightarrow> 'a list \<Rightarrow> 'a list" where
  "insertFunc c x [] = [x]"
| "insertFunc c x (y # ys) = (if c x y \<le> 0 then x # y # ys else y # insertFunc c x ys)"

definition sortFunc :: "('a \<Rightarrow> 'a \<Rightarrow> int) \<Rightarrow> 'a list \<Rightarrow> 'a list" where
  "sortFunc c xs = foldr (insertFunc c) xs []"

lemma sortFunc_simps [simp]:
  "sortFunc c [] = []" "sortFunc c (x # xs) = insertFunc c x (sortFunc c xs)"
  by (simp_all add: sortFunc_def)

lemma mset_insertFunc [simp]: "mset (insertFunc c x xs) = add_mset x (mset xs)"
  by (induction xs) auto

lemma mset_sortFunc [simp]: "mset (sortFunc c xs) = mset xs"
  by (induction xs) auto

lemma set_sortFunc [simp]: "set (sortFunc c xs) = set xs"
  by (metis mset_sortFunc set_mset_mset)

lemma set_insertFunc [simp]: "set (insertFunc c x xs) = insert x (set xs)"
  by (metis mset_insertFunc set_mset_mset set_mset_add_mset_insert)

lemma distinct_sortFunc [simp]: "distinct (sortFunc c xs) = distinct xs"
  by (metis mset_sortFunc mset_eq_imp_distinct_iff)

locale three_way =
  fixes c :: "'a \<Rightarrow> 'a \<Rightarrow> int"
  assumes swap: "c y x = - c x y"
    and trans: "c x y \<le> 0 \<Longrightarrow> c y z \<le> 0 \<Longrightarrow> c x z \<le> 0"
begin

lemma same: "c x x = 0"
  using swap[of x x] by simp

lemma total: "c x y \<le> 0 \<or> c y x \<le> 0"
  using swap[of x y] by linarith

lemma eq_trans: "c x y = 0 \<Longrightarrow> c y z = 0 \<Longrightarrow> c x z = 0"
  using trans[of x y z] trans[of z y x] swap[of x y] swap[of y z] swap[of x z] by linarith

lemma trans_tight: "c x y \<le> 0 \<Longrightarrow> c y z \<le> 0 \<Longrightarrow> c x z = 0 \<Longrightarrow> c x y = 0 \<and> c y z = 0"
  using trans[of z x y] trans[of y z x] swap[of x y] swap[of y z] swap[of x z] by linarith

lemma sorted_insertFunc:
  "sorted_wrt (\<lambda>x y. c x y \<le> 0) xs \<Longrightarrow> sorted_wrt (\<lambda>x y. c x y \<le> 0) (insertFunc c x xs)"
proof (induction xs)
  case (Cons y ys)
  then show ?case
    using swap[of y x] trans[of x y] by auto
qed simp

lemma sorted_sortFunc: "sorted_wrt (\<lambda>x y. c x y \<le> 0) (sortFunc c xs)"
  by (induction xs) (auto simp: sorted_insertFunc)

lemma sorted_insertFunc_id:
  "(\<And>y. y \<in> set xs \<Longrightarrow> c x y \<le> 0) \<Longrightarrow> insertFunc c x xs = x # xs"
  by (cases xs) auto

lemma sortFunc_id: "sorted_wrt (\<lambda>x y. c x y \<le> 0) xs \<Longrightarrow> sortFunc c xs = xs"
  by (induction xs) (auto simp: sorted_insertFunc_id)

end

text \<open>
  A comparator that tells all values apart makes the sorted order unique: the result of sorting
  does not depend on the order in which a Go map enumerated the values.
\<close>

locale three_way_total = three_way +
  assumes eq: "c x y = 0 \<Longrightarrow> x = y"
begin

lemma eq_iff: "c x y = 0 \<longleftrightarrow> x = y"
  using eq same by blast

lemma sorted_unique:
  assumes "sorted_wrt (\<lambda>x y. c x y \<le> 0) xs" "sorted_wrt (\<lambda>x y. c x y \<le> 0) ys" "mset xs = mset ys"
  shows "xs = ys"
  using assms
proof (induction xs arbitrary: ys)
  case (Cons x xs)
  then obtain y ys' where ys: "ys = y # ys'" by (cases ys) auto
  have "c x y \<le> 0" and "c y x \<le> 0"
    using Cons.prems ys same[of x] mset_eq_setD[OF Cons.prems(3)] by auto
  then have "x = y" using swap[of y x] eq by force
  with Cons ys show ?case by simp
qed simp

lemma sortFunc_unique: "mset xs = mset ys \<Longrightarrow> sortFunc c xs = sortFunc c ys"
  by (rule sorted_unique) (simp_all add: sorted_sortFunc)

end

lemma three_way_cmp: "three_way (\<lambda>x y. cmp (f x) (f y))"
  by unfold_locales (auto simp: cmp_def split: if_splits)

lemma three_way_or:
  assumes "three_way c" and "three_way d"
  shows "three_way (\<lambda>x y. if c x y \<noteq> 0 then c x y else d x y)"
proof
  show "(if c y x \<noteq> 0 then c y x else d y x) = - (if c x y \<noteq> 0 then c x y else d x y)" for x y
    using three_way.swap[OF assms(1), of x y] three_way.swap[OF assms(2), of x y] by simp
next
  fix x y z
  assume "(if c x y \<noteq> 0 then c x y else d x y) \<le> 0" "(if c y z \<noteq> 0 then c y z else d y z) \<le> 0"
  then have "c x y \<le> 0" "c y z \<le> 0" "c x y = 0 \<Longrightarrow> d x y \<le> 0" "c y z = 0 \<Longrightarrow> d y z \<le> 0"
    by (auto split: if_splits)
  then show "(if c x z \<noteq> 0 then c x z else d x z) \<le> 0"
    using three_way.trans[OF assms(1), of x y z] three_way.trans[OF assms(2), of x y z]
      three_way.trans_tight[OF assms(1), of x y z] by auto
qed

lemma three_way_compareFunc:
  assumes "three_way c"
  shows "three_way (compareFunc c)"
proof
  show swap: "compareFunc c ys xs = - compareFunc c xs ys" for xs ys
  proof (induction xs ys rule: list_induct2')
    case (4 x xs y ys)
    then show ?case using three_way.swap[OF assms, of x y] by auto
  qed simp_all
  show "compareFunc c xs ys \<le> 0 \<Longrightarrow> compareFunc c ys zs \<le> 0 \<Longrightarrow> compareFunc c xs zs \<le> 0"
    for xs ys zs
  proof (induction xs arbitrary: ys zs)
    case Nil
    then show ?case by (cases zs) auto
  next
    case (Cons x xs)
    then obtain y ys' z zs' where yz: "ys = y # ys'" "zs = z # zs'"
      by (cases ys; cases zs) (auto split: if_splits)
    with Cons.prems have "c x y \<le> 0" "c y z \<le> 0"
      "c x y = 0 \<Longrightarrow> compareFunc c xs ys' \<le> 0" "c y z = 0 \<Longrightarrow> compareFunc c ys' zs' \<le> 0"
      by (auto split: if_splits)
    then show ?case
      using yz Cons.IH[of ys' zs'] three_way.trans[OF assms, of x y z]
        three_way.trans_tight[OF assms, of x y z] by auto
  qed
qed

interpretation str_order: three_way_total "cmp :: string \<Rightarrow> string \<Rightarrow> int"
  using three_way_cmp[of "\<lambda>x :: string. x"]
  by (simp add: three_way_total_def three_way_total_axioms_def)

section \<open>Strings\<close>

definition hasPrefix :: "string \<Rightarrow> string \<Rightarrow> bool" where
  "hasPrefix s p \<longleftrightarrow> take (length p) s = p"

definition hasSuffix :: "string \<Rightarrow> string \<Rightarrow> bool" where
  "hasSuffix s p \<longleftrightarrow> length p \<le> length s \<and> drop (length s - length p) s = p"

definition trimPrefix :: "string \<Rightarrow> string \<Rightarrow> string" where
  "trimPrefix s p = (if hasPrefix s p then drop (length p) s else s)"

fun contains :: "string \<Rightarrow> string \<Rightarrow> bool" where
  "contains [] p \<longleftrightarrow> p = []"
| "contains (c # s) p \<longleftrightarrow> hasPrefix (c # s) p \<or> contains s p"

text \<open>\<^verbatim>\<open>strings.Split\<close> on a one-byte separator: never empty, and an empty text gives one empty part.\<close>

fun splitOn :: "char \<Rightarrow> string \<Rightarrow> string list" where
  "splitOn sep [] = [[]]"
| "splitOn sep (c # s) =
     (if c = sep then [] # splitOn sep s
      else case splitOn sep s of [] \<Rightarrow> [[c]] | p # ps \<Rightarrow> (c # p) # ps)"

fun joinWith :: "string \<Rightarrow> string list \<Rightarrow> string" where
  "joinWith sep [] = []"
| "joinWith sep [p] = p"
| "joinWith sep (p # q # ps) = p @ sep @ joinWith sep (q # ps)"

lemma hasPrefix_iff: "hasPrefix s p \<longleftrightarrow> prefix p s"
  by (metis append_take_drop_id append_eq_conv_conj hasPrefix_def prefix_def)

lemma hasPrefix_append [simp]: "hasPrefix (p @ s) p"
  by (simp add: hasPrefix_def)

lemma hasPrefix_refl [simp]: "hasPrefix s s"
  by (simp add: hasPrefix_def)

lemma trimPrefix_append [simp]: "trimPrefix (p @ s) p = s"
  by (simp add: trimPrefix_def)

lemma splitOn_nonempty [simp]: "splitOn c s \<noteq> []"
  by (cases s) (auto split: list.splits)

lemma Nil_neq_splitOn [simp]: "[] \<noteq> splitOn c s"
  using splitOn_nonempty by metis

lemma splitOn_parts: "p \<in> set (splitOn c s) \<Longrightarrow> c \<notin> set p"
proof (induction s arbitrary: p)
  case (Cons x s)
  then show ?case by (cases "splitOn c s") (auto split: if_splits)
qed simp

lemma joinWith_splitOn [simp]: "joinWith [c] (splitOn c s) = s"
proof (induction s)
  case (Cons x s)
  then show ?case
    by (cases "splitOn c s"; cases "tl (splitOn c s)") auto
qed simp

lemma splitOn_append_sep:
  "c \<notin> set p \<Longrightarrow> splitOn c (p @ c # s) = p # splitOn c s"
  by (induction p) auto

lemma splitOn_no_sep: "c \<notin> set p \<Longrightarrow> splitOn c p = [p]"
  by (induction p) auto

lemma splitOn_joinWith:
  assumes "ps \<noteq> []" and "\<And>p. p \<in> set ps \<Longrightarrow> c \<notin> set p"
  shows "splitOn c (joinWith [c] ps) = ps"
  using assms
proof (induction "[c]" ps rule: joinWith.induct)
  case (3 p q ps)
  then show ?case by (simp add: splitOn_append_sep)
qed (auto simp: splitOn_no_sep)

text \<open>Decimal output, \<^verbatim>\<open>strconv.AppendInt\<close> with base 10.\<close>

text \<open>A character class range of a regular expression.\<close>

definition charIn :: "char \<Rightarrow> char \<Rightarrow> char \<Rightarrow> bool" where
  "charIn lo hi ch \<longleftrightarrow> of_char lo \<le> (of_char ch :: nat) \<and> of_char ch \<le> (of_char hi :: nat)"

definition digitChar :: "nat \<Rightarrow> char" where
  "digitChar d = char_of (48 + d)"

fun showNat :: "nat \<Rightarrow> string" where
  "showNat n = (if n < 10 then [digitChar n] else showNat (n div 10) @ [digitChar (n mod 10)])"

declare showNat.simps [simp del]

definition showInt :: "int \<Rightarrow> string" where
  "showInt i = (if i < 0 then ''-'' @ showNat (nat (- i)) else showNat (nat i))"

definition readNat :: "string \<Rightarrow> nat" where
  "readNat s = foldl (\<lambda>a c. 10 * a + (of_char c - 48)) 0 s"

lemma of_digitChar: "d < 10 \<Longrightarrow> of_char (digitChar d) = 48 + d"
  by (simp add: digitChar_def)

lemma readNat_snoc: "readNat (s @ [c]) = 10 * readNat s + (of_char c - 48)"
  by (simp add: readNat_def)

lemma readNat_showNat: "readNat (showNat n) = n"
proof (induction n rule: showNat.induct)
  case (1 n)
  show ?case
  proof (cases "n < 10")
    case True
    then show ?thesis by (simp add: showNat.simps readNat_def of_digitChar)
  next
    case False
    then have "readNat (showNat n) = 10 * (n div 10) + (of_char (digitChar (n mod 10)) - 48)"
      using 1 by (subst showNat.simps) (simp add: readNat_snoc)
    also have "of_char (digitChar (n mod 10)) = (48 + n mod 10 :: nat)" by (rule of_digitChar) simp
    finally show ?thesis by simp
  qed
qed

lemma showNat_digits: "c \<in> set (showNat n) \<Longrightarrow> c \<noteq> CHR ''-''"
proof (induction n rule: showNat.induct)
  case (1 n)
  have *: "digitChar d \<noteq> CHR ''-''" if "d < 10" for d
  proof
    assume "digitChar d = CHR ''-''"
    then have "of_char (digitChar d) = (of_char (CHR ''-'') :: nat)" by (rule arg_cong)
    then show False using of_digitChar[OF that] by simp
  qed
  have m: "digitChar (n mod 10) \<noteq> CHR ''-''" by (rule *) simp
  show ?case
  proof (cases "n < 10")
    case True
    with 1(2) * show ?thesis by (auto simp: showNat.simps[of n])
  next
    case False
    with 1(2) have "c \<in> set (showNat (n div 10)) \<or> c = digitChar (n mod 10)"
      by (auto simp add: showNat.simps[of n])
    then show ?thesis
    proof
      assume "c \<in> set (showNat (n div 10))"
      then show ?thesis by (rule 1(1)[OF False])
    qed (simp only: m not_False_eq_True)
  qed
qed

lemma showNat_nonempty [simp]: "showNat n \<noteq> []"
  by (simp add: showNat.simps[of n])

lemma showNat_inject: "showNat m = showNat n \<Longrightarrow> m = n"
  using readNat_showNat by metis

lemma showNat_no_sign: "showNat m \<noteq> CHR ''-'' # s"
  using showNat_digits[of "CHR ''-''" m] by auto

lemma showInt_inject [simp]: "showInt i = showInt j \<longleftrightarrow> i = j"
proof
  assume eq: "showInt i = showInt j"
  consider "i < 0" "j < 0" | "0 \<le> i" "0 \<le> j" | "i < 0" "0 \<le> j" | "0 \<le> i" "j < 0" by linarith
  then show "i = j"
  proof cases
    case 1
    then have "nat (- i) = nat (- j)" using eq showNat_inject by (simp add: showInt_def)
    with 1 show ?thesis by linarith
  next
    case 2
    then have "nat i = nat j" using eq showNat_inject by (simp add: showInt_def)
    with 2 show ?thesis by linarith
  next
    case 3
    then show ?thesis using eq showNat_no_sign[of "nat j" "showNat (nat (- i))"] by (simp add: showInt_def)
  next
    case 4
    then show ?thesis using eq showNat_no_sign[of "nat i" "showNat (nat (- j))"] by (simp add: showInt_def)
  qed
qed simp

section \<open>Go maps\<close>

type_synonym ('k, 'v) gomap = "('k \<times> 'v) list"

definition gok :: "('k::linorder, 'v) gomap \<Rightarrow> bool" where
  "gok m \<longleftrightarrow> sorted_wrt (<) (map fst m)"

fun gput :: "'k::linorder \<Rightarrow> 'v \<Rightarrow> ('k, 'v) gomap \<Rightarrow> ('k, 'v) gomap" where
  "gput k v [] = [(k, v)]"
| "gput k v ((k', v') # m) =
     (if k < k' then (k, v) # (k', v') # m
      else if k = k' then (k, v) # m
      else (k', v') # gput k v m)"

definition gdel :: "'k \<Rightarrow> ('k, 'v) gomap \<Rightarrow> ('k, 'v) gomap" where
  "gdel k m = filter (\<lambda>(k', v). k' \<noteq> k) m"

definition gkeys :: "('k, 'v) gomap \<Rightarrow> 'k list" where
  "gkeys m = map fst m"

text \<open>What a client of a Go map relies on, and what follows from it alone.\<close>

locale go_map =
  fixes get :: "'m \<Rightarrow> 'k \<Rightarrow> 'v option"
    and put :: "'k \<Rightarrow> 'v \<Rightarrow> 'm \<Rightarrow> 'm"
    and del :: "'k \<Rightarrow> 'm \<Rightarrow> 'm"
    and nil :: 'm
    and ok :: "'m \<Rightarrow> bool"
  assumes get_nil: "get nil k = None"
    and get_put: "ok m \<Longrightarrow> get (put k v m) k' = (if k' = k then Some v else get m k')"
    and get_del: "ok m \<Longrightarrow> get (del k m) k' = (if k' = k then None else get m k')"
    and ok_nil: "ok nil"
    and ok_put: "ok m \<Longrightarrow> ok (put k v m)"
    and ok_del: "ok m \<Longrightarrow> ok (del k m)"
    and ext: "ok m \<Longrightarrow> ok m' \<Longrightarrow> (\<And>k. get m k = get m' k) \<Longrightarrow> m = m'"
begin

lemma put_put: "ok m \<Longrightarrow> put k v (put k w m) = put k v m"
  by (rule ext) (simp_all add: ok_put get_put)

lemma put_swap: "ok m \<Longrightarrow> k \<noteq> k' \<Longrightarrow> put k v (put k' w m) = put k' w (put k v m)"
  by (rule ext) (simp_all add: ok_put get_put)

lemma del_put: "ok m \<Longrightarrow> del k (put k v m) = del k m"
  by (rule ext) (simp_all add: ok_put ok_del get_put get_del)

lemma del_absent: "ok m \<Longrightarrow> get m k = None \<Longrightarrow> del k m = m"
  by (rule ext) (auto simp: ok_del get_del)

lemma put_same: "ok m \<Longrightarrow> get m k = Some v \<Longrightarrow> put k v m = m"
  by (rule ext) (auto simp: ok_put get_put)

lemma ok_fold_put: "ok m \<Longrightarrow> ok (fold (\<lambda>(k, v). put k v) kvs m)"
  by (induction kvs arbitrary: m) (auto simp: ok_put)

lemma get_fold_put:
  "ok m \<Longrightarrow> get (fold (\<lambda>(k, v). put k v) kvs m) k =
     (case map_of (rev kvs) k of None \<Rightarrow> get m k | Some v \<Rightarrow> Some v)"
proof (induction kvs arbitrary: m)
  case (Cons kv kvs)
  obtain a b where kv: "kv = (a, b)" by force
  with Cons show ?case
    by (simp add: ok_put get_put map_add_def split: option.splits)
qed simp

end

lemma gok_Nil [simp]: "gok []"
  by (simp add: gok_def)

lemma gok_Cons: "gok ((k, v) # m) \<longleftrightarrow> (\<forall>k' \<in> fst ` set m. k < k') \<and> gok m"
  by (auto simp: gok_def)

lemma gok_distinct: "gok m \<Longrightarrow> distinct (map fst m)"
  by (simp add: gok_def strict_sorted_iff)

lemma fst_set_gput: "fst ` set (gput k v m) = insert k (fst ` set m)"
  by (induction k v m rule: gput.induct) auto

lemma fst_set_gdel: "fst ` set (gdel k m) = fst ` set m - {k}"
  by (auto simp: gdel_def image_iff)

lemma gok_gput: "gok m \<Longrightarrow> gok (gput k v m)"
proof (induction k v m rule: gput.induct)
  case (2 k v k' v' m)
  then show ?case by (auto simp: gok_Cons fst_set_gput)
qed (simp add: gok_Cons)

lemma gok_gdel: "gok m \<Longrightarrow> gok (gdel k m)"
proof (induction m)
  case (Cons kv m)
  then show ?case
    using fst_set_gdel[of k m] by (cases kv) (auto simp: gok_Cons gdel_def)
qed (simp add: gdel_def)

lemma map_of_None_less: "(\<forall>k' \<in> fst ` set m. k < k') \<Longrightarrow> map_of m (k :: 'k::linorder) = None"
  by (auto simp: map_of_eq_None_iff)

lemma map_of_gput: "gok m \<Longrightarrow> map_of (gput k v m) k' = (if k' = k then Some v else map_of m k')"
proof (induction k v m rule: gput.induct)
  case (2 k v k1 v1 m)
  then show ?case by (auto simp: gok_Cons)
qed simp

lemma map_of_gdel: "map_of (gdel k m) k' = (if k' = k then None else map_of m k')"
  by (induction m) (auto simp: gdel_def)

lemma dom_gput: "gok m \<Longrightarrow> dom (map_of (gput k v m)) = insert k (dom (map_of m))"
  by (auto simp: map_of_gput split: if_splits)

lemma dom_gdel: "dom (map_of (gdel k m)) = dom (map_of m) - {k}"
  by (auto simp: map_of_gdel split: if_splits)

lemma gok_ext:
  fixes m m' :: "('k::linorder, 'v) gomap"
  assumes "gok m" and "gok m'" and "\<And>k. map_of m k = map_of m' k"
  shows "m = m'"
proof (rule map_sorted_distinct_set_unique[of fst])
  have "map_of m = map_of m'" using assms(3) by (rule HOL.ext)
  then show same: "set m = set m'"
    using map_of_inject_set gok_distinct assms(1,2) by blast
  show "inj_on fst (set m \<union> set m')"
    using gok_distinct[OF assms(1)] by (simp add: same[symmetric] distinct_map)
qed (use assms(1,2) in \<open>auto simp: gok_def strict_sorted_iff\<close>)

interpretation gm: go_map map_of gput gdel "[]" gok
  by unfold_locales
    (auto simp: map_of_gput map_of_gdel gok_gput gok_gdel intro: gok_ext)

lemmas gok_intros [inv_intros] = gok_Nil gok_gput gok_gdel
lemmas gmap_simps [map_simps] = map_of_gput map_of_gdel

section \<open>Binary search\<close>

text \<open>\<^verbatim>\<open>sort.Search\<close> of the standard library and the loop of
  \<^verbatim>\<open>slices.BinarySearchFunc\<close>: the least index in the range at which the predicate holds.\<close>

function searchFrom :: "nat \<Rightarrow> nat \<Rightarrow> (nat \<Rightarrow> bool) \<Rightarrow> nat" where
  "searchFrom i j f =
     (if i < j then let h = (i + j) div 2 in if \<not> f h then searchFrom (h + 1) j f else searchFrom i h f
      else i)"
  by pat_completeness auto
termination by (relation "measure (\<lambda>(i, j, f). j - i)") auto

declare searchFrom.simps [simp del]

lemma searchFrom_least:
  assumes "\<And>a b. a \<le> b \<Longrightarrow> b < n \<Longrightarrow> f a \<Longrightarrow> f b" and "i \<le> j" and "j \<le> n"
    and "\<And>a. a < i \<Longrightarrow> \<not> f a" and "\<And>a. j \<le> a \<Longrightarrow> a < n \<Longrightarrow> f a"
  shows "searchFrom i j f \<le> n \<and> (\<forall>a < searchFrom i j f. \<not> f a) \<and> (\<forall>a. searchFrom i j f \<le> a \<longrightarrow> a < n \<longrightarrow> f a)"
  using assms
proof (induction i j f rule: searchFrom.induct)
  case (1 i j f)
  show ?case
  proof (cases "i < j")
    case True
    define h where "h = (i + j) div 2"
    have h: "i \<le> h" "h < j" using True by (auto simp: h_def)
    show ?thesis
    proof (cases "f h")
      case hit: True
      have "searchFrom i h f \<le> n \<and> (\<forall>a < searchFrom i h f. \<not> f a) \<and> (\<forall>a. searchFrom i h f \<le> a \<longrightarrow> a < n \<longrightarrow> f a)"
      proof (rule "1.IH"(2)[OF True h_def])
        show "\<not> \<not> f h" using hit by simp
        show "f a" if "h \<le> a" "a < n" for a using "1.prems"(1)[OF that hit] .
      qed (use "1.prems" h in auto)
      then show ?thesis using True hit by (simp add: searchFrom.simps[of i j] h_def)
    next
      case miss: False
      have "searchFrom (h + 1) j f \<le> n \<and> (\<forall>a < searchFrom (h + 1) j f. \<not> f a) \<and>
          (\<forall>a. searchFrom (h + 1) j f \<le> a \<longrightarrow> a < n \<longrightarrow> f a)"
      proof (rule "1.IH"(1)[OF True h_def miss])
        show "\<not> f a" if "a < h + 1" for a
          using "1.prems"(1)[of a h] miss that h "1.prems"(3) by auto
      qed (use "1.prems" h in auto)
      then show ?thesis using True miss by (simp add: searchFrom.simps[of i j] h_def)
    qed
  next
    case False
    then have "searchFrom i j f = i" by (subst searchFrom.simps) simp
    with False "1.prems" show ?thesis by simp
  qed
qed

lemma map_of_map_value: "map_of (map (\<lambda>(k, v). (k, f v)) m) k = map_option f (map_of m k)"
  by (induction m) auto

lemma gok_map_value: "gok (map (\<lambda>(k, v). (k, f v)) m) \<longleftrightarrow> gok m"
  by (simp add: gok_def comp_def case_prod_unfold)

lemma gok_filter: "gok m \<Longrightarrow> gok (filter P m)"
  unfolding gok_def by (induction m) auto

lemma strict_sorted_remdups_adj: "sorted (xs :: 'a::linorder list) \<Longrightarrow> sorted_wrt (<) (remdups_adj xs)"
  by (induction xs rule: remdups_adj.induct) (force simp: less_le)+

section \<open>Worklist searches\<close>

text \<open>
  Several loops of the program walk a graph with a worklist and a set of seen nodes. What such a
  walk returns is argued the same way each time: a set that holds the start and is closed under
  successors holds everything reachable.
\<close>

locale successor_graph =
  fixes succ :: "'a \<Rightarrow> 'a set"
begin

lemma closed_reachable:
  assumes "(x, y) \<in> {(u, v). v \<in> succ u}\<^sup>*" and "x \<in> S"
    and "\<And>u v. u \<in> S \<Longrightarrow> v \<in> succ u \<Longrightarrow> v \<in> S"
  shows "y \<in> S"
  using assms(1,2) by (induction rule: rtrancl_induct) (auto intro: assms(3))

lemma closed_tranclE:
  assumes "(x, y) \<in> {(u, v). v \<in> succ u}\<^sup>+" and "x \<in> S"
    and "\<And>u v. u \<in> S \<Longrightarrow> v \<in> succ u \<Longrightarrow> v \<in> S"
  shows "\<exists>u \<in> S. y \<in> succ u"
proof -
  from assms(1) obtain u where u: "(x, u) \<in> {(u, v). v \<in> succ u}\<^sup>*" "y \<in> succ u"
    by (auto dest: tranclD2)
  have "u \<in> S" using closed_reachable[OF u(1) assms(2)] assms(3) by blast
  with u(2) show ?thesis by blast
qed

end

end
