(* ===== verification/Identity.thy ===== *)
theory Identity
  imports Prelude
begin

text \<open>
  Resource identities and diagnostics of \<^verbatim>\<open>pkg/manifest\<close>: \<^verbatim>\<open>types.go\<close> (\<open>NamedResource\<close>, its order,
  its display forms, namespace resolution), \<^verbatim>\<open>diagnostic.go\<close> (captured failure reasons),
  \<^verbatim>\<open>warning.go\<close> (the advisory order) and \<^verbatim>\<open>gitref.go\<close> (the selected Git reference).

  The struct \<open>NamedResource\<close> is a datatype with one constructor and its fields as selectors, so
  that it can be given the linear order of its method \<open>Compare\<close>; every sorted list and every map
  key of the other theories uses that order. The comparators are interpretations of the contract
  \<open>three_way_total\<close>.
\<close>

section \<open>Named resources\<close>

datatype NamedResource = NamedResource (Group: string) (Kind: string) (Namespace: string) (Name: string)

abbreviation zeroResource :: NamedResource where
  "zeroResource \<equiv> NamedResource [] [] [] []"

definition compareResource :: "NamedResource \<Rightarrow> NamedResource \<Rightarrow> int" where
  "compareResource n other =
     cmp_or [cmp (Kind n) (Kind other), cmp (Group n) (Group other),
             cmp (Namespace n) (Namespace other), cmp (Name n) (Name other)]"

definition apixGroupName :: string where
  "apixGroupName = ''apiextensions.k8s.io''"

definition isCRD :: "NamedResource \<Rightarrow> bool" where
  "isCRD n \<longleftrightarrow> Group n = apixGroupName \<and> Kind n = ''CustomResourceDefinition''"

definition fluxKustomizeDomain :: string where
  "fluxKustomizeDomain = ''kustomize.toolkit.fluxcd.io''"

definition internalKustomizationNamespace :: string where
  "internalKustomizationNamespace = [CHR 0x00]"

definition bootstrapSourceID :: NamedResource where
  "bootstrapSourceID =
     NamedResource ''source.toolkit.fluxcd.io'' ''GitRepository'' ''flux-system'' ''flux-system''"

definition internalKustomization :: "NamedResource \<Rightarrow> bool" where
  "internalKustomization n \<longleftrightarrow>
     Group n = fluxKustomizeDomain \<and> Kind n = ''Kustomization'' \<and>
     Namespace n = internalKustomizationNamespace"

definition reportHidden :: "NamedResource \<Rightarrow> bool" where
  "reportHidden n \<longleftrightarrow> internalKustomization n \<or> n = bootstrapSourceID"

definition resolve_ns :: "NamedResource \<Rightarrow> string \<Rightarrow> string \<Rightarrow> NamedResource" where
  "resolve_ns n forced fallback =
     NamedResource (Group n) (Kind n) (str_or [forced, Namespace n, fallback]) (Name n)"

definition namespacedName :: "NamedResource \<Rightarrow> string" where
  "namespacedName n =
     (if Namespace n = [] \<or> internalKustomization n then Name n
      else Namespace n @ ''/'' @ Name n)"

definition kindLabel :: "NamedResource \<Rightarrow> string" where
  "kindLabel n = (if Group n \<noteq> [] then Kind n @ ''.'' @ Group n else Kind n)"

definition resourceString :: "NamedResource \<Rightarrow> string" where
  "resourceString n = kindLabel n @ ''/'' @ namespacedName n"

interpretation res_order: three_way_total compareResource
proof -
  have "three_way compareResource"
    unfolding compareResource_def cmp_or.simps
    by (intro three_way_or three_way_cmp) (unfold_locales, simp_all)
  moreover have "compareResource x y = 0 \<Longrightarrow> x = y" for x y
    by (cases x; cases y) (auto simp: compareResource_def split: if_splits)
  ultimately show "three_way_total compareResource"
    by (simp add: three_way_total_def three_way_total_axioms_def)
qed

instantiation NamedResource :: linorder
begin

definition less_eq_NamedResource :: "NamedResource \<Rightarrow> NamedResource \<Rightarrow> bool" where
  "a \<le> b \<longleftrightarrow> compareResource a b \<le> 0"

definition less_NamedResource :: "NamedResource \<Rightarrow> NamedResource \<Rightarrow> bool" where
  "a < b \<longleftrightarrow> compareResource a b < 0"

instance
proof
  fix x y z :: NamedResource
  show "x < y \<longleftrightarrow> x \<le> y \<and> \<not> y \<le> x"
    using res_order.swap[of x y] by (auto simp: less_NamedResource_def less_eq_NamedResource_def)
  show "x \<le> x"
    by (simp add: less_eq_NamedResource_def res_order.same)
  show "x \<le> y \<Longrightarrow> y \<le> z \<Longrightarrow> x \<le> z"
    by (simp add: less_eq_NamedResource_def res_order.trans)
  show "x \<le> y \<Longrightarrow> y \<le> x \<Longrightarrow> x = y"
    using res_order.swap[of x y] res_order.eq[of x y] by (simp add: less_eq_NamedResource_def)
  show "x \<le> y \<or> y \<le> x"
    using res_order.total by (simp add: less_eq_NamedResource_def)
qed

end

lemma compareResource_sorted: "sorted_wrt (\<lambda>x y. compareResource x y \<le> 0) xs \<longleftrightarrow> sorted xs"
proof -
  have "(\<lambda>x y. compareResource x y \<le> 0) = (\<le>)"
    by (simp add: fun_eq_iff less_eq_NamedResource_def)
  then show ?thesis by simp
qed

lemma sortFunc_compareResource: "sortFunc compareResource xs = sort xs"
  by (rule res_order.sorted_unique)
    (use res_order.sorted_sortFunc[of xs] in \<open>simp_all add: compareResource_sorted\<close>)

lemma kindLabel_inject:
  assumes "CHR ''.'' \<notin> set (Kind a)" and "CHR ''.'' \<notin> set (Kind b)" and "kindLabel a = kindLabel b"
  shows "Kind a = Kind b \<and> Group a = Group b"
proof -
  have split: "splitOn (CHR ''.'') (kindLabel n) =
      (if Group n \<noteq> [] then Kind n # splitOn (CHR ''.'') (Group n) else [Kind n])"
    if "CHR ''.'' \<notin> set (Kind n)" for n
    using that by (simp add: kindLabel_def splitOn_append_sep splitOn_no_sep)
  have "splitOn (CHR ''.'') (kindLabel a) = splitOn (CHR ''.'') (kindLabel b)"
    using assms(3) by simp
  then show ?thesis
    using split[OF assms(1)] split[OF assms(2)] joinWith_splitOn[of "CHR ''.''"]
    by (auto split: if_splits) (metis joinWith_splitOn)
qed

definition displayable :: "NamedResource \<Rightarrow> bool" where
  "displayable n \<longleftrightarrow>
     CHR ''.'' \<notin> set (Kind n) \<and> CHR ''/'' \<notin> set (Kind n) \<and> CHR ''/'' \<notin> set (Group n) \<and>
     CHR ''/'' \<notin> set (Namespace n) \<and> CHR ''/'' \<notin> set (Name n) \<and> \<not> internalKustomization n"

lemma resourceString_parts:
  assumes "displayable n"
  shows "splitOn (CHR ''/'') (resourceString n) =
    kindLabel n # (if Namespace n = [] then [Name n] else [Namespace n, Name n])"
  using assms
  by (auto simp: displayable_def resourceString_def namespacedName_def splitOn_append_sep
      splitOn_no_sep kindLabel_def)

text \<open>
  The display form \<^verbatim>\<open>kind.group/namespace/name\<close> identifies a resource: two resources whose
  fields hold no separator (and that are not the internal entry Kustomizations, whose namespace is
  never printed) and that print alike are equal.
\<close>

theorem resourceString_inject:
  assumes "displayable a" and "displayable b" and "resourceString a = resourceString b"
  shows "a = b"
proof -
  have "kindLabel a = kindLabel b \<and> Namespace a = Namespace b \<and> Name a = Name b"
    using resourceString_parts[OF assms(1)] resourceString_parts[OF assms(2)] assms(3)
    by (auto split: if_splits)
  moreover from this have "Kind a = Kind b \<and> Group a = Group b"
    using assms(1,2) kindLabel_inject by (auto simp: displayable_def)
  ultimately show ?thesis by (simp add: NamedResource.expand)
qed

theorem resourceString_inject_witness:
  "NamedResource ''apps'' ''Deployment'' ''media'' ''plex'' = NamedResource ''apps'' ''Deployment'' ''media'' ''plex''"
  by (rule resourceString_inject) (simp_all add: displayable_def internalKustomization_def)

section \<open>Diagnostics\<close>

record DiagnosticIdentity =
  ID :: NamedResource
  Resource :: NamedResource
  Path :: string

text \<open>
  \<open>DiagnosticFor\<close> asks a declaration that captured its display context for it; \<open>captured\<close> is what
  \<open>capturedDiagnostic\<close> finds there (\<^verbatim>\<open>hasDiagnostic\<close>, its owner and its path).
\<close>

definition diagnosticFor :: "NamedResource \<Rightarrow> (NamedResource \<times> string) option \<Rightarrow> DiagnosticIdentity" where
  "diagnosticFor n captured = (case captured of
     Some (owner, path) \<Rightarrow> \<lparr>ID = n, Resource = owner, Path = path\<rparr>
   | None \<Rightarrow> \<lparr>ID = n, Resource = n, Path = []\<rparr>)"

datatype DiagnosticReason =
  DiagnosticReason (Subject: DiagnosticIdentity) (Message: string) (Causes: "DiagnosticReason list")

abbreviation zeroReason :: DiagnosticReason where
  "zeroReason \<equiv> DiagnosticReason \<lparr>ID = zeroResource, Resource = zeroResource, Path = []\<rparr> [] []"

lemma compareFunc_cong [fundef_cong]:
  assumes "xs = xs'" "ys = ys'" "\<And>x y. x \<in> set xs' \<Longrightarrow> y \<in> set ys' \<Longrightarrow> f x y = g x y"
  shows "compareFunc f xs ys = compareFunc g xs' ys'"
  unfolding assms(1,2) using assms(3) by (induction f xs' ys' rule: compareFunc.induct) auto

fun compareReason :: "DiagnosticReason \<Rightarrow> DiagnosticReason \<Rightarrow> int" where
  "compareReason (DiagnosticReason s m cs) (DiagnosticReason s' m' cs') =
     cmp_or [compareResource (ID s) (ID s'), cmp m m', compareFunc compareReason cs cs']"

text \<open>What \<open>Compare\<close> looks at: the raw identity, the message and the causes, not the display context.\<close>

fun semantic :: "DiagnosticReason \<Rightarrow> DiagnosticReason" where
  "semantic (DiagnosticReason s m cs) =
     DiagnosticReason \<lparr>ID = ID s, Resource = zeroResource, Path = []\<rparr> m (map semantic cs)"

lemma compareFunc_map_eq_0:
  assumes "\<And>x y. x \<in> set xs \<Longrightarrow> y \<in> set ys \<Longrightarrow> f x y = 0 \<longleftrightarrow> g x = g y"
  shows "compareFunc f xs ys = 0 \<longleftrightarrow> map g xs = map g ys"
  using assms by (induction f xs ys rule: compareFunc.induct) auto

text \<open>
  Two captured failure reasons compare as equal exactly when they agree on the raw identity,
  the message and, recursively, the causes; the display context never takes part.
\<close>

theorem compareReason_eq_0: "compareReason r r' = 0 \<longleftrightarrow> semantic r = semantic r'"
proof (induction r r' rule: compareReason.induct)
  case (1 s m cs s' m' cs')
  have "compareFunc compareReason cs cs' = 0 \<longleftrightarrow> map semantic cs = map semantic cs'"
    by (rule compareFunc_map_eq_0) (rule 1)
  then show ?case by (auto simp: res_order.eq_iff)
qed

section \<open>Warnings\<close>

record Warning =
  wResource :: NamedResource
  wSubject :: DiagnosticIdentity
  wRelated :: "NamedResource list"
  wCategory :: string
  wMessage :: string
  wDetail :: "string list"
  wCount :: nat

definition compareWarning :: "Warning \<Rightarrow> Warning \<Rightarrow> int" where
  "compareWarning a b =
     cmp_or [cmp (wCategory a) (wCategory b),
             compareResource (wResource a) (wResource b),
             compareFunc compareResource (wRelated a) (wRelated b),
             cmp (wMessage a) (wMessage b),
             compareFunc cmp (wDetail a) (wDetail b)]"

lemma three_way_on: "three_way c \<Longrightarrow> three_way (\<lambda>x y. c (f x) (f y))"
  unfolding three_way_def by blast

lemmas on_resource = three_way_on[OF res_order.three_way_axioms]
lemmas on_resources = three_way_on[OF three_way_compareFunc[OF res_order.three_way_axioms]]
lemmas on_strings = three_way_on[OF three_way_compareFunc[OF str_order.three_way_axioms]]

lemma three_way_zero: "three_way (\<lambda>x y. 0)"
  by unfold_locales simp_all

interpretation warning_order: three_way compareWarning
  unfolding compareWarning_def cmp_or.simps
  by (rule three_way_or three_way_cmp on_resource on_resources on_strings three_way_zero)+

definition warningPayload ::
  "Warning \<Rightarrow> string \<times> NamedResource \<times> NamedResource list \<times> string \<times> string list" where
  "warningPayload w = (wCategory w, wResource w, wRelated w, wMessage w, wDetail w)"

lemma compareWarning_eq_0: "compareWarning a b = 0 \<longleftrightarrow> warningPayload a = warningPayload b"
  using compareFunc_eq_0[of "wRelated a" "wRelated b" compareResource]
    compareFunc_eq_0[of "wDetail a" "wDetail b" cmp]
  by (auto simp: compareWarning_def warningPayload_def res_order.eq_iff)

section \<open>Git references\<close>

record GitRepositoryRef =
  Commit :: string
  refName :: string
  SemVer :: string
  Tag :: string
  Branch :: string

record GitReference =
  gKind :: string
  gValue :: string

definition effective :: "GitRepositoryRef option \<Rightarrow> GitReference" where
  "effective r = (case r of
     None \<Rightarrow> \<lparr>gKind = [], gValue = []\<rparr>
   | Some r \<Rightarrow>
       if Commit r \<noteq> [] then \<lparr>gKind = ''commit'', gValue = Commit r\<rparr>
       else if refName r \<noteq> [] then \<lparr>gKind = ''name'', gValue = refName r\<rparr>
       else if SemVer r \<noteq> [] then \<lparr>gKind = ''semver'', gValue = SemVer r\<rparr>
       else if Tag r \<noteq> [] then \<lparr>gKind = ''tag'', gValue = Tag r\<rparr>
       else if Branch r \<noteq> [] then \<lparr>gKind = ''branch'', gValue = Branch r\<rparr>
       else \<lparr>gKind = [], gValue = []\<rparr>)"

definition zeroRef :: GitRepositoryRef where
  "zeroRef = \<lparr>Commit = [], refName = [], SemVer = [], Tag = [], Branch = []\<rparr>"

text \<open>\<^verbatim>\<open>r.Branch\<close> is read only under the commit kind, which a nil reference never has.\<close>

definition branchOf :: "GitRepositoryRef option \<Rightarrow> string" where
  "branchOf r = (case r of None \<Rightarrow> [] | Some r \<Rightarrow> Branch r)"

definition normalized :: "GitRepositoryRef option \<Rightarrow> GitRepositoryRef" where
  "normalized r =
     (let reference = effective r; kind = gKind reference; v = gValue reference
      in if kind = ''commit'' then zeroRef\<lparr>Commit := v, Branch := branchOf r\<rparr>
         else if kind = ''name'' then zeroRef\<lparr>refName := v\<rparr>
         else if kind = ''semver'' then zeroRef\<lparr>SemVer := v\<rparr>
         else if kind = ''tag'' then zeroRef\<lparr>Tag := v\<rparr>
         else if kind = ''branch'' then zeroRef\<lparr>Branch := v\<rparr>
         else zeroRef)"

definition refString :: "GitRepositoryRef option \<Rightarrow> string" where
  "refString r =
     (let reference = effective r
      in if gKind reference = [] then [] else gKind reference @ '':'' @ gValue reference)"

definition refLabel :: "GitRepositoryRef option \<Rightarrow> string" where
  "refLabel r =
     (let reference = effective r
      in if gKind reference = ''commit'' \<and> branchOf r \<noteq> []
         then ''branch:'' @ branchOf r @ ''@commit:'' @ gValue reference
         else refString r)"

text \<open>
  The full names of tags and branches are built by the Git library; \<open>tagRef\<close> and \<open>branchRef\<close> are its
  \<^verbatim>\<open>NewTagReferenceName\<close> and \<^verbatim>\<open>NewBranchReferenceName\<close>.
\<close>

definition refSpec ::
  "(string \<Rightarrow> string) \<Rightarrow> (string \<Rightarrow> string) \<Rightarrow> GitRepositoryRef option \<Rightarrow> string" where
  "refSpec tagRef branchRef r =
     (let reference = effective r; kind = gKind reference; v = gValue reference;
          spec = (\<lambda>name. ''+'' @ name @ '':'' @ name)
      in if kind = ''name'' then spec v
         else if kind = ''semver'' then spec ''refs/tags/*''
         else if kind = ''tag'' then spec (tagRef v)
         else if kind = ''branch'' then spec (branchRef v)
         else [])"

definition pinned :: "GitRepositoryRef option \<Rightarrow> bool" where
  "pinned r \<longleftrightarrow> gKind (effective r) = ''commit'' \<and>
     (case r of None \<Rightarrow> False
      | Some r \<Rightarrow> Branch r = [] \<and> Tag r = [] \<and> SemVer r = [] \<and> refName r = [])"

lemma effective_normalized: "effective (Some (normalized r)) = effective r"
  by (cases r) (auto simp: effective_def normalized_def zeroRef_def Let_def)

lemma branchOf_normalized:
  "gKind (effective r) = ''commit'' \<Longrightarrow> branchOf (Some (normalized r)) = branchOf r"
  by (simp add: normalized_def zeroRef_def Let_def branchOf_def)

text \<open>
  Normalising a Git reference drops only what the selection ignores: the normalised reference
  selects the same category and value, prints the same diagnostic and cache label, fetches the same
  refspec, and normalising it again changes nothing.
\<close>

theorem normalized_equivalent:
  "effective (Some (normalized r)) = effective r \<and>
   refString (Some (normalized r)) = refString r \<and>
   refLabel (Some (normalized r)) = refLabel r \<and>
   refSpec tagRef branchRef (Some (normalized r)) = refSpec tagRef branchRef r \<and>
   normalized (Some (normalized r)) = normalized r"
proof -
  have "refLabel (Some (normalized r)) = refLabel r"
    using branchOf_normalized[of r]
    by (cases "gKind (effective r) = ''commit''")
      (auto simp: refLabel_def refString_def effective_normalized Let_def)
  moreover have "normalized (Some (normalized r)) = normalized r"
    using branchOf_normalized[of r]
    by (simp add: normalized_def[of "Some (normalized r)"] effective_normalized Let_def)
      (auto simp: normalized_def Let_def)
  ultimately show ?thesis
    by (simp add: effective_normalized refString_def refSpec_def)
qed

end
