(* ===== verification/Scheduler.thy ===== *)
theory Scheduler
  imports Identity
begin

text \<open>
  The reconciliation scheduler of \<^verbatim>\<open>pkg/schedule/schedule.go\<close>.

  \<open>scheduler\<close> is the struct \<^verbatim>\<open>Scheduler\<close> with the fields its mutex guards, \<open>node\<close> the struct
  \<^verbatim>\<open>node\<close>; a pointer to a node is the node's identity, since nodes are never removed from the map.
  Every critical section of the source is one function here: \<open>seed\<close>, \<open>onArrival\<close>,
  \<open>onPublication\<close>, \<open>requeueLocked\<close>, \<open>completeLocked\<close> (the body of \<^verbatim>\<open>complete\<close> between taking and
  releasing the lock), \<open>invalidateRead\<close> and \<open>invalidateRequeue\<close> (the two sections of
  \<^verbatim>\<open>invalidate\<close>), \<open>dispatchNextLocked\<close>, \<open>parkedLocked\<close>, \<open>settleLocked\<close> (one iteration) and
  \<open>notifyCancellation\<close>.

  \<open>step\<close> interleaves those sections: the goroutine of \<^verbatim>\<open>Run\<close> (its program counter is \<open>main\<close>), one
  goroutine per task in flight (\<open>workers\<close>), the store's event adapters (arrivals, publications)
  and the context's cancellation callback. The dispatcher and the assessments are other packages'
  code: what \<^verbatim>\<open>Dispatch\<close>, \<^verbatim>\<open>Sweep\<close>, \<^verbatim>\<open>Valid\<close>, \<^verbatim>\<open>Outcome\<close> and \<^verbatim>\<open>Progressed\<close> return is left open, so
  every theorem holds for all of their behaviours. A task whose context is cancelled before it gets
  a worker slot never runs its body (rule \<open>vanish\<close>).
\<close>

section \<open>State\<close>

type_synonym NodeID = NamedResource

datatype Kind = Terminal | Blocked | DependencyFailed

datatype DrainLevel = DrainNone | DrainCascade | DrainForce

fun drainRank :: "DrainLevel \<Rightarrow> nat" where
  "drainRank DrainNone = 0"
| "drainRank DrainCascade = 1"
| "drainRank DrainForce = 2"

instantiation DrainLevel :: linorder
begin

definition less_eq_DrainLevel :: "DrainLevel \<Rightarrow> DrainLevel \<Rightarrow> bool" where
  "a \<le> b \<longleftrightarrow> drainRank a \<le> drainRank b"

definition less_DrainLevel :: "DrainLevel \<Rightarrow> DrainLevel \<Rightarrow> bool" where
  "a < b \<longleftrightarrow> drainRank a < drainRank b"

instance
proof
  show "x \<le> y \<Longrightarrow> y \<le> x \<Longrightarrow> x = y" for x y :: DrainLevel
    by (cases x; cases y) (simp_all add: less_eq_DrainLevel_def)
qed (auto simp: less_eq_DrainLevel_def less_DrainLevel_def)

end

lemmas drain_simps = less_eq_DrainLevel_def less_DrainLevel_def

text \<open>\<^verbatim>\<open>level++\<close>; the caller has excluded \<open>DrainForce\<close>, whose successor would be no level.\<close>

fun nextLevel :: "DrainLevel \<Rightarrow> DrainLevel" where
  "nextLevel DrainNone = DrainCascade"
| "nextLevel DrainCascade = DrainForce"
| "nextLevel DrainForce = DrainForce"

datatype nodeState = StateRunnable | StateRunning | StateParked | StateTerminal

definition maxRedispatches :: nat where
  "maxRedispatches = 32"

record 'a node =
  nstate :: nodeState
  assessment :: "'a option"
  redispatches :: nat
  progressed :: bool
  recheck :: bool

datatype schedError = RedispatchesExceeded NodeID | UnresolvedAssessment | ContextDone

record 'a scheduler =
  nodes :: "(NodeID, 'a node) gomap"
  runq :: "NodeID list"
  unsorted :: bool
  inFlight :: int
  err :: "schedError option"
  stopped :: bool
  published :: bool

definition newScheduler :: "'a scheduler" where
  "newScheduler = \<lparr>nodes = [], runq = [], unsorted = False, inFlight = 0, err = None,
     stopped = False, published = False\<rparr>"

definition newNode :: "'a node" where
  "newNode = \<lparr>nstate = StateRunnable, assessment = None, redispatches = 0, progressed = False,
     recheck = False\<rparr>"

section \<open>Critical sections\<close>

definition admit :: "NodeID \<Rightarrow> 'a scheduler \<Rightarrow> 'a scheduler" where
  "admit i s = s\<lparr>nodes := gput i newNode (nodes s), runq := runq s @ [i], unsorted := True\<rparr>"

fun seed :: "NodeID list \<Rightarrow> 'a scheduler \<Rightarrow> 'a scheduler" where
  "seed [] s = s"
| "seed (i # ids) s = seed ids (if map_of (nodes s) i = None then admit i s else s)"

definition onArrival :: "NodeID \<Rightarrow> bool \<Rightarrow> 'a scheduler \<Rightarrow> 'a scheduler" where
  "onArrival i runnable s =
     (let s = s\<lparr>published := True\<rparr>
      in if runnable \<and> err s = None \<and> \<not> stopped s \<and> map_of (nodes s) i = None
         then admit i s else s)"

definition onPublication :: "'a scheduler \<Rightarrow> 'a scheduler" where
  "onPublication s = s\<lparr>published := True\<rparr>"

definition requeueLocked :: "NodeID \<Rightarrow> bool \<Rightarrow> 'a scheduler \<Rightarrow> 'a scheduler" where
  "requeueLocked i charge s = (case map_of (nodes s) i of
     None \<Rightarrow> s
   | Some n \<Rightarrow>
       if nstate n = StateRunnable \<or> err s \<noteq> None then s
       else if charge \<and> progressed n \<and> redispatches n \<ge> maxRedispatches
       then s\<lparr>err := Some (RedispatchesExceeded i)\<rparr>
       else let n = (if charge \<and> progressed n then n\<lparr>redispatches := redispatches n + 1\<rparr> else n)
            in s\<lparr>nodes := gput i (n\<lparr>nstate := StateRunnable\<rparr>) (nodes s),
                 runq := runq s @ [i], unsorted := True\<rparr>)"

text \<open>
  The locked part of \<^verbatim>\<open>complete\<close>. The flag tells the caller that the section released the lock to
  ask \<^verbatim>\<open>Valid\<close> again, because an invalidation arrived while the task was finishing.
\<close>

definition completeLocked ::
  "NodeID \<Rightarrow> 'a option \<Rightarrow> bool \<Rightarrow> bool \<Rightarrow> bool \<Rightarrow> 'a scheduler \<Rightarrow> 'a scheduler \<times> bool" where
  "completeLocked i current valid unresolved prog s = (case map_of (nodes s) i of
     None \<Rightarrow> (s, False)
   | Some n \<Rightarrow>
       if recheck n \<and> valid \<and> current \<noteq> None
       then (s\<lparr>nodes := gput i (n\<lparr>recheck := False\<rparr>) (nodes s)\<rparr>, True)
       else
         let n = n\<lparr>recheck := False, assessment := current, progressed := prog,
                   nstate := (if unresolved then StateParked else StateTerminal)\<rparr>;
             s = s\<lparr>nodes := gput i n (nodes s), inFlight := inFlight s - 1\<rparr>
         in (if valid then s else requeueLocked i (\<not> unresolved) s, False))"

text \<open>First section of \<^verbatim>\<open>invalidate\<close>: a running node is flagged, another one hands out its assessment.\<close>

definition invalidateRead :: "NodeID \<Rightarrow> 'a scheduler \<Rightarrow> 'a scheduler \<times> 'a option" where
  "invalidateRead i s = (case map_of (nodes s) i of
     None \<Rightarrow> (s, None)
   | Some n \<Rightarrow>
       if nstate n = StateRunning
       then (s\<lparr>nodes := gput i (n\<lparr>recheck := True\<rparr>) (nodes s)\<rparr>, None)
       else (s, assessment n))"

definition invalidateRequeue :: "NodeID \<Rightarrow> 'a scheduler \<Rightarrow> 'a scheduler" where
  "invalidateRequeue i s = (case map_of (nodes s) i of
     None \<Rightarrow> s
   | Some n \<Rightarrow> requeueLocked i (nstate n \<noteq> StateParked) s)"

definition sortQueue :: "'a scheduler \<Rightarrow> 'a scheduler" where
  "sortQueue s =
     (if unsorted s then s\<lparr>runq := sortFunc compareResource (runq s), unsorted := False\<rparr> else s)"

text \<open>
  \<^verbatim>\<open>dispatchNextLocked\<close> up to the launch of the task: the new state and the dispatched node with the
  assessment handed to \<^verbatim>\<open>Dispatch\<close>. \<open>None\<close> is the index panic on an empty queue, which \<^verbatim>\<open>Run\<close>
  excludes, or a queued identity without a node.
\<close>

definition dispatchNextLocked :: "'a scheduler \<Rightarrow> ('a scheduler \<times> NodeID \<times> 'a option) option" where
  "dispatchNextLocked s =
     (let s = sortQueue s
      in case runq s of
           [] \<Rightarrow> None
         | i # rest \<Rightarrow> (case map_of (nodes s) i of
             None \<Rightarrow> None
           | Some n \<Rightarrow>
               Some (s\<lparr>runq := rest, nodes := gput i (n\<lparr>nstate := StateRunning\<rparr>) (nodes s),
                       inFlight := inFlight s + 1\<rparr>, i, assessment n)))"

definition parkedLocked :: "'a scheduler \<Rightarrow> NodeID list" where
  "parkedLocked s = map fst (filter (\<lambda>(i, n). nstate n = StateParked) (nodes s))"

text \<open>One iteration of the loop of \<^verbatim>\<open>settleLocked\<close> up to the launch of its task.\<close>

definition settleLocked :: "NodeID \<Rightarrow> 'a scheduler \<Rightarrow> ('a scheduler \<times> 'a option) option" where
  "settleLocked i s = (case map_of (nodes s) i of
     None \<Rightarrow> None
   | Some n \<Rightarrow>
       if err s \<noteq> None then None
       else Some (s\<lparr>nodes := gput i (n\<lparr>nstate := StateRunning\<rparr>) (nodes s),
                    inFlight := inFlight s + 1\<rparr>, assessment n))"

definition notifyCancellation :: "'a scheduler \<Rightarrow> 'a scheduler" where
  "notifyCancellation s = (if err s = None then s\<lparr>err := Some ContextDone\<rparr> else s)"

definition results :: "('a \<Rightarrow> bool) \<Rightarrow> 'a scheduler \<Rightarrow> (NodeID, 'a) gomap" where
  "results valid s =
     List.map_filter (\<lambda>(i, n). case assessment n of
       None \<Rightarrow> None
     | Some a \<Rightarrow> if nstate n = StateTerminal \<and> valid a then Some (i, a) else None) (nodes s)"

section \<open>Interleaving\<close>

datatype 'a worker =
  Body bool "'a option"
| Completing "'a option" bool bool bool
| Rechecking "'a option" bool bool

datatype 'a mainPC =
  MStart
| MLoop
| MSweep bool
| MInvalidate bool bool "NodeID list"
| MCheck bool bool NodeID "NodeID list"
| MSettle "NodeID list"
| MDrain
| MDone

record 'a system =
  sch :: "'a scheduler"
  workers :: "(NodeID, 'a worker) gomap"
  main :: "'a mainPC"
  level :: DrainLevel
  ctxDone :: bool
  notified :: bool
  runCancelled :: bool
  retired :: "'a list"
  closed :: "'a list"

definition initial :: "NodeID list \<Rightarrow> 'a system" where
  "initial seeds = \<lparr>sch = seed seeds newScheduler, workers = [], main = MStart, level = DrainNone,
     ctxDone = False, notified = False, runCancelled = False, retired = [], closed = []\<rparr>"

text \<open>Leaving the loop of \<^verbatim>\<open>Run\<close>: \<open>stopped\<close> is set under the lock, then the run context is cancelled.\<close>

definition exitLoop :: "'a system \<Rightarrow> 'a system" where
  "exitLoop y = y\<lparr>sch := (sch y)\<lparr>stopped := True\<rparr>, main := MDrain, runCancelled := True\<rparr>"

text \<open>The head of the loop of \<^verbatim>\<open>Run\<close>; \<open>None\<close> is \<^verbatim>\<open>cond.Wait\<close>.\<close>

definition runHead :: "'a system \<Rightarrow> 'a system option" where
  "runHead y =
     (let s = sch y
      in if err s \<noteq> None then Some (exitLoop y)
         else if runq s \<noteq> [] then
           map_option (\<lambda>(s', i, a). y\<lparr>sch := s', level := DrainNone,
               workers := gput i (Body True a) (workers y)\<rparr>) (dispatchNextLocked s)
         else if inFlight s \<noteq> 0 \<and> \<not> published s then None
         else Some (y\<lparr>sch := s\<lparr>published := False\<rparr>, main := MSweep (inFlight s = 0)\<rparr>))"

text \<open>The section after \<^verbatim>\<open>Sweep\<close> and \<^verbatim>\<open>invalidate\<close>: go round, stop, fail, or settle the parked nodes.\<close>

definition runBoundary :: "bool \<Rightarrow> bool \<Rightarrow> 'a system \<Rightarrow> 'a system" where
  "runBoundary quiescent unchanged y =
     (let s = sch y
      in if \<not> quiescent \<or> \<not> unchanged \<or> published s \<or> runq s \<noteq> [] \<or> err s \<noteq> None
         then y\<lparr>main := MLoop\<rparr>
         else let parked = parkedLocked s
              in if parked = [] then exitLoop y
                 else if level y = DrainForce
                 then exitLoop (y\<lparr>sch := s\<lparr>err := Some UnresolvedAssessment\<rparr>\<rparr>)
                 else y\<lparr>level := nextLevel (level y), main := MSettle (sortFunc compareResource parked)\<rparr>)"

datatype actor = Environment | Canceller | Main | Worker NodeID

inductive step :: "actor \<Rightarrow> 'a system \<Rightarrow> 'a system \<Rightarrow> bool" where
  arrive: "step Environment y (y\<lparr>sch := onArrival i runnable (sch y)\<rparr>)"
| publish: "step Environment y (y\<lparr>sch := onPublication (sch y)\<rparr>)"
| cancel: "\<not> ctxDone y \<Longrightarrow> step Environment y (y\<lparr>ctxDone := True\<rparr>)"
| notify: "ctxDone y \<Longrightarrow> \<not> notified y \<Longrightarrow>
    step Canceller y (y\<lparr>sch := notifyCancellation (sch y), notified := True\<rparr>)"
| start: "main y = MStart \<Longrightarrow>
    step Main y (y\<lparr>sch := (if ctxDone y then notifyCancellation (sch y) else sch y), main := MLoop\<rparr>)"
| head: "main y = MLoop \<Longrightarrow> runHead y = Some z \<Longrightarrow> step Main y z"
| sweep: "main y = MSweep q \<Longrightarrow> step Main y (y\<lparr>main := MInvalidate q (changed = []) changed\<rparr>)"
| invalidate_skip: "main y = MInvalidate q e (i # is) \<Longrightarrow> invalidateRead i (sch y) = (s, None) \<Longrightarrow>
    step Main y (y\<lparr>sch := s, main := MInvalidate q e is\<rparr>)"
| invalidate_read: "main y = MInvalidate q e (i # is) \<Longrightarrow> invalidateRead i (sch y) = (s, Some a) \<Longrightarrow>
    step Main y (y\<lparr>sch := s, main := MCheck q e i is\<rparr>)"
| check_valid: "main y = MCheck q e i is \<Longrightarrow> step Main y (y\<lparr>main := MInvalidate q e is\<rparr>)"
| check_invalid: "main y = MCheck q e i is \<Longrightarrow>
    step Main y (y\<lparr>sch := invalidateRequeue i (sch y), main := MInvalidate q e is\<rparr>)"
| boundary: "main y = MInvalidate q e [] \<Longrightarrow> step Main y (runBoundary q e y)"
| settle_end: "main y = MSettle ps \<Longrightarrow> ps = [] \<or> err (sch y) \<noteq> None \<Longrightarrow> step Main y (y\<lparr>main := MLoop\<rparr>)"
| settle: "main y = MSettle (p # ps) \<Longrightarrow> settleLocked p (sch y) = Some (s, a) \<Longrightarrow>
    step Main y (y\<lparr>sch := s, workers := gput p (Body False a) (workers y), main := MSettle ps\<rparr>)"
| body: "map_of (workers y) i = Some (Body replace previous) \<Longrightarrow>
    current = (if replace then result else previous) \<Longrightarrow>
    (current = None \<Longrightarrow> valid \<and> \<not> unresolved \<and> prog) \<Longrightarrow>
    step (Worker i) y (y\<lparr>workers := gput i (Completing current valid unresolved prog) (workers y),
              retired := retired y @ (if replace then (case previous of None \<Rightarrow> [] | Some a \<Rightarrow> [a]) else [])\<rparr>)"
| complete_again: "map_of (workers y) i = Some (Completing current valid unresolved prog) \<Longrightarrow>
    completeLocked i current valid unresolved prog (sch y) = (s, True) \<Longrightarrow>
    step (Worker i) y (y\<lparr>sch := s, workers := gput i (Rechecking current unresolved prog) (workers y)\<rparr>)"
| complete_done: "map_of (workers y) i = Some (Completing current valid unresolved prog) \<Longrightarrow>
    completeLocked i current valid unresolved prog (sch y) = (s, False) \<Longrightarrow>
    step (Worker i) y (y\<lparr>sch := s, workers := gdel i (workers y)\<rparr>)"
| revalidate: "map_of (workers y) i = Some (Rechecking current unresolved prog) \<Longrightarrow>
    step (Worker i) y (y\<lparr>workers := gput i (Completing current valid unresolved prog) (workers y)\<rparr>)"
| vanish: "map_of (workers y) i = Some (Body replace previous) \<Longrightarrow> ctxDone y \<or> runCancelled y \<Longrightarrow>
    step (Worker i) y (y\<lparr>workers := gdel i (workers y)\<rparr>)"
| drain: "main y = MDrain \<Longrightarrow> workers y = [] \<Longrightarrow>
    step Main y (y\<lparr>sch := (if ctxDone y then notifyCancellation (sch y) else sch y), main := MDone,
              closed := List.map_filter (\<lambda>(i, n). assessment n) (nodes (sch y))\<rparr>)"

inductive reachable :: "NodeID list \<Rightarrow> 'a system \<Rightarrow> bool" for seeds where
  init: "reachable seeds (initial seeds)"
| more: "reachable seeds y \<Longrightarrow> step a y z \<Longrightarrow> reachable seeds z"

section \<open>Invariant of the guarded state\<close>

definition inState :: "nodeState \<Rightarrow> (NodeID, 'a node) gomap \<Rightarrow> NodeID set" where
  "inState q m = {i. \<exists>n. map_of m i = Some n \<and> nstate n = q}"

text \<open>
  The run queue holds exactly the runnable nodes, each once, and is sorted unless flagged;
  \<open>inFlight\<close> counts the running nodes; no node was charged more than the limit; a parked node has
  an assessment to settle.
\<close>

definition sched_ok :: "'a scheduler \<Rightarrow> bool" where
  "sched_ok s \<longleftrightarrow>
     gok (nodes s) \<and> distinct (runq s) \<and> set (runq s) = inState StateRunnable (nodes s) \<and>
     (\<not> unsorted s \<longrightarrow> sorted (runq s)) \<and>
     inFlight s = int (card (inState StateRunning (nodes s))) \<and>
     (\<forall>i n. map_of (nodes s) i = Some n \<longrightarrow>
        redispatches n \<le> maxRedispatches \<and> (nstate n = StateParked \<longrightarrow> assessment n \<noteq> None))"

lemma inState_Nil [simp]: "inState q [] = {}"
  by (simp add: inState_def)

lemma inState_gput:
  "gok m \<Longrightarrow> inState q (gput i n m) =
     (if nstate n = q then insert i (inState q m) else inState q m - {i})"
  by (auto simp: inState_def map_of_gput)

lemma finite_inState [simp]: "finite (inState q m)"
  by (rule finite_subset[of _ "fst ` set m"]) (auto simp: inState_def dest: map_of_SomeD intro: rev_image_eqI)

lemma inStateI: "map_of m i = Some n \<Longrightarrow> i \<in> inState (nstate n) m"
  by (simp add: inState_def)

lemma inState_disjoint: "i \<in> inState q m \<Longrightarrow> i \<in> inState q' m \<Longrightarrow> q = q'"
  by (auto simp: inState_def)

lemma sched_ok_new: "sched_ok newScheduler"
  by (simp add: sched_ok_def newScheduler_def)

lemma sched_ok_gok: "sched_ok s \<Longrightarrow> gok (nodes s)"
  by (simp add: sched_ok_def)

lemma sched_ok_frame [simp]:
  "sched_ok (s\<lparr>published := b\<rparr>) = sched_ok s" "sched_ok (s\<lparr>stopped := b\<rparr>) = sched_ok s"
  "sched_ok (s\<lparr>err := e\<rparr>) = sched_ok s"
  by (simp_all add: sched_ok_def)

lemma sched_ok_admit [inv_intros]: "sched_ok s \<Longrightarrow> map_of (nodes s) i = None \<Longrightarrow> sched_ok (admit i s)"
  by (auto simp: sched_ok_def admit_def newNode_def gok_gput inState_gput map_of_gput)
    (auto simp: inState_def)

lemma inState_admit:
  "gok (nodes s) \<Longrightarrow> map_of (nodes s) i = None \<Longrightarrow> q \<noteq> StateRunnable \<Longrightarrow>
     inState q (nodes (admit i s)) = inState q (nodes s)"
  by (auto simp: admit_def newNode_def inState_gput) (auto simp: inState_def)

lemma sched_ok_seed [inv_intros]: "sched_ok s \<Longrightarrow> sched_ok (seed ids s)"
  by (induction ids s rule: seed.induct) (auto simp: sched_ok_admit)

lemma inState_seed:
  "gok (nodes s) \<Longrightarrow> q \<noteq> StateRunnable \<Longrightarrow> inState q (nodes (seed ids s)) = inState q (nodes s)"
proof (induction ids s rule: seed.induct)
  case (2 i ids s)
  have "gok (nodes (admit i s))" using 2(2) by (simp add: admit_def gok_gput)
  with 2 show ?case by (auto simp: inState_admit)
qed simp

lemma sched_ok_onArrival [inv_intros]: "sched_ok s \<Longrightarrow> sched_ok (onArrival i r s)"
  by (auto simp: onArrival_def Let_def intro: sched_ok_admit)

lemma sched_ok_requeueLocked [inv_intros]:
  assumes ok: "sched_ok s" and "i \<notin> inState StateRunning (nodes s)"
  shows "sched_ok (requeueLocked i c s)"
proof (cases "map_of (nodes s) i")
  case (Some n)
  with assms have "nstate n \<noteq> StateRunning" and "redispatches n \<le> maxRedispatches"
    by (auto simp: inState_def sched_ok_def)
  with ok Some assms(2) show ?thesis
    by (auto simp: requeueLocked_def sched_ok_def Let_def gok_gput inState_gput map_of_gput)
      (auto simp: inState_def)
qed (simp add: requeueLocked_def ok)

lemma inState_requeueLocked:
  assumes "gok (nodes s)" "i \<notin> inState StateRunning (nodes s)"
  shows "inState StateRunning (nodes (requeueLocked i c s)) = inState StateRunning (nodes s)"
    and "inState StateParked (nodes (requeueLocked i c s)) \<subseteq> inState StateParked (nodes s)"
  using assms
  by (auto simp: requeueLocked_def Let_def inState_gput split: option.splits)

lemma requeueLocked_frame [simp]:
  "stopped (requeueLocked i c s) = stopped s" "published (requeueLocked i c s) = published s"
  "inFlight (requeueLocked i c s) = inFlight s"
  "err s \<noteq> None \<Longrightarrow> requeueLocked i c s = s"
  by (auto simp: requeueLocked_def Let_def split: option.splits)

text \<open>Completion: the node leaves the running state, whatever the outcome.\<close>

lemma completeLocked_again:
  assumes "completeLocked i current valid unresolved prog s = (s', True)"
  shows "\<exists>n. map_of (nodes s) i = Some n \<and> recheck n \<and> valid \<and> current \<noteq> None \<and>
    s' = s\<lparr>nodes := gput i (n\<lparr>recheck := False\<rparr>) (nodes s)\<rparr>"
  using assms by (auto simp: completeLocked_def Let_def split: option.splits if_splits)

lemma completeLocked_done:
  assumes "completeLocked i current valid unresolved prog s = (s', False)"
    and "map_of (nodes s) i = Some n"
  shows "\<not> (recheck n \<and> valid \<and> current \<noteq> None) \<and>
    s' = (let n' = n\<lparr>recheck := False, assessment := current, progressed := prog,
                 nstate := (if unresolved then StateParked else StateTerminal)\<rparr>;
              t = s\<lparr>nodes := gput i n' (nodes s), inFlight := inFlight s - 1\<rparr>
          in if valid then t else requeueLocked i (\<not> unresolved) t)"
  using assms by (auto simp: completeLocked_def Let_def split: option.splits if_splits)

lemma sched_ok_upd_same:
  assumes "sched_ok s" "map_of (nodes s) i = Some n" "nstate n' = nstate n"
    "redispatches n' = redispatches n" "assessment n' = assessment n"
  shows "sched_ok (s\<lparr>nodes := gput i n' (nodes s)\<rparr>)"
    and "inState q (gput i n' (nodes s)) = inState q (nodes s)"
proof -
  have same: "inState q (gput i n' (nodes s)) = inState q (nodes s)" for q
    using assms(1-3) by (auto simp: sched_ok_def inState_def map_of_gput)
  then show "inState q (gput i n' (nodes s)) = inState q (nodes s)" .
  show "sched_ok (s\<lparr>nodes := gput i n' (nodes s)\<rparr>)"
    using assms by (auto simp: sched_ok_def gok_gput same map_of_gput)
qed

lemma sched_ok_finish:
  assumes "sched_ok s" "map_of (nodes s) i = Some n" "nstate n = StateRunning"
    "redispatches n' = redispatches n"
    "nstate n' = StateTerminal \<or> nstate n' = StateParked \<and> assessment n' \<noteq> None"
  shows "sched_ok (s\<lparr>nodes := gput i n' (nodes s), inFlight := inFlight s - 1\<rparr>)"
proof -
  have run: "i \<in> inState StateRunning (nodes s)" and "i \<notin> inState StateRunnable (nodes s)"
    using assms(2,3) by (auto simp: inState_def)
  moreover from run have "0 < card (inState StateRunning (nodes s))"
    by (auto simp: card_gt_0_iff)
  ultimately show ?thesis
    using assms by (auto simp: sched_ok_def gok_gput inState_gput map_of_gput)
qed

lemma completeLocked_ok:
  assumes "completeLocked i current valid unresolved prog s = (s', False)" "sched_ok s"
    "i \<in> inState StateRunning (nodes s)" "unresolved \<Longrightarrow> current \<noteq> None"
  shows "sched_ok s'"
    and "inState StateRunning (nodes s') = inState StateRunning (nodes s) - {i}"
    and "stopped s' = stopped s" and "err s \<noteq> None \<Longrightarrow> err s' \<noteq> None"
    and "inFlight s' = inFlight s - 1"
proof -
  from assms(3) obtain n where n: "map_of (nodes s) i = Some n" "nstate n = StateRunning"
    by (auto simp: inState_def)
  define n' where "n' = n\<lparr>recheck := False, assessment := current, progressed := prog,
      nstate := (if unresolved then StateParked else StateTerminal)\<rparr>"
  define t where "t = s\<lparr>nodes := gput i n' (nodes s), inFlight := inFlight s - 1\<rparr>"
  have s': "s' = (if valid then t else requeueLocked i (\<not> unresolved) t)"
    using completeLocked_done[OF assms(1) n(1)] by (simp add: Let_def n'_def t_def)
  have t: "sched_ok t"
    unfolding t_def by (rule sched_ok_finish[OF assms(2) n]) (use assms(4) in \<open>auto simp: n'_def\<close>)
  have run: "inState StateRunning (nodes t) = inState StateRunning (nodes s) - {i}"
    using sched_ok_gok[OF assms(2)] by (simp add: t_def inState_gput n'_def)
  show "sched_ok s'" "inState StateRunning (nodes s') = inState StateRunning (nodes s) - {i}"
    using s' t run inState_requeueLocked[OF sched_ok_gok[OF t], of i]
    by (auto intro: sched_ok_requeueLocked)
  show "stopped s' = stopped s" "inFlight s' = inFlight s - 1"
    by (simp_all add: s' t_def)
  show "err s \<noteq> None \<Longrightarrow> err s' \<noteq> None"
    by (simp add: s' t_def)
qed

lemma dispatchNextLocked_Some:
  assumes "dispatchNextLocked s = Some (s', i, a)"
  obtains n rest where "map_of (nodes s) i = Some n" "runq (sortQueue s) = i # rest" "a = assessment n"
    "s' = (sortQueue s)\<lparr>runq := rest, nodes := gput i (n\<lparr>nstate := StateRunning\<rparr>) (nodes s),
        inFlight := inFlight s + 1\<rparr>"
  using assms
  by (auto simp: dispatchNextLocked_def sortQueue_def Let_def split: list.splits option.splits if_splits)

lemma sortQueue_ok:
  "sched_ok s \<Longrightarrow> sched_ok (sortQueue s) \<and> sorted (runq (sortQueue s)) \<and> \<not> unsorted (sortQueue s)"
  by (simp add: sortQueue_def sched_ok_def sortFunc_compareResource)

lemma sortQueue_frame [simp]:
  "nodes (sortQueue s) = nodes s" "inFlight (sortQueue s) = inFlight s" "err (sortQueue s) = err s"
  "stopped (sortQueue s) = stopped s" "set (runq (sortQueue s)) = set (runq s)"
  by (simp_all add: sortQueue_def)

lemma dispatchNextLocked_ok:
  assumes "dispatchNextLocked s = Some (s', i, a)" "sched_ok s"
  shows "sched_ok s'" and "inState StateRunning (nodes s') = insert i (inState StateRunning (nodes s))"
    and "i \<notin> inState StateRunning (nodes s)" and "err s' = err s" and "stopped s' = stopped s"
proof -
  from assms(1) obtain n rest where d: "map_of (nodes s) i = Some n" "runq (sortQueue s) = i # rest"
    "s' = (sortQueue s)\<lparr>runq := rest, nodes := gput i (n\<lparr>nstate := StateRunning\<rparr>) (nodes s),
        inFlight := inFlight s + 1\<rparr>"
    by (rule dispatchNextLocked_Some)
  have ok: "sched_ok (sortQueue s)" and srt: "sorted (i # rest)" and u: "\<not> unsorted (sortQueue s)"
    using sortQueue_ok[OF assms(2)] d(2) by simp_all
  then have i: "i \<in> inState StateRunnable (nodes s)" and dist: "distinct (i # rest)"
    and q: "set (i # rest) = inState StateRunnable (nodes s)"
    using d(2) by (auto simp: sched_ok_def)
  then have nr: "i \<notin> inState StateRunning (nodes s)"
    using inState_disjoint by blast
  then show "i \<notin> inState StateRunning (nodes s)" .
  have g: "gok (nodes s)" using assms(2) by (rule sched_ok_gok)
  show "inState StateRunning (nodes s') = insert i (inState StateRunning (nodes s))"
    using g by (simp add: d(3) inState_gput)
  show "err s' = err s" "stopped s' = stopped s" by (simp_all add: d(3))
  show "sched_ok s'"
    using assms(2) ok nr dist q srt g d(1)
    by (auto simp: sched_ok_def d(3) inState_gput gok_gput map_of_gput)
qed

lemma settleLocked_ok:
  assumes "settleLocked i s = Some (s', a)" "sched_ok s" "i \<in> inState StateParked (nodes s)"
  shows "sched_ok s'" and "inState StateRunning (nodes s') = insert i (inState StateRunning (nodes s))"
    and "inState StateParked (nodes s') = inState StateParked (nodes s) - {i}"
    and "err s' = err s" and "stopped s' = stopped s"
proof -
  from assms(1) obtain n where n: "map_of (nodes s) i = Some n"
    "s' = s\<lparr>nodes := gput i (n\<lparr>nstate := StateRunning\<rparr>) (nodes s), inFlight := inFlight s + 1\<rparr>"
    by (auto simp: settleLocked_def split: option.splits if_splits)
  have g: "gok (nodes s)" using assms(2) by (rule sched_ok_gok)
  have "i \<notin> inState StateRunning (nodes s)" "i \<notin> inState StateRunnable (nodes s)"
    using assms(3) inState_disjoint by blast+
  then show "sched_ok s'"
    using assms(2) g n(1) by (auto simp: sched_ok_def n(2) inState_gput gok_gput map_of_gput)
  show "inState StateRunning (nodes s') = insert i (inState StateRunning (nodes s))"
    "inState StateParked (nodes s') = inState StateParked (nodes s) - {i}"
    "err s' = err s" "stopped s' = stopped s"
    using g by (simp_all add: n(2) inState_gput)
qed

lemma invalidateRead_ok:
  assumes "invalidateRead i s = (s', a)" "sched_ok s"
  shows "sched_ok s'" and "inState q (nodes s') = inState q (nodes s)"
    and "err s' = err s" and "stopped s' = stopped s" and "inFlight s' = inFlight s"
    and "a \<noteq> None \<Longrightarrow> i \<notin> inState StateRunning (nodes s)"
proof -
  show "sched_ok s'" "inState q (nodes s') = inState q (nodes s)"
    using assms sched_ok_upd_same[OF assms(2)]
    by (auto simp: invalidateRead_def split: option.splits if_splits)
  show "err s' = err s" "stopped s' = stopped s" "inFlight s' = inFlight s"
    "a \<noteq> None \<Longrightarrow> i \<notin> inState StateRunning (nodes s)"
    using assms(1) by (auto simp: invalidateRead_def inState_def split: option.splits if_splits)
qed

lemma invalidateRequeue_eq:
  "\<exists>c. invalidateRequeue i s = requeueLocked i c s"
  by (auto simp: invalidateRequeue_def requeueLocked_def split: option.splits)

lemma set_parkedLocked: "gok (nodes s) \<Longrightarrow> set (parkedLocked s) = inState StateParked (nodes s)"
  by (force simp: parkedLocked_def inState_def dest: gok_distinct)

lemma distinct_parkedLocked: "gok (nodes s) \<Longrightarrow> distinct (parkedLocked s)"
  using gok_distinct[of "nodes s"] by (simp add: parkedLocked_def distinct_map_filter)

lemma notifyCancellation_simps [simp]:
  "nodes (notifyCancellation s) = nodes s" "runq (notifyCancellation s) = runq s"
  "inFlight (notifyCancellation s) = inFlight s" "stopped (notifyCancellation s) = stopped s"
  "sched_ok (notifyCancellation s) = sched_ok s"
  "err (notifyCancellation s) = Some (case err s of None \<Rightarrow> ContextDone | Some e \<Rightarrow> e)"
  by (auto simp: notifyCancellation_def)

section \<open>Invariant of the running system\<close>

fun worker_ok :: "'a worker \<Rightarrow> bool" where
  "worker_ok (Body _ _) = True"
| "worker_ok (Completing current valid unresolved prog) = (unresolved \<longrightarrow> current \<noteq> None)"
| "worker_ok (Rechecking current unresolved prog) = (current \<noteq> None)"

fun main_ok :: "'a mainPC \<Rightarrow> 'a scheduler \<Rightarrow> bool" where
  "main_ok (MSweep q) s = (q \<longrightarrow> inFlight s = 0)"
| "main_ok (MInvalidate q e is) s = (q \<longrightarrow> inFlight s = 0)"
| "main_ok (MCheck q e i is) s = ((q \<longrightarrow> inFlight s = 0) \<and> i \<notin> inState StateRunning (nodes s))"
| "main_ok (MSettle ps) s = (distinct ps \<and> set ps \<subseteq> inState StateParked (nodes s))"
| "main_ok MDrain s = (stopped s \<and> (err s = None \<longrightarrow> (\<forall>i n. map_of (nodes s) i = Some n \<longrightarrow> nstate n = StateTerminal)))"
| "main_ok MDone s = (stopped s \<and> (err s = None \<longrightarrow> (\<forall>i n. map_of (nodes s) i = Some n \<longrightarrow> nstate n = StateTerminal)))"
| "main_ok _ s = True"

definition system_ok :: "'a system \<Rightarrow> bool" where
  "system_ok y \<longleftrightarrow>
     sched_ok (sch y) \<and> gok (workers y) \<and>
     dom (map_of (workers y)) \<subseteq> inState StateRunning (nodes (sch y)) \<and>
     (\<not> ctxDone y \<and> \<not> runCancelled y \<longrightarrow>
        inState StateRunning (nodes (sch y)) \<subseteq> dom (map_of (workers y))) \<and>
     (\<forall>i w. map_of (workers y) i = Some w \<longrightarrow> worker_ok w) \<and>
     main_ok (main y) (sch y) \<and>
     (runCancelled y \<longleftrightarrow> main y \<in> {MDrain, MDone}) \<and>
     (notified y \<longrightarrow> err (sch y) \<noteq> None) \<and>
     (main y = MDone \<longrightarrow> workers y = [])"

lemma onArrival_frame:
  assumes "gok (nodes s)"
  shows "inState StateRunning (nodes (onArrival i r s)) = inState StateRunning (nodes s)"
    and "inState StateParked (nodes (onArrival i r s)) = inState StateParked (nodes s)"
    and "inFlight (onArrival i r s) = inFlight s" and "err (onArrival i r s) = err s"
    and "stopped (onArrival i r s) = stopped s"
    and "stopped s \<Longrightarrow> nodes (onArrival i r s) = nodes s"
  using inState_admit[of "s\<lparr>published := True\<rparr>" i] assms
  by (auto simp: onArrival_def Let_def admit_def)

lemma main_ok_frame:
  assumes "main_ok pc s" "inFlight s' = inFlight s"
    "inState StateRunning (nodes s') = inState StateRunning (nodes s)"
    "inState StateParked (nodes s) \<subseteq> inState StateParked (nodes s')"
    "stopped s' = stopped s" "pc \<in> {MDrain, MDone} \<Longrightarrow> nodes s' = nodes s"
    "err s \<noteq> None \<Longrightarrow> err s' \<noteq> None"
  shows "main_ok pc s'"
  using assms by (cases pc) auto

lemma worker_running:
  "system_ok y \<Longrightarrow> map_of (workers y) i = Some w \<Longrightarrow> i \<in> inState StateRunning (nodes (sch y))"
  by (auto simp: system_ok_def)

lemma inFlight_running:
  "sched_ok s \<Longrightarrow> i \<in> inState StateRunning (nodes s) \<Longrightarrow> inFlight s > 0"
  by (auto simp: sched_ok_def card_gt_0_iff)

text \<open>While a worker is in flight, the main goroutine neither believes in quiescence nor has stopped cleanly.\<close>

lemma main_ok_worker:
  assumes "system_ok y" "i \<in> inState StateRunning (nodes (sch y))"
  shows "main y \<in> {MDrain, MDone} \<Longrightarrow> err (sch y) \<noteq> None"
    and "main y = MSweep q \<Longrightarrow> \<not> q" and "main y = MInvalidate q e is \<Longrightarrow> \<not> q"
    and "main y = MCheck q e j is \<Longrightarrow> \<not> q"
  using assms inFlight_running[of "sch y" i]
  by (auto simp: system_ok_def inState_def)

lemma system_ok_retired [simp]: "system_ok (y\<lparr>retired := r\<rparr>) = system_ok y"
  by (simp add: system_ok_def)

lemma system_ok_workers:
  assumes "system_ok y" "map_of (workers y) i = Some w" "worker_ok w'"
  shows "system_ok (y\<lparr>workers := gput i w' (workers y)\<rparr>)"
  using assms by (auto simp: system_ok_def gok_gput map_of_gput split: if_splits)

lemma system_ok_again:
  assumes ok: "system_ok y" and w: "map_of (workers y) i = Some (Completing current valid unresolved prog)"
    and c: "completeLocked i current valid unresolved prog (sch y) = (s, True)"
  shows "system_ok (y\<lparr>sch := s, workers := gput i (Rechecking current unresolved prog) (workers y)\<rparr>)"
proof -
  from completeLocked_again[OF c] obtain n where n: "map_of (nodes (sch y)) i = Some n" "current \<noteq> None"
    and s: "s = (sch y)\<lparr>nodes := gput i (n\<lparr>recheck := False\<rparr>) (nodes (sch y))\<rparr>" by blast
  have sok: "sched_ok (sch y)" using ok by (simp add: system_ok_def)
  note same = sched_ok_upd_same[OF sok n(1), of "n\<lparr>recheck := False\<rparr>"]
  have run: "i \<in> inState StateRunning (nodes (sch y))" using ok w by (rule worker_running)
  have "main_ok (main y) s"
    by (cases "main y") (use ok s same(2) main_ok_worker(1)[OF ok run] in \<open>auto simp: system_ok_def\<close>)
  with ok w n(2) s same show ?thesis
    by (auto simp: system_ok_def gok_gput map_of_gput split: if_splits)
qed

lemma system_ok_done:
  assumes ok: "system_ok y" and w: "map_of (workers y) i = Some (Completing current valid unresolved prog)"
    and c: "completeLocked i current valid unresolved prog (sch y) = (s, False)"
  shows "system_ok (y\<lparr>sch := s, workers := gdel i (workers y)\<rparr>)"
proof -
  have run: "i \<in> inState StateRunning (nodes (sch y))" using ok w by (rule worker_running)
  have sok: "sched_ok (sch y)" using ok by (simp add: system_ok_def)
  have "worker_ok (Completing current valid unresolved prog)"
    using ok w unfolding system_ok_def by blast
  then have cur: "unresolved \<Longrightarrow> current \<noteq> None" by simp
  note fin = completeLocked_ok[OF c sok run cur]
  have parked: "inState StateParked (nodes (sch y)) \<subseteq> inState StateParked (nodes s)"
    using run sched_ok_gok[OF sok] c
    by (auto simp: completeLocked_def inState_def requeueLocked_def Let_def gok_gput map_of_gput
        split: option.splits if_splits)
  have "main_ok (main y) s"
  proof (cases "main y")
    case (MSettle ps)
    with ok parked show ?thesis by (auto simp: system_ok_def)
  qed (use ok fin main_ok_worker[OF ok run] in \<open>auto simp: system_ok_def\<close>)
  moreover have "gdel i (workers y) = []" if "workers y = []"
    using that by (simp add: gdel_def)
  ultimately show ?thesis
    using ok fin by (auto simp: system_ok_def gok_gdel map_of_gdel split: if_splits)
qed

lemma system_ok_launch:
  assumes "system_ok y" "sched_ok s" "err s = err (sch y)" "main_ok pc s"
    "inState StateRunning (nodes s) = insert i (inState StateRunning (nodes (sch y)))"
    "main y \<notin> {MDrain, MDone}" "pc \<notin> {MDrain, MDone}"
  shows "system_ok (y\<lparr>sch := s, level := l, workers := gput i (Body r a) (workers y), main := pc\<rparr>)"
proof -
  have "\<forall>j w. map_of (gput i (Body r a) (workers y)) j = Some w \<longrightarrow> worker_ok w"
    using assms(1) by (auto simp: system_ok_def map_of_gput)
  with assms show ?thesis by (auto simp: system_ok_def gok_gput dom_gput)
qed

lemma system_ok_head:
  assumes ok: "system_ok y" and pc: "main y = MLoop" and h: "runHead y = Some z"
  shows "system_ok z"
proof (cases "err (sch y) = None \<and> runq (sch y) \<noteq> []")
  case True
  then obtain s' i a where d: "dispatchNextLocked (sch y) = Some (s', i, a)"
    and z: "z = y\<lparr>sch := s', level := DrainNone, workers := gput i (Body True a) (workers y)\<rparr>"
    using h by (auto simp: runHead_def Let_def)
  have "sched_ok (sch y)" using ok by (simp add: system_ok_def)
  from dispatchNextLocked_ok[OF d this] pc
  have "system_ok (y\<lparr>sch := s', level := DrainNone, workers := gput i (Body True a) (workers y), main := main y\<rparr>)"
    by (intro system_ok_launch[OF ok]) auto
  then show ?thesis by (simp add: z)
next
  case False
  then show ?thesis
    using ok pc h by (auto simp: runHead_def exitLoop_def Let_def split: if_splits)
      (simp_all add: system_ok_def)
qed

lemma all_terminal:
  assumes "sched_ok s" "runq s = []" "inFlight s = 0" "parkedLocked s = []" "map_of (nodes s) i = Some n"
  shows "nstate n = StateTerminal"
proof -
  have "inState q (nodes s) = {}" if "q \<noteq> StateTerminal" for q
    using assms(1-4) that set_parkedLocked[of s]
    by (cases q) (auto simp: sched_ok_def)
  with assms(5) show ?thesis using inStateI by blast
qed

lemma system_ok_boundary:
  assumes ok: "system_ok y" and pc: "main y = MInvalidate q e []"
  shows "system_ok (runBoundary q e y)"
proof -
  have sok: "sched_ok (sch y)" and g: "gok (nodes (sch y))"
    using ok sched_ok_gok by (auto simp: system_ok_def)
  have "\<lbrakk>q; runq (sch y) = []; parkedLocked (sch y) = []\<rbrakk> \<Longrightarrow>
      \<forall>i n. map_of (nodes (sch y)) i = Some n \<longrightarrow> nstate n = StateTerminal"
    using all_terminal[OF sok] ok pc by (auto simp: system_ok_def)
  with ok pc g show ?thesis
    by (auto simp: runBoundary_def exitLoop_def system_ok_def Let_def set_parkedLocked
        distinct_parkedLocked)
qed

lemma system_ok_invalidate:
  assumes ok: "system_ok y" and pc: "main y = MInvalidate q e (i # is)"
    and r: "invalidateRead i (sch y) = (s, a)"
  shows "system_ok (y\<lparr>sch := s, main := (if a = None then MInvalidate q e is else MCheck q e i is)\<rparr>)"
proof -
  have sok: "sched_ok (sch y)" using ok by (simp add: system_ok_def)
  show ?thesis
    using invalidateRead_ok(1,3-6)[OF r sok] invalidateRead_ok(2)[OF r sok, of StateRunning] ok pc
    by (auto simp: system_ok_def)
qed

lemma system_ok_check:
  assumes ok: "system_ok y" and pc: "main y = MCheck q e i is"
  shows "system_ok (y\<lparr>sch := invalidateRequeue i (sch y), main := MInvalidate q e is\<rparr>)"
proof -
  obtain c where c: "invalidateRequeue i (sch y) = requeueLocked i c (sch y)"
    using invalidateRequeue_eq by blast
  have sok: "sched_ok (sch y)" and i: "i \<notin> inState StateRunning (nodes (sch y))"
    using ok pc by (auto simp: system_ok_def)
  show ?thesis
    using ok pc inState_requeueLocked(1)[OF sched_ok_gok[OF sok] i, of c]
      sched_ok_requeueLocked[OF sok i, of c] requeueLocked_frame(4)[of "sch y" i c]
    by (auto simp: c system_ok_def)
qed

lemma system_ok_settle:
  assumes ok: "system_ok y" and pc: "main y = MSettle (p # ps)"
    and r: "settleLocked p (sch y) = Some (s, a)"
  shows "system_ok (y\<lparr>sch := s, workers := gput p (Body False a) (workers y), main := MSettle ps\<rparr>)"
proof -
  have "sched_ok (sch y)" "p \<in> inState StateParked (nodes (sch y))"
    using ok pc by (auto simp: system_ok_def)
  note settled = settleLocked_ok[OF r this]
  have "main_ok (MSettle ps) s"
    using ok pc settled(3) by (auto simp: system_ok_def)
  with settled pc
  have "system_ok (y\<lparr>sch := s, level := level y, workers := gput p (Body False a) (workers y), main := MSettle ps\<rparr>)"
    by (intro system_ok_launch[OF ok]) auto
  then show ?thesis by simp
qed

lemma system_ok_arrive:
  assumes ok: "system_ok y"
  shows "system_ok (y\<lparr>sch := onArrival i r (sch y)\<rparr>)"
proof -
  have sok: "sched_ok (sch y)" using ok by (simp add: system_ok_def)
  note frame = onArrival_frame[OF sched_ok_gok[OF sok], of i r]
  have "main_ok (main y) (onArrival i r (sch y))"
    by (rule main_ok_frame[of _ "sch y"]) (use ok frame in \<open>auto simp: system_ok_def\<close>)
  with ok frame show ?thesis
    by (auto simp: system_ok_def sched_ok_onArrival)
qed

lemma system_ok_notify:
  assumes "system_ok y"
  shows "system_ok (y\<lparr>sch := notifyCancellation (sch y), notified := b\<rparr>)"
proof -
  have "main_ok (main y) (notifyCancellation (sch y))"
    by (rule main_ok_frame[of _ "sch y"]) (use assms in \<open>auto simp: system_ok_def\<close>)
  with assms show ?thesis by (auto simp: system_ok_def)
qed

lemma system_ok_step: "step a y z \<Longrightarrow> system_ok y \<Longrightarrow> system_ok z"
proof (induction rule: step.induct)
  case (publish y)
  have "main_ok (main y) (onPublication (sch y))"
    by (rule main_ok_frame[of _ "sch y"]) (use publish in \<open>auto simp: system_ok_def onPublication_def\<close>)
  with publish show ?case by (auto simp: system_ok_def onPublication_def)
next
  case (drain y)
  have "main_ok MDone (if ctxDone y then notifyCancellation (sch y) else sch y)"
    using drain by (auto simp: system_ok_def)
  with drain show ?case by (auto simp: system_ok_def)
next
  case (invalidate_skip y q e i "is" s)
  then show ?case using system_ok_invalidate by fastforce
next
  case (invalidate_read y q e i "is" s a)
  then show ?case using system_ok_invalidate by fastforce
next
  case (body y i replace previous current result valid unresolved prog)
  then have "current = None \<Longrightarrow> \<not> unresolved" by blast
  then have "worker_ok (Completing current valid unresolved prog)" by (cases current) auto
  with body show ?case by (simp add: system_ok_workers)
next
  case (revalidate y i current unresolved prog valid)
  then have "worker_ok (Rechecking current unresolved prog)" unfolding system_ok_def by blast
  then have "worker_ok (Completing current valid unresolved prog)" by simp
  with revalidate.prems revalidate.hyps show ?case by (rule system_ok_workers)
next
  case (vanish y i replace previous)
  then have "\<forall>j w. map_of (gdel i (workers y)) j = Some w \<longrightarrow> worker_ok w" "workers y \<noteq> []"
    by (auto simp: system_ok_def map_of_gdel)
  with vanish show ?case by (auto simp: system_ok_def gok_gdel dom_gdel)
qed (auto simp: system_ok_arrive system_ok_notify system_ok_head system_ok_boundary system_ok_check
      system_ok_settle system_ok_again system_ok_done, auto simp: system_ok_def)

lemma system_ok_reachable: "reachable seeds y \<Longrightarrow> system_ok y"
proof (induction rule: reachable.induct)
  case init
  then show ?case
    using sched_ok_seed[OF sched_ok_new, of seeds] inState_seed[of newScheduler StateRunning seeds]
    by (auto simp: initial_def system_ok_def newScheduler_def)
qed (auto intro: system_ok_step)

section \<open>Properties\<close>

lemma worker_progress:
  assumes ok: "system_ok y" and w: "map_of (workers y) i = Some w"
  shows "\<exists>z. step (Worker i) y z"
proof (cases w)
  case (Body replace previous)
  show ?thesis
    using step.body[of y i replace previous "if replace then None else previous" None True False True] w Body
    by (cases replace) auto
next
  case (Completing current valid unresolved prog)
  obtain s b where c: "completeLocked i current valid unresolved prog (sch y) = (s, b)" by force
  show ?thesis
    using step.complete_again[of y i current valid unresolved prog s]
      step.complete_done[of y i current valid unresolved prog s] w c Completing
    by (cases b) auto
next
  case (Rechecking current unresolved prog)
  then show ?thesis using step.revalidate[of y i current unresolved prog True] w by auto
qed

lemma dispatchNextLocked_total:
  assumes "sched_ok s" "runq s \<noteq> []"
  shows "\<exists>s' i a. dispatchNextLocked s = Some (s', i, a) \<and> i = Min (set (runq s)) \<and>
    (\<exists>n. map_of (nodes s) i = Some n \<and> nstate n = StateRunnable \<and> a = assessment n)"
proof -
  from assms sortQueue_frame(5)[of s] obtain i rest where q: "runq (sortQueue s) = i # rest"
    by (cases "runq (sortQueue s)") auto
  then have i: "i \<in> set (runq s)" using sortQueue_frame(5)[of s] by auto
  with assms(1) obtain n where n: "map_of (nodes s) i = Some n" "nstate n = StateRunnable"
    by (auto simp: sched_ok_def inState_def)
  have "i = Min (set (runq s))"
    using sortQueue_ok[OF assms(1)] q i sortQueue_frame(5)[of s]
    by (intro Min_eqI[symmetric]) auto
  with q n show ?thesis by (auto simp: dispatchNextLocked_def Let_def)
qed

text \<open>
  C2. In every reachable state, whatever the interleaving and whatever the dispatcher answers: the
  run queue lists exactly the runnable nodes, each once; \<^verbatim>\<open>inFlight\<close> is the number of running nodes;
  every task in flight works on a running node, so no node is executed twice at a time; no node has
  been charged more than \<^verbatim>\<open>maxRedispatches\<close> redispatches; and every parked node has an assessment for
  \<^verbatim>\<open>settleLocked\<close> to call.
\<close>

theorem scheduler_invariant:
  assumes "reachable seeds y"
  shows "distinct (runq (sch y)) \<and> set (runq (sch y)) = inState StateRunnable (nodes (sch y)) \<and>
    inFlight (sch y) = int (card (inState StateRunning (nodes (sch y)))) \<and>
    dom (map_of (workers y)) \<subseteq> inState StateRunning (nodes (sch y)) \<and>
    (\<forall>i n. map_of (nodes (sch y)) i = Some n \<longrightarrow>
       redispatches n \<le> 32 \<and> (nstate n = StateParked \<longrightarrow> assessment n \<noteq> None))"
  using system_ok_reachable[OF assms] by (simp add: system_ok_def sched_ok_def maxRedispatches_def)

text \<open>
  C1. When \<^verbatim>\<open>Run\<close> has returned without an error, reconciliation reached its fixpoint: every admitted
  node is terminal, nothing is queued, in flight or parked.
\<close>

theorem run_reaches_fixpoint:
  assumes "reachable seeds y" and "main y = MDone" and "err (sch y) = None"
  shows "(\<forall>i n. map_of (nodes (sch y)) i = Some n \<longrightarrow> nstate n = StateTerminal) \<and>
    runq (sch y) = [] \<and> inFlight (sch y) = 0 \<and> workers y = []"
proof -
  have ok: "system_ok y" using assms(1) by (rule system_ok_reachable)
  then have t: "\<forall>i n. map_of (nodes (sch y)) i = Some n \<longrightarrow> nstate n = StateTerminal"
    and w: "workers y = []"
    using assms(2,3) by (auto simp: system_ok_def)
  then have "inState StateRunnable (nodes (sch y)) = {}" "inState StateRunning (nodes (sch y)) = {}"
    by (auto simp: inState_def)
  with t w ok show ?thesis by (simp add: system_ok_def sched_ok_def)
qed


text \<open>
  Admission is deterministic: whenever something is queued, \<^verbatim>\<open>dispatchNextLocked\<close> launches the least
  runnable identity in the order of \<^verbatim>\<open>NamedResource.Compare\<close>, with that node's retained assessment,
  and leaves it running.
\<close>

theorem dispatch_order:
  assumes "reachable seeds y" and "runq (sch y) \<noteq> []"
  shows "\<exists>s i a n. dispatchNextLocked (sch y) = Some (s, i, a) \<and>
    i = Min (inState StateRunnable (nodes (sch y))) \<and> map_of (nodes (sch y)) i = Some n \<and>
    a = assessment n \<and> map_of (nodes s) i = Some (n\<lparr>nstate := StateRunning\<rparr>) \<and>
    set (runq s) = inState StateRunnable (nodes (sch y)) - {i}"
proof -
  have ok: "sched_ok (sch y)" using system_ok_reachable[OF assms(1)] by (simp add: system_ok_def)
  from dispatchNextLocked_total[OF ok assms(2)] obtain s i a n where d:
    "dispatchNextLocked (sch y) = Some (s, i, a)" "i = Min (set (runq (sch y)))"
    "map_of (nodes (sch y)) i = Some n" "a = assessment n" by blast
  from d(1) have s: "map_of (nodes s) i = Some (n\<lparr>nstate := StateRunning\<rparr>)"
    by (rule dispatchNextLocked_Some) (use d(3) sched_ok_gok[OF ok] in \<open>auto simp: map_of_gput\<close>)
  have "set (runq s) = set (runq (sch y)) - {i}"
    using d(1) sortQueue_ok[OF ok] sortQueue_frame(5)[of "sch y"]
    by (elim dispatchNextLocked_Some) (auto simp: sched_ok_def)
  then have "set (runq s) = inState StateRunnable (nodes (sch y)) - {i}"
    using ok by (simp add: sched_ok_def)
  moreover have "i = Min (inState StateRunnable (nodes (sch y)))"
    using d(2) ok by (simp add: sched_ok_def)
  ultimately show ?thesis using d(1,3,4) s by blast
qed

text \<open>
  No invalidation is lost: a task that finishes while its node is flagged for a recheck is not
  accepted before \<^verbatim>\<open>Valid\<close> has been asked again, and a task that finishes with stale inputs is either
  queued again or fails the run for exceeding the redispatch limit; only a valid result leaves its
  node terminal or parked.
\<close>

theorem stale_completion_requeues:
  assumes "map_of (nodes s) i = Some n" and "nstate n = StateRunning" and "err s = None"
    and "gok (nodes s)"
    and "completeLocked i current valid unresolved prog s = (s', False)"
  shows "(recheck n \<and> current \<noteq> None \<longrightarrow> \<not> valid) \<and>
    (\<not> valid \<longrightarrow> i \<in> set (runq s') \<and> i \<in> inState StateRunnable (nodes s') \<or>
       err s' = Some (RedispatchesExceeded i) \<and> redispatches n \<ge> 32 \<and> prog \<and> \<not> unresolved) \<and>
    (valid \<longrightarrow> i \<in> inState (if unresolved then StateParked else StateTerminal) (nodes s') \<and>
       runq s' = runq s \<and> err s' = None)"
  using assms completeLocked_done[OF assms(5,1)]
  by (auto simp: Let_def requeueLocked_def map_of_gput gok_gput inState_def maxRedispatches_def
      split: if_splits)

text \<open>
  \<^verbatim>\<open>Results\<close> projects exactly the accepted assessments: those of terminal nodes that are still valid.
\<close>

theorem results_iff:
  assumes "reachable seeds y"
  shows "map_of (results valid (sch y)) i = Some a \<longleftrightarrow>
    (\<exists>n. map_of (nodes (sch y)) i = Some n \<and> nstate n = StateTerminal \<and> assessment n = Some a \<and> valid a)"
proof -
  have "gok (nodes (sch y))"
    using system_ok_reachable[OF assms] sched_ok_gok by (auto simp: system_ok_def)
  then have dist: "distinct (map fst (nodes (sch y)))" by (rule gok_distinct)
  have *: "distinct (map fst m) \<Longrightarrow> map_of (List.map_filter (\<lambda>(i, n). case assessment n of
       None \<Rightarrow> None
     | Some a \<Rightarrow> if nstate n = StateTerminal \<and> valid a then Some (i, a) else None) m) i = Some a \<longleftrightarrow>
    (\<exists>n. map_of m i = Some n \<and> nstate n = StateTerminal \<and> assessment n = Some a \<and> valid a)" for m
  proof (induction m)
    case (Cons kn m)
    obtain k n where kn: "kn = (k, n)" by force
    have "i = k \<Longrightarrow> map_of m i = None" using Cons.prems kn by (auto simp: map_of_eq_None_iff)
    with Cons kn show ?case by (auto simp: map_filter_simps split: option.splits)
  qed (simp add: map_filter_simps)
  show ?thesis unfolding results_def by (rule *[OF dist])
qed

section \<open>A complete run\<close>

text \<open>
  One seeded node, dispatched, completed with a valid result, a quiescent sweep without changes and
  the return of \<^verbatim>\<open>Run\<close>: the states the witnesses use.
\<close>

definition demoNode :: NodeID where
  "demoNode = NamedResource ''kustomize.toolkit.fluxcd.io'' ''Kustomization'' ''flux-system'' ''apps''"

definition demoState :: "nodeState \<Rightarrow> nat option \<Rightarrow> nat scheduler" where
  "demoState q a = \<lparr>nodes = [(demoNode, \<lparr>nstate = q, assessment = a, redispatches = 0,
       progressed = (a \<noteq> None), recheck = False\<rparr>)],
     runq = (if q = StateRunnable then [demoNode] else []), unsorted = (q = StateRunnable),
     inFlight = (if q = StateRunning then 1 else 0), err = None, stopped = False, published = False\<rparr>"

definition demoSystem :: "nat scheduler \<Rightarrow> (NodeID, nat worker) gomap \<Rightarrow> nat mainPC \<Rightarrow> bool \<Rightarrow> nat list \<Rightarrow> nat system" where
  "demoSystem s ws pc rc cl = \<lparr>sch = s, workers = ws, main = pc, level = DrainNone,
     ctxDone = False, notified = False, runCancelled = rc, retired = [], closed = cl\<rparr>"

lemmas demo_defs = demoState_def demoSystem_def

lemma demo_looping: "reachable [demoNode] (demoSystem (demoState StateRunnable None) [] MLoop False [])"
proof -
  have "step Main (initial [demoNode]) (demoSystem (demoState StateRunnable None) [] MLoop False [])"
    using step.start[of "initial [demoNode] :: nat system"]
    by (simp add: initial_def newScheduler_def admit_def newNode_def demo_defs)
  then show ?thesis by (rule reachable.more[OF reachable.init])
qed

lemma demo_running:
  "reachable [demoNode] (demoSystem (demoState StateRunning None) [(demoNode, Body True None)] MLoop False [])"
  by (rule reachable.more[OF demo_looping], rule step.head)
    (simp_all add: demo_defs runHead_def dispatchNextLocked_def sortQueue_def)

lemma demo_completing:
  "reachable [demoNode] (demoSystem (demoState StateRunning None)
     [(demoNode, Completing (Some 7) True False True)] MLoop False [])"
proof -
  have "step (Worker demoNode)
      (demoSystem (demoState StateRunning None) [(demoNode, Body True None)] MLoop False [])
      (demoSystem (demoState StateRunning None) [(demoNode, Completing (Some 7) True False True)] MLoop False [])"
    using step.body[of "demoSystem (demoState StateRunning None) [(demoNode, Body True None)] MLoop False []"
        demoNode True None "Some 7" "Some 7" True False True]
    by (simp add: demo_defs)
  then show ?thesis by (rule reachable.more[OF demo_running])
qed

lemma demo_terminal: "reachable [demoNode] (demoSystem (demoState StateTerminal (Some 7)) [] MLoop False [])"
proof -
  have "step (Worker demoNode)
      (demoSystem (demoState StateRunning None) [(demoNode, Completing (Some 7) True False True)] MLoop False [])
      (demoSystem (demoState StateTerminal (Some 7)) [] MLoop False [])"
    using step.complete_done[of "demoSystem (demoState StateRunning None)
        [(demoNode, Completing (Some 7) True False True)] MLoop False []"
        demoNode "Some 7" True False True "demoState StateTerminal (Some 7)"]
    by (simp add: demo_defs completeLocked_def gdel_def)
  then show ?thesis by (rule reachable.more[OF demo_completing])
qed

lemma demo_swept:
  "reachable [demoNode] (demoSystem (demoState StateTerminal (Some 7)) [] (MInvalidate True True []) False [])"
proof -
  have "step Main (demoSystem (demoState StateTerminal (Some 7)) [] MLoop False [])
      (demoSystem (demoState StateTerminal (Some 7)) [] (MSweep True) False [])"
    by (rule step.head) (simp_all add: demo_defs runHead_def)
  moreover have "step Main (demoSystem (demoState StateTerminal (Some 7)) [] (MSweep True) False [])
      (demoSystem (demoState StateTerminal (Some 7)) [] (MInvalidate True True []) False [])"
    using step.sweep[of "demoSystem (demoState StateTerminal (Some 7)) [] (MSweep True) False []" True "[]"]
    by (simp add: demo_defs)
  ultimately show ?thesis using demo_terminal reachable.more by blast
qed

lemma demo_done:
  "reachable [demoNode] (demoSystem ((demoState StateTerminal (Some 7))\<lparr>stopped := True\<rparr>) [] MDone True [7])"
proof -
  have "step Main (demoSystem (demoState StateTerminal (Some 7)) [] (MInvalidate True True []) False [])
      (demoSystem ((demoState StateTerminal (Some 7))\<lparr>stopped := True\<rparr>) [] MDrain True [])"
    using step.boundary[of "demoSystem (demoState StateTerminal (Some 7)) [] (MInvalidate True True []) False []" True True]
    by (simp add: demo_defs runBoundary_def parkedLocked_def exitLoop_def)
  moreover have "step Main (demoSystem ((demoState StateTerminal (Some 7))\<lparr>stopped := True\<rparr>) [] MDrain True [])
      (demoSystem ((demoState StateTerminal (Some 7))\<lparr>stopped := True\<rparr>) [] MDone True [7])"
    using step.drain[of "demoSystem ((demoState StateTerminal (Some 7))\<lparr>stopped := True\<rparr>) [] MDrain True []"]
    by (simp add: demo_defs List.map_filter_simps)
  ultimately show ?thesis using demo_swept reachable.more by blast
qed

theorem scheduler_invariant_witness:
  "inFlight (demoState StateRunning None) = int (card (inState StateRunning (nodes (demoState StateRunning None))))"
  using scheduler_invariant[OF demo_running] by (simp add: demoSystem_def)

theorem run_reaches_fixpoint_witness:
  "inState StateTerminal (nodes (demoState StateTerminal (Some 7))) = {demoNode} \<and>
   runq (demoState StateTerminal (Some 7)) = [] \<and> inFlight (demoState StateTerminal (Some 7)) = 0"
  using run_reaches_fixpoint[OF demo_done] by (auto simp: demo_defs inState_def)


theorem dispatch_order_witness:
  "\<exists>s i a n. dispatchNextLocked (demoState StateRunnable None) = Some (s, i, a) \<and>
    i = Min (inState StateRunnable (nodes (demoState StateRunnable None))) \<and>
    map_of (nodes (demoState StateRunnable None)) i = Some n \<and>
    a = assessment n \<and> map_of (nodes s) i = Some (n\<lparr>nstate := StateRunning\<rparr>) \<and>
    set (runq s) = inState StateRunnable (nodes (demoState StateRunnable None)) - {i}"
  using dispatch_order[OF demo_looping] by (simp add: demo_defs)

theorem stale_completion_requeues_witness:
  "demoNode \<in> set (runq (fst (completeLocked demoNode (Some 7) False False True (demoState StateRunning None))))"
  using stale_completion_requeues[of "demoState StateRunning None" demoNode _ "Some 7" False False True
      "fst (completeLocked demoNode (Some 7) False False True (demoState StateRunning None))"]
  by (simp add: demoState_def completeLocked_def gok_Cons requeueLocked_def maxRedispatches_def)

theorem results_iff_witness:
  "map_of (results (\<lambda>a. a = 7) (demoState StateTerminal (Some 7))) demoNode = Some 7"
  using results_iff[OF demo_terminal, of "\<lambda>a. a = 7" demoNode 7] by (simp add: demo_defs)

end
