(* ===== verification/DepGraph.thy ===== *)
theory DepGraph
  imports Identity
begin

text \<open>
  The incremental dependency graph of \<^verbatim>\<open>pkg/orchestrator/depgraph.go\<close>.

  \<open>outEdges\<close> maps a node to its set of dependencies, a strictly sorted list (the key list of the
  Go map \<^verbatim>\<open>map[NamedResource]struct{}\<close>); \<open>failed\<close> maps a node to the cycle captured for it, \<open>None\<close>
  being the nil pointer that \<open>markCycleMembersLocked\<close> stores before revalidation. The operations
  keep the names of the source; the loops over queues, stacks and map entries are recursions with
  a termination proof. The mutex makes each exported operation atomic.
\<close>

section \<open>State\<close>

type_synonym cyclePath = "NamedResource list"

record dependencyGraph =
  outEdges :: "(NamedResource, NamedResource list) gomap"
  failed :: "(NamedResource, cyclePath option) gomap"

definition newDependencyGraph :: dependencyGraph where
  "newDependencyGraph = \<lparr>outEdges = [], failed = []\<rparr>"

text \<open>A missing key reads as the nil map, which has no entries.\<close>

definition out :: "dependencyGraph \<Rightarrow> NamedResource \<Rightarrow> NamedResource list" where
  "out g n = (case map_of (outEdges g) n of None \<Rightarrow> [] | Some es \<Rightarrow> es)"

abbreviation edges :: "dependencyGraph \<Rightarrow> (NamedResource \<times> NamedResource) set" where
  "edges g \<equiv> {(u, v). v \<in> set (out g u)}"

definition edgeSetEqual :: "NamedResource list \<Rightarrow> NamedResource list \<Rightarrow> bool" where
  "edgeSetEqual oldSet deps \<longleftrightarrow>
     list_all (\<lambda>d. d \<in> set oldSet) deps \<and> list_all (\<lambda>k. k \<in> set deps) oldSet"

definition sortedNeighbors :: "NamedResource list \<Rightarrow> NamedResource list" where
  "sortedNeighbors es = sortFunc compareResource es"

lemma out_key: "out g n \<noteq> [] \<Longrightarrow> n \<in> set (map fst (outEdges g))"
  by (auto simp: out_def split: option.splits dest!: map_of_SomeD intro: rev_image_eqI)

definition unseen :: "dependencyGraph \<Rightarrow> NamedResource list \<Rightarrow> nat" where
  "unseen g seen = card (set (map fst (outEdges g)) - set seen)"

lemma unseen_Cons:
  "out g d \<noteq> [] \<Longrightarrow> d \<notin> set seen \<Longrightarrow> Suc (unseen g (d # seen)) = unseen g seen"
  using out_key[of g d] unfolding unseen_def
  by (metis (no_types, lifting) DiffI Diff_insert List.finite_set card_Suc_Diff1 finite_Diff list.simps(15))

lemma unseen_le: "unseen g (d # seen) \<le> unseen g seen"
  unfolding unseen_def by (rule card_mono) auto

section \<open>Does an update close a cycle\<close>

text \<open>The inner loop over one queue entry: \<open>None\<close> is the early return of true.\<close>

fun closesScan ::
  "dependencyGraph \<Rightarrow> NamedResource \<Rightarrow> NamedResource list \<Rightarrow> NamedResource list \<Rightarrow> NamedResource list
     \<Rightarrow> (NamedResource list \<times> NamedResource list) option" where
  "closesScan g n [] seen queue = Some (seen, queue)"
| "closesScan g n (dst # ds) seen queue =
     (if dst = n then None
      else if dst \<notin> set seen \<and> out g dst \<noteq> []
      then closesScan g n ds (dst # seen) (queue @ [dst])
      else closesScan g n ds seen queue)"

lemma closesScan_measure:
  "closesScan g n ds seen queue = Some (seen', queue') \<Longrightarrow>
     unseen g seen' + length queue' = unseen g seen + length queue"
proof (induction g n ds seen queue rule: closesScan.induct)
  case (2 g n dst ds seen queue)
  then show ?case using unseen_Cons[of g dst seen] by (auto split: if_splits)
qed simp

function closesLoop ::
  "dependencyGraph \<Rightarrow> NamedResource \<Rightarrow> NamedResource list \<Rightarrow> NamedResource list \<Rightarrow> bool" where
  "closesLoop g n seen [] = False"
| "closesLoop g n seen (q # queue) =
     (case closesScan g n (out g q) seen queue of
        None \<Rightarrow> True
      | Some (seen', queue') \<Rightarrow> closesLoop g n seen' queue')"
  by pat_completeness auto
termination
  by (relation "measure (\<lambda>(g, n, seen, queue). unseen g seen + length queue)")
    (auto dest!: closesScan_measure)

definition closesCycleLocked ::
  "dependencyGraph \<Rightarrow> NamedResource \<Rightarrow> NamedResource list \<Rightarrow> bool" where
  "closesCycleLocked g n oldSet =
     (let cands = filter (\<lambda>dst. \<not> (dst \<in> set oldSet \<or> out g dst = [])) (out g n)
      in if n \<in> set cands then True else closesLoop g n (rev cands) cands)"

section \<open>Members of the cycles through a node\<close>

fun markScan ::
  "dependencyGraph \<Rightarrow> NamedResource \<Rightarrow> NamedResource list \<Rightarrow> (NamedResource, NamedResource list) gomap
     \<Rightarrow> NamedResource list \<Rightarrow> NamedResource list
     \<Rightarrow> (NamedResource, NamedResource list) gomap \<times> NamedResource list \<times> NamedResource list" where
  "markScan g src [] incoming reach queue = (incoming, reach, queue)"
| "markScan g src (dst # ds) incoming reach queue =
     (if out g dst = [] then markScan g src ds incoming reach queue
      else
        let srcs = (case map_of incoming dst of None \<Rightarrow> [] | Some ss \<Rightarrow> ss);
            incoming = gput dst (srcs @ [src]) incoming
        in if dst \<notin> set reach then markScan g src ds incoming (dst # reach) (queue @ [dst])
           else markScan g src ds incoming reach queue)"

lemma markScan_measure:
  "markScan g src ds incoming reach queue = (incoming', reach', queue') \<Longrightarrow>
     unseen g reach' + length queue' = unseen g reach + length queue"
proof (induction g src ds incoming reach queue rule: markScan.induct)
  case (2 g src dst ds incoming reach queue)
  then show ?case using unseen_Cons[of g dst reach] by (auto simp: Let_def split: if_splits)
qed simp

function markForward ::
  "dependencyGraph \<Rightarrow> (NamedResource, NamedResource list) gomap \<Rightarrow> NamedResource list
     \<Rightarrow> NamedResource list \<Rightarrow> (NamedResource, NamedResource list) gomap" where
  "markForward g incoming reach [] = incoming"
| "markForward g incoming reach (src # queue) =
     (case markScan g src (out g src) incoming reach queue of
        (incoming', reach', queue') \<Rightarrow> markForward g incoming' reach' queue')"
  by pat_completeness auto
termination
  by (relation "measure (\<lambda>(g, incoming, reach, queue). unseen g reach + length queue)")
    (auto dest!: markScan_measure split: prod.splits)

definition pending :: "(NamedResource, NamedResource list) gomap \<Rightarrow> nat" where
  "pending incoming = sum_list (map (\<lambda>(k, srcs). length srcs) incoming)"

definition srcsOf :: "(NamedResource, NamedResource list) gomap \<Rightarrow> NamedResource \<Rightarrow> NamedResource list" where
  "srcsOf incoming n = (case map_of incoming n of None \<Rightarrow> [] | Some ss \<Rightarrow> ss)"

lemma pending_gdel: "pending (gdel n incoming) + length (srcsOf incoming n) \<le> pending incoming"
proof (induction incoming)
  case (Cons kv m)
  obtain k v where kv: "kv = (k, v)" by force
  have "pending (gdel n m) \<le> pending m" using Cons by simp
  with Cons kv show ?case by (auto simp: pending_def gdel_def srcsOf_def)
qed (simp add: pending_def gdel_def srcsOf_def)

function markBackward ::
  "(NamedResource, NamedResource list) gomap \<Rightarrow> NamedResource list
     \<Rightarrow> (NamedResource, cyclePath option) gomap \<Rightarrow> (NamedResource, cyclePath option) gomap" where
  "markBackward incoming [] fl = fl"
| "markBackward incoming (member # queue) fl =
     markBackward (gdel member incoming) (queue @ srcsOf incoming member) (gput member None fl)"
  by pat_completeness auto
termination
  by (relation "measure (\<lambda>(incoming, queue, fl). pending incoming + length queue)")
    (simp, simp, metis pending_gdel le_imp_less_Suc)

definition markCycleMembersLocked :: "NamedResource \<Rightarrow> dependencyGraph \<Rightarrow> dependencyGraph" where
  "markCycleMembersLocked n g =
     g\<lparr>failed := markBackward (markForward g [] [n] [n]) [n] (failed g)\<rparr>"

section \<open>A path between two nodes\<close>

function findPathLoop ::
  "dependencyGraph \<Rightarrow> NamedResource \<Rightarrow> NamedResource \<Rightarrow> NamedResource list
     \<Rightarrow> (NamedResource \<times> NamedResource list) list \<Rightarrow> NamedResource list option" where
  "findPathLoop g start target visited [] = None"
| "findPathLoop g start target visited ((n, []) # stack) = findPathLoop g start target visited stack"
| "findPathLoop g start target visited ((n, next # cs) # stack) =
     (if next = target then Some (rev (map fst ((n, cs) # stack)) @ [target])
      else if next \<in> set visited \<or> next = start
      then findPathLoop g start target visited ((n, cs) # stack)
      else findPathLoop g start target (next # visited)
             ((next, sortedNeighbors (out g next)) # (n, cs) # stack))"
  by pat_completeness auto
termination
proof (relation "measures [\<lambda>(g, s, t, visited, stack). unseen g visited,
    \<lambda>(g, s, t, visited, stack). 2 * sum_list (map (length \<circ> snd) stack) + length stack]", goal_cases)
  case (4 g start target visited n "next" cs stack)
  show ?case
  proof (cases "out g next = []")
    case True
    then have "unseen g (next # visited) \<le> unseen g visited" by (intro unseen_le)
    with True show ?thesis by (auto simp: sortedNeighbors_def)
  next
    case False
    then show ?thesis using 4 unseen_Cons[of g "next" visited] by auto
  qed
qed auto

definition findPathLocked ::
  "dependencyGraph \<Rightarrow> NamedResource \<Rightarrow> NamedResource \<Rightarrow> NamedResource list option" where
  "findPathLocked g start target =
     findPathLoop g start target [] [(start, sortedNeighbors (out g start))]"

section \<open>Revalidation and edge replacement\<close>

fun indexOf :: "'a list \<Rightarrow> 'a \<Rightarrow> nat" where
  "indexOf [] x = 0"
| "indexOf (y # ys) x = (if y = x then 0 else Suc (indexOf ys x))"

text \<open>
  \<^verbatim>\<open>slices.Concat(path[first:len(path)-1], path[:first+1])\<close>, where \<open>first\<close> is the index of the least
  node: the cycle rotated to start and end there.
\<close>

definition minimalRotation :: "NamedResource list \<Rightarrow> cyclePath" where
  "minimalRotation path =
     (let first = indexOf path (Min (set path))
      in drop first (take (length path - 1) path) @ take (first + 1) path)"

fun captureMembers ::
  "cyclePath \<Rightarrow> NamedResource list \<Rightarrow> NamedResource list \<Rightarrow> (NamedResource, cyclePath option) gomap
     \<Rightarrow> NamedResource list \<times> (NamedResource, cyclePath option) gomap" where
  "captureMembers cyc [] checked fl = (checked, fl)"
| "captureMembers cyc (member # path) checked fl =
     (if member \<in> set checked then captureMembers cyc path checked fl
      else captureMembers cyc path (member # checked) (gput member (Some cyc) fl))"

fun revalidateLoop ::
  "dependencyGraph \<Rightarrow> NamedResource list \<Rightarrow> NamedResource list \<Rightarrow> (NamedResource, cyclePath option) gomap
     \<Rightarrow> (NamedResource, cyclePath option) gomap" where
  "revalidateLoop g [] checked fl = fl"
| "revalidateLoop g (n # ns) checked fl =
     (if n \<in> set checked then revalidateLoop g ns checked fl
      else case findPathLocked g n n of
        None \<Rightarrow> revalidateLoop g ns checked (gdel n fl)
      | Some path \<Rightarrow>
          (case captureMembers (minimalRotation path) path checked fl of
             (checked', fl') \<Rightarrow> revalidateLoop g ns checked' fl'))"

definition revalidateFailedLocked :: "dependencyGraph \<Rightarrow> dependencyGraph" where
  "revalidateFailedLocked g =
     g\<lparr>failed := revalidateLoop g (sortFunc compareResource (gkeys (failed g))) [] (failed g)\<rparr>"

definition replaceEdges ::
  "NamedResource \<Rightarrow> NamedResource list \<Rightarrow> dependencyGraph \<Rightarrow> dependencyGraph" where
  "replaceEdges n deps g =
     (let oldSet = out g n
      in if edgeSetEqual oldSet deps then g
         else
           let newSet = sort (remdups deps);
               g = g\<lparr>outEdges := (if newSet = [] then gdel n (outEdges g) else gput n newSet (outEdges g))\<rparr>;
               removed = list_ex (\<lambda>dst. dst \<notin> set newSet) oldSet;
               found = closesCycleLocked g n oldSet;
               g = (if found then markCycleMembersLocked n g else g)
           in if failed g \<noteq> [] \<and> (removed \<or> found) then revalidateFailedLocked g else g)"

definition failures :: "dependencyGraph \<Rightarrow> (NamedResource, cyclePath option) gomap" where
  "failures g = (if failed g = [] then [] else failed g)"

section \<open>Correctness of the searches\<close>

interpretation dg: successor_graph "\<lambda>u. set (out g u)" for g
  by unfold_locales

abbreviation edge :: "dependencyGraph \<Rightarrow> NamedResource \<Rightarrow> NamedResource \<Rightarrow> bool" where
  "edge g u v \<equiv> v \<in> set (out g u)"

text \<open>Nodes without dependencies cannot lie on a path to anything, so skipping them loses nothing.\<close>

lemma live_closure:
  assumes "(x, y) \<in> (edges g)\<^sup>*" and "x \<in> S" and "out g y \<noteq> []"
    and "\<And>u v. u \<in> S \<Longrightarrow> edge g u v \<Longrightarrow> out g v \<noteq> [] \<Longrightarrow> v \<in> S"
  shows "y \<in> S"
proof -
  have "y \<in> S \<union> {v. out g v = []}"
    by (rule dg.closed_reachable[OF assms(1)]) (use assms(2,4) in auto)
  with assms(3) show ?thesis by simp
qed

lemma closesScan_None: "closesScan g n ds seen queue = None \<longleftrightarrow> n \<in> set ds"
  by (induction g n ds seen queue rule: closesScan.induct) auto

lemma closesScan_Some:
  "closesScan g n ds seen queue = Some (seen', queue') \<Longrightarrow>
     n \<notin> set ds \<and> set seen' = set seen \<union> {d \<in> set ds. out g d \<noteq> []} \<and>
     set queue \<subseteq> set queue' \<and> set queue' \<subseteq> set queue \<union> set ds \<and> set seen' - set seen \<subseteq> set queue'"
proof (induction g n ds seen queue rule: closesScan.induct)
  case (2 g n dst ds seen queue)
  have ne: "dst \<noteq> n" using 2(3) by (auto split: if_splits)
  show ?case
  proof (cases "dst \<notin> set seen \<and> out g dst \<noteq> []")
    case True
    with 2(1)[OF ne True] 2(3) ne show ?thesis by auto
  next
    case False
    with 2(2)[OF ne False] 2(3) ne show ?thesis by auto
  qed
qed simp

lemma closesLoop_sound:
  "closesLoop g n seen queue \<Longrightarrow> \<exists>q \<in> set queue. (q, n) \<in> (edges g)\<^sup>+"
proof (induction g n seen queue rule: closesLoop.induct)
  case (2 g n seen q queue)
  show ?case
  proof (cases "closesScan g n (out g q) seen queue")
    case None
    then show ?thesis by (auto simp: closesScan_None)
  next
    case (Some p)
    obtain seen' queue' where p: "p = (seen', queue')" by force
    have "closesLoop g n seen' queue'" using 2(2) Some p by simp
    with 2(1)[OF Some p[symmetric]] obtain q' where q': "q' \<in> set queue'" "(q', n) \<in> (edges g)\<^sup>+" by blast
    have "q' \<in> set queue \<or> edge g q q'"
      using closesScan_Some[OF Some[unfolded p]] q'(1) by blast
    with q'(2) show ?thesis by (auto intro: trancl_into_trancl2)
  qed
qed simp

text \<open>
  \<open>done_set\<close> collects the queue entries already processed: a search that ends without success has
  closed it under the live edges.
\<close>

lemma closesLoop_complete:
  assumes "\<not> closesLoop g n seen queue"
    and "set seen \<subseteq> P \<union> set queue"
    and "\<And>u v. u \<in> P \<Longrightarrow> edge g u v \<Longrightarrow> v \<noteq> n \<and> (out g v \<noteq> [] \<longrightarrow> v \<in> set seen)"
  shows "\<exists>S. P \<union> set queue \<subseteq> S \<and> (\<forall>u \<in> S. \<forall>v \<in> set (out g u). v \<noteq> n \<and> (out g v \<noteq> [] \<longrightarrow> v \<in> S))"
  using assms
proof (induction g n seen queue arbitrary: P rule: closesLoop.induct)
  case (1 g n seen)
  have "set seen \<subseteq> P" using "1.prems"(2) by simp
  then show ?case using "1.prems"(3) by (intro exI[of _ P]) auto
next
  case (2 g n seen q queue)
  obtain seen' queue' where scan: "closesScan g n (out g q) seen queue = Some (seen', queue')"
    using "2.prems"(1) by (cases "closesScan g n (out g q) seen queue") auto
  note facts = closesScan_Some[OF scan]
  have "\<exists>S. insert q P \<union> set queue' \<subseteq> S \<and>
      (\<forall>u \<in> S. \<forall>v \<in> set (out g u). v \<noteq> n \<and> (out g v \<noteq> [] \<longrightarrow> v \<in> S))"
  proof (rule "2.IH"[OF scan refl])
    show "\<not> closesLoop g n seen' queue'" using "2.prems"(1) scan by simp
    have "set seen' \<subseteq> set seen \<union> set queue'" using facts by blast
    then show "set seen' \<subseteq> insert q P \<union> set queue'" using facts "2.prems"(2) by auto
    fix u v assume "u \<in> insert q P" "edge g u v"
    then show "v \<noteq> n \<and> (out g v \<noteq> [] \<longrightarrow> v \<in> set seen')" using facts "2.prems"(3) by blast
  qed
  then obtain S where S: "insert q P \<union> set queue' \<subseteq> S"
      "\<forall>u \<in> S. \<forall>v \<in> set (out g u). v \<noteq> n \<and> (out g v \<noteq> [] \<longrightarrow> v \<in> S)" by (elim exE conjE)
  have "P \<union> set (q # queue) \<subseteq> S" using S(1) facts by auto
  with S(2) show ?case by (intro exI[of _ S] conjI)
qed

lemma closesCycleLocked_iff:
  assumes "out g n \<noteq> []"
  shows "closesCycleLocked g n old \<longleftrightarrow> (\<exists>dst. edge g n dst \<and> dst \<notin> set old \<and> (dst, n) \<in> (edges g)\<^sup>*)"
    (is "_ = ?R")
proof -
  define cands where "cands = filter (\<lambda>dst. \<not> (dst \<in> set old \<or> out g dst = [])) (out g n)"
  have cl: "closesCycleLocked g n old \<longleftrightarrow> n \<in> set cands \<or> closesLoop g n (rev cands) cands"
    unfolding closesCycleLocked_def cands_def Let_def by auto
  have "?R" if "closesCycleLocked g n old"
    using that closesLoop_sound[of g n "rev cands" cands] assms
    unfolding cl by (auto simp: cands_def intro: trancl_into_rtrancl)
  moreover have "closesCycleLocked g n old" if R: "?R"
  proof (rule ccontr)
    assume neg: "\<not> closesCycleLocked g n old"
    obtain dst where dst: "edge g n dst" "dst \<notin> set old" "(dst, n) \<in> (edges g)\<^sup>*" using R by blast
    have "out g dst \<noteq> []" using dst(3) assms by (cases rule: converse_rtranclE) auto
    with dst neg have cand: "dst \<in> set cands" and ne: "dst \<noteq> n"
      by (auto simp: cands_def cl)
    have "\<exists>S. {} \<union> set cands \<subseteq> S \<and>
        (\<forall>u \<in> S. \<forall>v \<in> set (out g u). v \<noteq> n \<and> (out g v \<noteq> [] \<longrightarrow> v \<in> S))"
      by (rule closesLoop_complete[of g n "rev cands" cands "{}"]) (use neg cl in auto)
    then obtain S where S: "set cands \<subseteq> S"
        "\<forall>u \<in> S. \<forall>v \<in> set (out g u). v \<noteq> n \<and> (out g v \<noteq> [] \<longrightarrow> v \<in> S)" by auto
    obtain y where y: "(dst, y) \<in> (edges g)\<^sup>*" "edge g y n"
      using dst(3) ne by (cases rule: rtranclE) auto
    have "y \<in> S" by (rule live_closure[OF y(1)]) (use S cand y(2) in auto)
    with S(2) y(2) show False by blast
  qed
  ultimately show ?thesis by blast
qed

section \<open>Marking is exact\<close>

lemma srcsOf_gput:
  "gok incoming \<Longrightarrow> srcsOf (gput d ss incoming) k = (if k = d then ss else srcsOf incoming k)"
  by (simp add: srcsOf_def map_of_gput)

lemma srcsOf_gdel: "srcsOf (gdel d incoming) k = (if k = d then [] else srcsOf incoming k)"
  by (simp add: srcsOf_def map_of_gdel)

lemma markScan_facts:
  assumes "gok incoming" and "markScan g src ds incoming reach queue = (incoming', reach', queue')"
  shows "gok incoming' \<and> set reach' = set reach \<union> {d \<in> set ds. out g d \<noteq> []} \<and>
    set queue \<subseteq> set queue' \<and> set queue' \<subseteq> set queue \<union> {d \<in> set ds. out g d \<noteq> []} \<and>
    set reach' - set reach \<subseteq> set queue' \<and>
    (\<forall>d. set (srcsOf incoming' d) =
       set (srcsOf incoming d) \<union> (if d \<in> set ds \<and> out g d \<noteq> [] then {src} else {}))"
  using assms
proof (induction g src ds incoming reach queue rule: markScan.induct)
  case (2 g src dst ds incoming reach queue)
  define inc where "inc = gput dst (srcsOf incoming dst @ [src]) incoming"
  have inc: "gok inc" "set (srcsOf inc d) = set (srcsOf incoming d) \<union> (if d = dst then {src} else {})" for d
    using 2(4) by (auto simp: inc_def gok_gput srcsOf_gput)
  note IH = 2(2)[OF _ refl inc_def[unfolded srcsOf_def]] 2(3)[OF _ refl inc_def[unfolded srcsOf_def]]
  show ?case
  proof (cases "out g dst = []")
    case True
    with 2(1)[OF True 2(4)] 2(5) show ?thesis by auto
  next
    case False
    show ?thesis
    proof (cases "dst \<in> set reach")
      case True
      have eq: "markScan g src ds inc reach queue = (incoming', reach', queue')"
        using 2(5) False True by (simp add: inc_def srcsOf_def Let_def)
      from IH(2)[OF False _ inc(1) eq] True False show ?thesis by (auto simp: inc(2))
    next
      case new: False
      have eq: "markScan g src ds inc (dst # reach) (queue @ [dst]) = (incoming', reach', queue')"
        using 2(5) False new by (simp add: inc_def srcsOf_def Let_def)
      from IH(1)[OF False new inc(1) eq] new False show ?thesis by (auto simp: inc(2))
    qed
  qed
qed auto

definition live :: "dependencyGraph \<Rightarrow> NamedResource set" where
  "live g = {v. out g v \<noteq> []}"

lemma markForward_facts:
  assumes "gok incoming" and "set reach \<subseteq> P \<union> set queue" and "P \<union> set queue \<subseteq> live g \<inter> A"
    and "\<And>u v. u \<in> A \<Longrightarrow> edge g u v \<Longrightarrow> v \<in> A"
    and "\<And>u v. u \<in> P \<Longrightarrow> edge g u v \<Longrightarrow> v \<in> live g \<Longrightarrow> v \<in> set reach"
    and "\<And>d. set (srcsOf incoming d) = {u \<in> P. edge g u d \<and> d \<in> live g}"
  shows "\<exists>S. P \<union> set queue \<subseteq> S \<and> S \<subseteq> live g \<inter> A \<and>
    (\<forall>u \<in> S. \<forall>v \<in> set (out g u). v \<in> live g \<longrightarrow> v \<in> S) \<and>
    (\<forall>d. set (srcsOf (markForward g incoming reach queue) d) = {u \<in> S. edge g u d \<and> d \<in> live g})"
  using assms
proof (induction g incoming reach queue arbitrary: P rule: markForward.induct)
  case (1 g incoming reach)
  have "set reach \<subseteq> P" using "1.prems"(2) by simp
  then have "\<forall>u \<in> P. \<forall>v \<in> set (out g u). v \<in> live g \<longrightarrow> v \<in> P" using "1.prems"(5) by blast
  then show ?case using "1.prems"(3,6) by (intro exI[of _ P]) simp
next
  case (2 g incoming reach src queue)
  obtain inc' reach' queue' where
    scan: "markScan g src (out g src) incoming reach queue = (inc', reach', queue')"
    by (metis prod_cases3)
  note facts = markScan_facts[OF "2.prems"(1) scan]
  have srcA: "src \<in> A" using "2.prems"(3) by simp
  have "\<exists>S. insert src P \<union> set queue' \<subseteq> S \<and> S \<subseteq> live g \<inter> A \<and>
    (\<forall>u \<in> S. \<forall>v \<in> set (out g u). v \<in> live g \<longrightarrow> v \<in> S) \<and>
    (\<forall>d. set (srcsOf (markForward g inc' reach' queue') d) = {u \<in> S. edge g u d \<and> d \<in> live g})"
  proof (rule "2.IH"[OF scan[symmetric] refl])
    show "gok inc'" using facts by blast
    have "set reach' \<subseteq> set reach \<union> set queue'" using facts by blast
    then show "set reach' \<subseteq> insert src P \<union> set queue'" using facts "2.prems"(2) by auto
    have "set queue' \<subseteq> live g \<inter> A"
      using facts "2.prems"(3) "2.prems"(4)[OF srcA] by (auto simp: live_def)
    then show "insert src P \<union> set queue' \<subseteq> live g \<inter> A" using "2.prems"(3) by auto
    show "v \<in> A" if "u \<in> A" "edge g u v" for u v using that by (rule "2.prems"(4))
    show "v \<in> set reach'" if "u \<in> insert src P" "edge g u v" "v \<in> live g" for u v
      using that facts "2.prems"(5) by (auto simp: live_def)
    show "set (srcsOf inc' d) = {u \<in> insert src P. edge g u d \<and> d \<in> live g}" for d
      using facts "2.prems"(6) by (auto simp: live_def)
  qed
  then obtain S where S: "insert src P \<union> set queue' \<subseteq> S" "S \<subseteq> live g \<inter> A"
      "\<forall>u \<in> S. \<forall>v \<in> set (out g u). v \<in> live g \<longrightarrow> v \<in> S"
      "\<forall>d. set (srcsOf (markForward g inc' reach' queue') d) = {u \<in> S. edge g u d \<and> d \<in> live g}"
    by (elim exE conjE)
  have eq: "markForward g incoming reach (src # queue) = markForward g inc' reach' queue'"
    using scan by simp
  have "P \<union> set (src # queue) \<subseteq> S" using S(1) facts by auto
  then show ?case unfolding eq using S(2,3,4) by (intro exI[of _ S] conjI)
qed

lemma markBackward_facts:
  assumes "gok fl"
  shows "gok (markBackward incoming queue fl) \<and>
    (\<exists>S. set queue \<subseteq> S \<and> S \<subseteq> {(v, u). u \<in> set (srcsOf incoming v)}\<^sup>* `` set queue \<and>
      (\<forall>v \<in> S. set (srcsOf incoming v) \<subseteq> S) \<and>
      (\<forall>k. map_of (markBackward incoming queue fl) k = (if k \<in> S then Some None else map_of fl k)))"
  using assms
proof (induction incoming queue fl rule: markBackward.induct)
  case (2 incoming m queue fl)
  let ?R = "{(v, u). u \<in> set (srcsOf incoming v)}"
  let ?R' = "{(v, u). u \<in> set (srcsOf (gdel m incoming) v)}"
  let ?res = "markBackward incoming (m # queue) fl"
  have fl': "gok (gput m None fl)" using 2(2) by (rule gok_gput)
  from 2(1)[OF fl'] obtain S where res: "gok ?res"
    and S: "set (queue @ srcsOf incoming m) \<subseteq> S"
      "S \<subseteq> ?R'\<^sup>* `` set (queue @ srcsOf incoming m)"
      "\<forall>v \<in> S. set (srcsOf (gdel m incoming) v) \<subseteq> S"
      "\<forall>k. map_of ?res k = (if k \<in> S then Some None else map_of (gput m None fl) k)"
    by auto
  have sub: "?R'\<^sup>* \<subseteq> ?R\<^sup>*" by (rule rtrancl_mono) (auto simp: srcsOf_gdel split: if_splits)
  have "S \<subseteq> ?R\<^sup>* `` set (queue @ srcsOf incoming m)" using S(2) sub by blast
  also have "\<dots> \<subseteq> ?R\<^sup>* `` set (m # queue)" by (auto intro: converse_rtrancl_into_rtrancl)
  finally have a: "insert m S \<subseteq> ?R\<^sup>* `` set (m # queue)" by auto
  have b: "\<forall>v \<in> insert m S. set (srcsOf incoming v) \<subseteq> insert m S"
    using S(1,3) by (auto simp: srcsOf_gdel split: if_splits)
  have c: "map_of ?res k = (if k \<in> insert m S then Some None else map_of fl k)" for k
    using S(4) 2(2) by (simp add: map_of_gput)
  have "set (m # queue) \<subseteq> insert m S" using S(1) by auto
  with res a b c show ?case by (intro conjI exI[of _ "insert m S"] allI)
qed auto

lemma markCycleMembers_exact:
  assumes "gok (failed g)" and "out g n \<noteq> []"
  shows "gok (failed (markCycleMembersLocked n g)) \<and>
    (\<forall>k. map_of (failed (markCycleMembersLocked n g)) k =
      (if (n, k) \<in> (edges g)\<^sup>* \<and> (k, n) \<in> (edges g)\<^sup>* then Some None else map_of (failed g) k))"
proof -
  let ?E = "edges g"
  define inc where "inc = markForward g [] [n] [n]"
  let ?R = "{(v, u). u \<in> set (srcsOf inc v)}"
  have "\<exists>S. {} \<union> set [n] \<subseteq> S \<and> S \<subseteq> live g \<inter> ?E\<^sup>* `` {n} \<and>
    (\<forall>u \<in> S. \<forall>v \<in> set (out g u). v \<in> live g \<longrightarrow> v \<in> S) \<and>
    (\<forall>d. set (srcsOf inc d) = {u \<in> S. edge g u d \<and> d \<in> live g})"
    unfolding inc_def by (rule markForward_facts)
      (use assms(2) in \<open>auto simp: live_def srcsOf_def intro: rtrancl_into_rtrancl\<close>)
  then obtain S where S: "n \<in> S" "S \<subseteq> live g \<inter> ?E\<^sup>* `` {n}"
      "\<forall>u \<in> S. \<forall>v \<in> set (out g u). v \<in> live g \<longrightarrow> v \<in> S"
    and src: "\<And>d. set (srcsOf inc d) = {u \<in> S. edge g u d \<and> d \<in> live g}" by auto
  obtain B where B: "n \<in> B" "B \<subseteq> ?R\<^sup>* `` {n}" "\<forall>v \<in> B. set (srcsOf inc v) \<subseteq> B"
    and res: "\<And>k. map_of (markBackward inc [n] (failed g)) k = (if k \<in> B then Some None else map_of (failed g) k)"
    and ok: "gok (markBackward inc [n] (failed g))"
    using markBackward_facts[OF assms(1), of inc "[n]"] by auto
  have fwd: "(n, k) \<in> ?E\<^sup>* \<and> (k, n) \<in> ?E\<^sup>*" if "(n, k) \<in> ?R\<^sup>*" for k
    using that
  proof (induction rule: rtrancl_induct)
    case (step y z)
    then have "z \<in> S" "edge g z y" by (auto simp: src)
    with step S(2) show ?case by (auto intro: converse_rtrancl_into_rtrancl)
  qed simp
  have bwd: "k \<in> B" if "(k, n) \<in> ?E\<^sup>*" "(n, k) \<in> ?E\<^sup>*" for k
    using that
  proof (induction rule: converse_rtrancl_induct)
    case (step y z)
    have z: "z \<in> B" using step by (auto intro: rtrancl_into_rtrancl)
    have "z \<in> live g" using step(2) assms(2) by (cases rule: converse_rtranclE) (auto simp: live_def)
    moreover have "y \<in> S" by (rule live_closure[OF step(4) S(1)]) (use step(1) S(3) in \<open>auto simp: live_def\<close>)
    ultimately have "y \<in> set (srcsOf inc z)" using step(1) by (simp add: src)
    with B(3) z show ?case by blast
  qed (rule B(1))
  have "k \<in> B \<longleftrightarrow> (n, k) \<in> ?E\<^sup>* \<and> (k, n) \<in> ?E\<^sup>*" for k
    using fwd bwd B(2) by blast
  with res ok show ?thesis unfolding markCycleMembersLocked_def inc_def[symmetric] by simp
qed

section \<open>The path search is sound and complete\<close>

lemma set_sortedNeighbors [simp]: "set (sortedNeighbors es) = set es"
  by (simp add: sortedNeighbors_def sortFunc_compareResource)

lemma findPathLoop_sound:
  assumes "findPathLoop g start target visited stack = Some path"
    and "successively (\<lambda>a b. edge g b a) (map fst stack)"
    and "\<forall>(n, cs) \<in> set stack. set cs \<subseteq> set (out g n)"
  shows "stack \<noteq> [] \<and> successively (edge g) path \<and> hd path = fst (last stack) \<and> last path = target \<and>
    2 \<le> length path"
  using assms
proof (induction g start target visited stack rule: findPathLoop.induct)
  case (2 g start target visited n stack)
  then show ?case by (cases stack) auto
next
  case (3 g start target visited n "next" cs stack)
  have chain: "successively (\<lambda>a b. edge g b a) (map fst ((n, cs) # stack))"
    and sub: "\<forall>(n, cs) \<in> set ((n, cs) # stack). set cs \<subseteq> set (out g n)"
    and hop: "edge g n next" using 3 by auto
  have hd_rev: "hd (rev (map fst ((n, cs) # stack)) @ [target]) = fst (last ((n, cs) # stack))"
    by (cases stack rule: rev_cases) auto
  show ?case
  proof (cases "next = target")
    case True
    with 3(3) have path: "path = rev (map fst ((n, cs) # stack)) @ [target]" by simp
    have "successively (edge g) (rev (map fst ((n, cs) # stack)))"
      using chain unfolding successively_rev by simp
    then have "successively (edge g) path"
      using hop True unfolding path successively_append_iff by simp
    then show ?thesis using hd_rev path by simp
  next
    case new: False
    show ?thesis
    proof (cases "next \<in> set visited \<or> next = start")
      case True
      have eq: "findPathLoop g start target visited ((n, cs) # stack) = Some path"
        using 3(3) new True by simp
      from 3(1)[OF new True eq chain sub] show ?thesis by (cases stack) auto
    next
      case False
      have eq: "findPathLoop g start target (next # visited)
          ((next, sortedNeighbors (out g next)) # (n, cs) # stack) = Some path"
        using 3(3) new False by simp
      from 3(2)[OF new False eq] chain sub hop show ?thesis by (cases stack) auto
    qed
  qed
qed auto

definition frame_covers ::
  "dependencyGraph \<Rightarrow> NamedResource \<Rightarrow> NamedResource set \<Rightarrow> (NamedResource \<times> NamedResource list) list \<Rightarrow> bool" where
  "frame_covers g target V stack \<longleftrightarrow>
     (\<forall>u \<in> V. \<forall>v \<in> set (out g u). (v \<in> V \<and> v \<noteq> target) \<or> (\<exists>cs. (u, cs) \<in> set stack \<and> v \<in> set cs))"

lemma frame_covers_skip:
  "frame_covers g target V ((n, v # cs) # stack) \<Longrightarrow> v \<in> V \<Longrightarrow> v \<noteq> target \<Longrightarrow>
     frame_covers g target V ((n, cs) # stack)"
  unfolding frame_covers_def by (metis list.set_intros(1,2) set_ConsD prod.inject)

lemma frame_covers_pop:
  assumes "frame_covers g target V ((n, []) # stack)"
  shows "frame_covers g target V stack"
proof -
  have "(u, ds) \<in> set stack" if "(u, ds) \<in> set ((n, []) # stack)" "w \<in> set ds" for u w ds
    using that by auto
  with assms show ?thesis unfolding frame_covers_def by blast
qed

lemma frame_covers_push:
  assumes "frame_covers g target V ((n, v # cs) # stack)" and "v \<noteq> target"
  shows "frame_covers g target (insert v V) ((v, sortedNeighbors (out g v)) # (n, cs) # stack)"
  unfolding frame_covers_def
proof (intro ballI)
  fix u w assume u: "u \<in> insert v V" and w: "edge g u w"
  let ?st = "(v, sortedNeighbors (out g v)) # (n, cs) # stack"
  show "(w \<in> insert v V \<and> w \<noteq> target) \<or> (\<exists>ds. (u, ds) \<in> set ?st \<and> w \<in> set ds)"
  proof (cases "u = v \<or> w = v")
    case True
    have "w \<in> set (sortedNeighbors (out g v))" if "u = v" using w that by simp
    with True assms(2) show ?thesis by auto
  next
    case False
    then have "u \<in> V" using u by blast
    then have "(w \<in> V \<and> w \<noteq> target) \<or> (\<exists>ds. (u, ds) \<in> set ((n, v # cs) # stack) \<and> w \<in> set ds)"
      using assms(1) w unfolding frame_covers_def by blast
    then show ?thesis using False by auto
  qed
qed

lemma findPathLoop_complete:
  assumes "findPathLoop g start target visited stack = None"
    and "frame_covers g target (insert start (set visited)) stack"
  shows "\<exists>S. insert start (set visited) \<subseteq> S \<and> (\<forall>u \<in> S. set (out g u) \<subseteq> S - {target})"
  using assms
proof (induction g start target visited stack rule: findPathLoop.induct)
  case (1 g start target visited)
  then show ?case
    by (intro exI[of _ "insert start (set visited)"]) (auto simp: frame_covers_def)
next
  case (2 g start target visited n stack)
  have "findPathLoop g start target visited stack = None" using 2(2) by simp
  from 2(1)[OF this frame_covers_pop[OF 2(3)]] show ?case .
next
  case (3 g start target visited n "next" cs stack)
  have ne: "next \<noteq> target" using 3(3) by auto
  show ?case
  proof (cases "next \<in> set visited \<or> next = start")
    case True
    with 3(3) ne have "findPathLoop g start target visited ((n, cs) # stack) = None" by simp
    with 3(1)[OF ne True] frame_covers_skip[OF 3(4) _ ne] True show ?thesis by auto
  next
    case False
    with 3(3) ne have eq: "findPathLoop g start target (next # visited)
        ((next, sortedNeighbors (out g next)) # (n, cs) # stack) = None" by simp
    have "insert start (set (next # visited)) = insert next (insert start (set visited))" by auto
    with 3(2)[OF ne False eq] frame_covers_push[OF 3(4) ne] show ?thesis by auto
  qed
qed

lemma findPath_sound:
  assumes "findPathLocked g start target = Some path"
  shows "successively (edge g) path \<and> hd path = start \<and> last path = target \<and> 2 \<le> length path"
  using findPathLoop_sound[OF assms[unfolded findPathLocked_def]] by simp

lemma findPath_complete:
  assumes "findPathLocked g start target = None"
  shows "(start, target) \<notin> (edges g)\<^sup>+"
proof
  assume path: "(start, target) \<in> (edges g)\<^sup>+"
  have "frame_covers g target (insert start (set [])) [(start, sortedNeighbors (out g start))]"
    by (simp add: frame_covers_def)
  from findPathLoop_complete[OF assms[unfolded findPathLocked_def] this]
  obtain S where "start \<in> S" "\<forall>u \<in> S. set (out g u) \<subseteq> S - {target}" by auto
  with dg.closed_tranclE[OF path, of S] show False by blast
qed

lemma successively_trancl:
  "successively (edge g) (x # p) \<Longrightarrow> p \<noteq> [] \<Longrightarrow> (x, last p) \<in> (edges g)\<^sup>+"
proof (induction p arbitrary: x)
  case (Cons y p)
  have hop: "(x, y) \<in> edges g" using Cons(2) by simp
  show ?case
  proof (cases "p = []")
    case False
    with Cons have "(y, last p) \<in> (edges g)\<^sup>+" by simp
    with hop False show ?thesis by (simp add: trancl_into_trancl2)
  qed (use hop in auto)
qed simp

lemma findPath_iff: "findPathLocked g start target \<noteq> None \<longleftrightarrow> (start, target) \<in> (edges g)\<^sup>+"
proof (cases "findPathLocked g start target")
  case (Some path)
  note facts = findPath_sound[OF Some]
  then obtain p where "path = start # p" "p \<noteq> []" by (cases path) (auto simp: Suc_le_eq)
  with facts successively_trancl[of g start p] Some show ?thesis by simp
qed (use findPath_complete in auto)

section \<open>Captured cycles\<close>

definition valid_cycle :: "dependencyGraph \<Rightarrow> cyclePath \<Rightarrow> bool" where
  "valid_cycle g c \<longleftrightarrow>
     2 \<le> length c \<and> successively (edge g) c \<and> hd c = last c \<and> hd c = Min (set c)"

lemma successively_take_drop:
  assumes "successively P xs"
  shows "successively P (take i xs)" and "successively P (drop i xs)"
proof -
  have "successively P (take i xs @ drop i xs)" using assms by simp
  then show "successively P (take i xs)" "successively P (drop i xs)"
    unfolding successively_append_iff by blast+
qed

lemma indexOf_nth: "x \<in> set xs \<Longrightarrow> indexOf xs x < length xs \<and> xs ! indexOf xs x = x"
  by (induction xs x rule: indexOf.induct) auto

lemma indexOf_append: "x \<in> set xs \<Longrightarrow> indexOf (xs @ ys) x = indexOf xs x"
  by (induction xs) auto

lemma minimalRotation_valid:
  assumes "successively (edge g) path" and "hd path = last path" and "2 \<le> length path"
  shows "valid_cycle g (minimalRotation path) \<and> set (minimalRotation path) = set path"
proof -
  obtain q where path: "path = q @ [last path]" using assms(3) by (cases path rule: rev_cases) auto
  with assms(2,3) have q: "q \<noteq> []" "hd q = last path"
    by (metis append_butlast_last_id hd_append2 length_append_singleton Suc_le_eq add_2_eq_Suc'
        list.size(3) not_less_eq_eq One_nat_def numeral_2_eq_2 le_zero_eq nat.distinct(1))+
  have set_q: "set path = set q" using path q by (metis hd_in_set insert_absorb list.set(1) list.simps(15)
      set_append sup_bot.right_neutral Un_insert_right)
  define i where "i = indexOf q (Min (set q))"
  have "Min (set q) \<in> set q" using q(1) by (intro Min_in) auto
  then have i: "i < length q" "q ! i = Min (set q)" "indexOf path (Min (set path)) = i"
    using indexOf_nth[of "Min (set q)" q] indexOf_append[of "Min (set q)" q "[last path]"] path
    by (auto simp: i_def set_q)
  have rot: "minimalRotation path = drop i q @ take i q @ [q ! i]"
    unfolding minimalRotation_def Let_def i(3) using i(1) path
    by (metis One_nat_def Suc_eq_plus1 Suc_leI butlast_conv_take butlast_snoc
        length_append_singleton diff_Suc_1 take_Suc_conv_app_nth take_append take_all_iff diff_is_0_eq take0 append_Nil2)
  have chain: "successively (edge g) (drop i q)" "successively (edge g) (take (Suc i) q)" "edge g (last q) (hd q)"
    using assms(1) q path successively_take_drop[of "edge g" q]
    by (metis successively_append_iff list.sel(1) not_Cons_self2)+
  have "successively (edge g) (drop i q @ take (Suc i) q)"
    unfolding successively_append_iff using chain i(1) q(1) by (auto simp: hd_take)
  then have succ: "successively (edge g) (minimalRotation path)"
    using i(1) by (simp add: rot take_Suc_conv_app_nth)
  have sets: "set (minimalRotation path) = set q"
    unfolding rot using i(1) set_append[of "take i q" "drop i q"] by auto
  have "hd (minimalRotation path) = q ! i" "last (minimalRotation path) = q ! i"
    "2 \<le> length (minimalRotation path)"
    using i(1) by (auto simp: rot hd_drop_conv_nth)
  with succ sets i(2) set_q show ?thesis by (simp add: valid_cycle_def)
qed

lemma valid_cycle_trancl:
  assumes "valid_cycle g c" and "k \<in> set c"
  shows "(k, k) \<in> (edges g)\<^sup>+"
proof -
  obtain xs ys where c: "c = xs @ k # ys" using assms(2) by (meson split_list)
  have suc: "successively (edge g) c" and ends: "hd c = last c" and len: "2 \<le> length c"
    using assms(1) by (auto simp: valid_cycle_def)
  have tail: "successively (edge g) (k # ys)" using suc unfolding c successively_append_iff by simp
  have front: "(hd c, k) \<in> (edges g)\<^sup>+" if "xs \<noteq> []"
  proof -
    have "successively (edge g) (xs @ [k])" using suc unfolding c successively_append_iff by simp
    then show ?thesis using successively_trancl[of g "hd xs" "tl xs @ [k]"] that c by (cases xs) auto
  qed
  show ?thesis
  proof (cases "ys = []")
    case True
    then have "xs \<noteq> []" "hd c = k" using c len ends by auto
    with front show ?thesis by simp
  next
    case False
    with tail c have "(k, last c) \<in> (edges g)\<^sup>+" using successively_trancl[of g k ys] by simp
    with ends front c show ?thesis by (cases "xs = []") (auto intro: trancl_trans)
  qed
qed

lemma captureMembers_facts:
  assumes "gok fl" and "captureMembers cyc path checked fl = (checked', fl')"
  shows "gok fl' \<and> set checked' = set checked \<union> set path \<and>
    (\<forall>k. map_of fl' k = (if k \<in> set path - set checked then Some (Some cyc) else map_of fl k))"
  using assms
proof (induction cyc path checked fl rule: captureMembers.induct)
  case (2 cyc member path checked fl)
  show ?case
  proof (cases "member \<in> set checked")
    case True
    with 2(1)[OF True 2(3)] 2(4) show ?thesis by auto
  next
    case False
    with 2(2)[OF False gok_gput[OF 2(3)]] 2(4) 2(3) show ?thesis by (auto simp: map_of_gput)
  qed
qed auto

section \<open>The failure map is exactly the set of cycle members\<close>

definition captured :: "dependencyGraph \<Rightarrow> (NamedResource, cyclePath option) gomap \<Rightarrow> NamedResource \<Rightarrow> bool" where
  "captured g fl k \<longleftrightarrow> (\<exists>c. map_of fl k = Some (Some c) \<and> valid_cycle g c \<and> k \<in> set c)"

definition cycle_exact :: "dependencyGraph \<Rightarrow> (NamedResource, cyclePath option) gomap \<Rightarrow> bool" where
  "cycle_exact g fl \<longleftrightarrow>
     gok fl \<and> dom (map_of fl) = {k. (k, k) \<in> (edges g)\<^sup>+} \<and> (\<forall>k \<in> dom (map_of fl). captured g fl k)"

lemma captured_cyclic: "captured g fl k \<Longrightarrow> (k, k) \<in> (edges g)\<^sup>+ \<and> k \<in> dom (map_of fl)"
  by (auto simp: captured_def intro: valid_cycle_trancl)

lemma revalidateLoop_exact:
  assumes "gok fl" and "dom (map_of fl) \<subseteq> set ns \<union> set checked"
    and "{k. (k, k) \<in> (edges g)\<^sup>+} \<subseteq> dom (map_of fl)" and "\<forall>k \<in> set checked. captured g fl k"
  shows "cycle_exact g (revalidateLoop g ns checked fl)"
  using assms
proof (induction g ns checked fl rule: revalidateLoop.induct)
  case (1 g checked fl)
  then show ?case using captured_cyclic[of g fl] by (auto simp: cycle_exact_def)
next
  case (2 g n ns checked fl)
  show ?case
  proof (cases "n \<in> set checked")
    case True
    have "dom (map_of fl) \<subseteq> set ns \<union> set checked" using 2(5) True by auto
    from 2(1)[OF True 2(4) this 2(6,7)] True show ?thesis by simp
  next
    case False
    show ?thesis
    proof (cases "findPathLocked g n n")
      case None
      have nc: "(n, n) \<notin> (edges g)\<^sup>+" using None by (rule findPath_complete)
      have "cycle_exact g (revalidateLoop g ns checked (gdel n fl))"
      proof (rule 2(2)[OF False None gok_gdel[OF 2(4)]])
        show "dom (map_of (gdel n fl)) \<subseteq> set ns \<union> set checked" using 2(5) by (auto simp: dom_gdel)
        show "{k. (k, k) \<in> (edges g)\<^sup>+} \<subseteq> dom (map_of (gdel n fl))" using 2(6) nc by (auto simp: dom_gdel)
        show "\<forall>k \<in> set checked. captured g (gdel n fl) k"
          using 2(7) False by (auto simp: captured_def map_of_gdel)
      qed
      with False None show ?thesis by simp
    next
      case (Some path)
      obtain checked' fl' where cap: "captureMembers (minimalRotation path) path checked fl = (checked', fl')"
        by force
      note facts = captureMembers_facts[OF 2(4) cap] and path = findPath_sound[OF Some]
      have rot: "valid_cycle g (minimalRotation path)" "set (minimalRotation path) = set path"
        using minimalRotation_valid[of g path] path by auto
      have "n \<in> set path" using path by (metis hd_in_set list.size(3) not_numeral_le_zero)
      have "cycle_exact g (revalidateLoop g ns checked' fl')"
      proof (rule 2(3)[OF False Some cap[symmetric]])
        show "gok fl'" using facts by blast
        show "dom (map_of fl') \<subseteq> set ns \<union> set checked'"
          using 2(5) facts \<open>n \<in> set path\<close> by (auto simp: dom_def split: if_splits)
        show "{k. (k, k) \<in> (edges g)\<^sup>+} \<subseteq> dom (map_of fl')"
          using 2(6) facts by (auto simp: dom_def)
        show "\<forall>k \<in> set checked'. captured g fl' k"
          using 2(7) facts rot by (auto simp: captured_def)
      qed
      with False Some cap show ?thesis by simp
    qed
  qed
qed

lemma revalidateFailed_exact:
  assumes "gok (failed g)" and "{k. (k, k) \<in> (edges g)\<^sup>+} \<subseteq> dom (map_of (failed g))"
  shows "cycle_exact g (failed (revalidateFailedLocked g))"
  unfolding revalidateFailedLocked_def
  using revalidateLoop_exact[OF assms(1) _ assms(2), of "sort (gkeys (failed g))" "[]"]
  by (simp add: sortFunc_compareResource gkeys_def dom_map_of_conv_image_fst)

lemma cycle_exact_cong:
  assumes "\<And>u. out g u = out g' u" shows "cycle_exact g fl \<longleftrightarrow> cycle_exact g' fl"
  using assms by (simp add: cycle_exact_def captured_def valid_cycle_def)

definition graph_ok :: "dependencyGraph \<Rightarrow> bool" where
  "graph_ok g \<longleftrightarrow>
     gok (outEdges g) \<and> (\<forall>(n, es) \<in> set (outEdges g). es \<noteq> [] \<and> sorted_wrt (<) es) \<and>
     cycle_exact g (failed g)"

text \<open>A cycle of the updated graph either was there before or uses a new edge of the updated node.\<close>

lemma new_edge_path:
  assumes "(x, y) \<in> E'\<^sup>+" and "\<And>u v. (u, v) \<in> E' \<Longrightarrow> (u, v) \<in> E \<or> (u = n \<and> v \<in> N)"
  shows "(x, y) \<in> E\<^sup>+ \<or> (\<exists>d \<in> N. (n, d) \<in> E' \<and> (x, n) \<in> E'\<^sup>* \<and> (d, y) \<in> E'\<^sup>*)"
  using assms(1)
proof (induction rule: trancl_induct)
  case (base y)
  then show ?case using assms(2)[of x y] by blast
next
  case (step y z)
  from step(3) show ?case
  proof
    assume old: "(x, y) \<in> E\<^sup>+"
    show ?thesis
    proof (cases "(y, z) \<in> E")
      case False
      then have "y = n" "z \<in> N" using assms(2) step(2) by blast+
      with step(1,2) show ?thesis by (auto intro: trancl_into_rtrancl)
    qed (use old in \<open>auto intro: trancl_into_trancl\<close>)
  next
    assume "\<exists>d \<in> N. (n, d) \<in> E' \<and> (x, n) \<in> E'\<^sup>* \<and> (d, y) \<in> E'\<^sup>*"
    with step(2) show ?thesis by (meson rtrancl_into_rtrancl)
  qed
qed

lemma valid_cycle_mono:
  assumes "valid_cycle g c" and "\<And>u v. edge g u v \<Longrightarrow> edge g' u v"
  shows "valid_cycle g' c"
  using assms successively_mono[of "edge g" c "edge g'"] by (auto simp: valid_cycle_def)

lemma cycle_exact_grow:
  assumes "cycle_exact g fl" and "\<And>u v. edge g u v \<Longrightarrow> edge g' u v"
    and "{k. (k, k) \<in> (edges g')\<^sup>+} \<subseteq> dom (map_of fl)"
  shows "cycle_exact g' fl"
proof -
  have "captured g' fl k" if "k \<in> dom (map_of fl)" for k
    using assms(1) that valid_cycle_mono[OF _ assms(2)] unfolding cycle_exact_def captured_def by blast
  then show ?thesis using assms(1,3) captured_cyclic unfolding cycle_exact_def by blast
qed

section \<open>Replacing the edges of a node\<close>

definition installed :: "NamedResource \<Rightarrow> NamedResource list \<Rightarrow> dependencyGraph \<Rightarrow> dependencyGraph" where
  "installed n newSet g =
     g\<lparr>outEdges := (if newSet = [] then gdel n (outEdges g) else gput n newSet (outEdges g))\<rparr>"

lemma out_installed: "gok (outEdges g) \<Longrightarrow> out (installed n es g) u = (if u = n then es else out g u)"
  by (simp add: installed_def out_def map_of_gput map_of_gdel)

lemma out_sorted: "graph_ok g \<Longrightarrow> sorted_wrt (<) (out g n)"
  by (auto simp: graph_ok_def out_def split: option.splits dest!: map_of_SomeD)

lemma installed_ok:
  assumes "graph_ok g" and "sorted_wrt (<) es"
  shows "gok (outEdges (installed n es g)) \<and>
    (\<forall>(m, ds) \<in> set (outEdges (installed n es g)). ds \<noteq> [] \<and> sorted_wrt (<) ds)"
proof -
  have ok: "gok (outEdges (installed n es g))"
    using assms(1) by (auto simp: graph_ok_def installed_def gok_gput gok_gdel)
  have "ds \<noteq> [] \<and> sorted_wrt (<) ds" if "(m, ds) \<in> set (outEdges (installed n es g))" for m ds
  proof -
    have look: "map_of (outEdges (installed n es g)) m = Some ds"
      using that gok_distinct[OF ok] by simp
    show ?thesis
      using look assms unfolding graph_ok_def installed_def
      by (fastforce simp: map_of_gput map_of_gdel split: if_splits dest: map_of_SomeD)
  qed
  with ok show ?thesis by blast
qed

lemma edgeSetEqual_iff: "edgeSetEqual old deps \<longleftrightarrow> set old = set deps"
  by (auto simp: edgeSetEqual_def list_all_iff)

lemma out_revalidate [simp]: "out (revalidateFailedLocked g) = out g"
  by (simp add: revalidateFailedLocked_def out_def fun_eq_iff)

lemma out_mark [simp]: "out (markCycleMembersLocked n g) = out g"
  by (simp add: markCycleMembersLocked_def out_def fun_eq_iff)

lemma outEdges_mark [simp]:
  "outEdges (revalidateFailedLocked g) = outEdges g" "outEdges (markCycleMembersLocked n g) = outEdges g"
  by (simp_all add: revalidateFailedLocked_def markCycleMembersLocked_def)

lemma closesCycleLocked_none: "out g n = [] \<Longrightarrow> \<not> closesCycleLocked g n old"
  by (simp add: closesCycleLocked_def)

lemma replaceEdges_unfold:
  "\<not> edgeSetEqual (out g n) deps \<Longrightarrow>
     replaceEdges n deps g =
       (let g1 = installed n (sort (remdups deps)) g;
            found = closesCycleLocked g1 n (out g n);
            g2 = (if found then markCycleMembersLocked n g1 else g1)
        in if failed g2 \<noteq> [] \<and> (\<not> set (out g n) \<subseteq> set deps \<or> found) then revalidateFailedLocked g2 else g2)"
  by (auto simp: replaceEdges_def installed_def Let_def list_ex_iff)

lemma out_replaceEdges:
  assumes "graph_ok g"
  shows "out (replaceEdges n deps g) u = (if u = n then sort (remdups deps) else out g u)"
proof (cases "edgeSetEqual (out g n) deps")
  case True
  then have "out g n = sort (remdups deps)"
    using out_sorted[OF assms, of n] edgeSetEqual_iff
    by (intro sorted_distinct_set_unique) (auto simp: strict_sorted_iff)
  with True show ?thesis by (simp add: replaceEdges_def)
next
  case False
  then show ?thesis using assms
    by (simp add: replaceEdges_unfold Let_def out_installed graph_ok_def)
qed

lemma graph_ok_new: "graph_ok newDependencyGraph"
  by (simp add: graph_ok_def newDependencyGraph_def cycle_exact_def out_def)

lemma marked_covers:
  assumes "graph_ok g" and "g1 = installed n es g"
    and "g2 = (if closesCycleLocked g1 n (out g n) then markCycleMembersLocked n g1 else g1)"
  shows "gok (failed g2) \<and> {k. (k, k) \<in> (edges g2)\<^sup>+} \<subseteq> dom (map_of (failed g2))"
proof -
  have out1: "out g1 u = (if u = n then es else out g u)" for u
    using assms(1) out_installed by (simp add: assms(2) graph_ok_def)
  have fl1: "failed g1 = failed g" by (simp add: assms(2) installed_def)
  have ex: "cycle_exact g (failed g)" using assms(1) by (simp add: graph_ok_def)
  have marks: "gok (failed g2)" "map_of (failed g2) k =
      (if closesCycleLocked g1 n (out g n) \<and> (n, k) \<in> (edges g1)\<^sup>* \<and> (k, n) \<in> (edges g1)\<^sup>*
       then Some None else map_of (failed g) k)" for k
  proof -
    have ok: "gok (failed g1)" using ex by (simp add: fl1 cycle_exact_def)
    have live: "out g1 n \<noteq> []" if "closesCycleLocked g1 n (out g n)"
      using that closesCycleLocked_none by blast
    show "gok (failed g2)" using markCycleMembers_exact[OF ok live] ok by (simp add: assms(3))
    show "map_of (failed g2) k =
      (if closesCycleLocked g1 n (out g n) \<and> (n, k) \<in> (edges g1)\<^sup>* \<and> (k, n) \<in> (edges g1)\<^sup>*
       then Some None else map_of (failed g) k)"
      using markCycleMembers_exact[OF ok live] by (simp add: assms(3) fl1)
  qed
  have "k \<in> dom (map_of (failed g2))" if k: "(k, k) \<in> (edges g1)\<^sup>+" for k
  proof -
    have "(k, k) \<in> (edges g)\<^sup>+ \<or>
      (\<exists>d \<in> set es - set (out g n). (n, d) \<in> edges g1 \<and> (k, n) \<in> (edges g1)\<^sup>* \<and> (d, k) \<in> (edges g1)\<^sup>*)"
      by (rule new_edge_path[OF k]) (auto simp: out1 split: if_splits)
    then show ?thesis
    proof
      assume "(k, k) \<in> (edges g)\<^sup>+"
      with ex show ?thesis unfolding cycle_exact_def dom_def using marks(2) by auto
    next
      assume "\<exists>d \<in> set es - set (out g n). (n, d) \<in> edges g1 \<and> (k, n) \<in> (edges g1)\<^sup>* \<and> (d, k) \<in> (edges g1)\<^sup>*"
      then obtain d where d: "d \<notin> set (out g n)" "(n, d) \<in> edges g1" "(k, n) \<in> (edges g1)\<^sup>*" "(d, k) \<in> (edges g1)\<^sup>*"
        by blast
      have "closesCycleLocked g1 n (out g n)"
      proof (rule closesCycleLocked_iff[THEN iffD2])
        show "out g1 n \<noteq> []" using d(2) by auto
        show "\<exists>dst. edge g1 n dst \<and> dst \<notin> set (out g n) \<and> (dst, n) \<in> (edges g1)\<^sup>*"
          using d by (auto intro: rtrancl_trans)
      qed
      with d marks(2)[of k] show ?thesis by (auto intro: converse_rtrancl_into_rtrancl)
    qed
  qed
  then have "{k. (k, k) \<in> (edges g1)\<^sup>+} \<subseteq> dom (map_of (failed g2))" by (intro subsetI) simp
  moreover have "edges g2 = edges g1" by (simp add: assms(3))
  ultimately show ?thesis using marks(1) by simp
qed

lemma graph_ok_replaceEdges:
  assumes "graph_ok g"
  shows "graph_ok (replaceEdges n deps g)"
proof (cases "edgeSetEqual (out g n) deps")
  case True
  with assms show ?thesis by (simp add: replaceEdges_def)
next
  case False
  define g1 where "g1 = installed n (sort (remdups deps)) g"
  define g2 where "g2 = (if closesCycleLocked g1 n (out g n) then markCycleMembersLocked n g1 else g1)"
  have sorted: "sorted_wrt (<) (sort (remdups deps))" by (simp add: strict_sorted_iff)
  have edges_ok: "gok (outEdges g2) \<and> (\<forall>(m, ds) \<in> set (outEdges g2). ds \<noteq> [] \<and> sorted_wrt (<) ds)"
    using installed_ok[OF assms sorted, of n] by (simp add: g2_def g1_def)
  note cover = marked_covers[OF assms g1_def g2_def]
  have res: "replaceEdges n deps g =
      (if failed g2 \<noteq> [] \<and> (\<not> set (out g n) \<subseteq> set deps \<or> closesCycleLocked g1 n (out g n))
       then revalidateFailedLocked g2 else g2)"
    using replaceEdges_unfold[OF False] by (simp add: g1_def g2_def Let_def)
  show ?thesis
  proof (cases "failed g2 \<noteq> [] \<and> (\<not> set (out g n) \<subseteq> set deps \<or> closesCycleLocked g1 n (out g n))")
    case True
    have "cycle_exact (revalidateFailedLocked g2) (failed (revalidateFailedLocked g2))"
      using revalidateFailed_exact cover cycle_exact_cong[of "revalidateFailedLocked g2" g2] by simp
    with True edges_ok show ?thesis by (simp add: res graph_ok_def)
  next
    case quiet: False
    have "cycle_exact g2 (failed g2)"
    proof (cases "failed g2 = []")
      case True
      with cover show ?thesis by (auto simp: cycle_exact_def)
    next
      case False
      with quiet have g2: "g2 = g1" and sub: "set (out g n) \<subseteq> set deps" by (auto simp: g2_def)
      have "edge g2 u v" if "edge g u v" for u v
        using that sub assms by (auto simp: g2 g1_def out_installed graph_ok_def)
      moreover have "cycle_exact g (failed g2)" using assms by (simp add: graph_ok_def g2 g1_def installed_def)
      ultimately show ?thesis using cycle_exact_grow cover by blast
    qed
    with quiet edges_ok show ?thesis by (auto simp: res graph_ok_def)
  qed
qed

section \<open>Properties\<close>

text \<open>
  The batch reading of the same graph: the last dependency list declared for each node, without
  any incremental state.
\<close>

definition declared :: "(NamedResource \<times> NamedResource list) list \<Rightarrow> (NamedResource \<times> NamedResource) set" where
  "declared updates = {(u, v). \<exists>ds. map_of (rev updates) u = Some ds \<and> v \<in> set ds}"

definition replay :: "(NamedResource \<times> NamedResource list) list \<Rightarrow> dependencyGraph" where
  "replay updates = fold (\<lambda>(n, deps). replaceEdges n deps) updates newDependencyGraph"

lemma fold_replaceEdges:
  "graph_ok g \<Longrightarrow> graph_ok (fold (\<lambda>(n, deps). replaceEdges n deps) us g) \<and>
     out (fold (\<lambda>(n, deps). replaceEdges n deps) us g) k =
       (case map_of (rev us) k of None \<Rightarrow> out g k | Some ds \<Rightarrow> sort (remdups ds))"
proof (induction us arbitrary: g)
  case (Cons u us)
  obtain n deps where u: "u = (n, deps)" by force
  have ok: "graph_ok (replaceEdges n deps g)" using Cons(2) by (rule graph_ok_replaceEdges)
  from Cons(1)[OF ok] show ?case
    by (auto simp: u out_replaceEdges[OF Cons(2)] map_add_def split: option.splits)
qed simp

lemma edges_replay: "edges (replay updates) = declared updates"
  using fold_replaceEdges[OF graph_ok_new, of updates]
  by (auto simp: replay_def declared_def newDependencyGraph_def out_def[of "\<lparr>outEdges = [], failed = []\<rparr>"]
      split: option.splits)

lemma graph_ok_replay: "graph_ok (replay updates)"
  using fold_replaceEdges[OF graph_ok_new] by (simp add: replay_def)

text \<open>
  C4. Incremental cycle detection equals the batch definition: after any sequence of
  \<open>ReplaceEdges\<close> calls, the nodes that \<open>Failures\<close> reports are exactly the nodes that lie on a cycle
  of the dependency lists declared last, whatever the order and history of the updates.
\<close>

theorem failures_are_cycle_members:
  "dom (map_of (failures (replay updates))) = {k. (k, k) \<in> (declared updates)\<^sup>+}"
  using graph_ok_replay[of updates] edges_replay[of updates]
  by (auto simp: failures_def graph_ok_def cycle_exact_def)

text \<open>
  C5. The diagnostic path stored for a failed node is a real cycle of the current graph through that
  node, closed (its first and last node coincide) and rotated to its least node, so that messages do not
  depend on where the search entered the cycle.
\<close>

theorem failure_path_is_cycle:
  assumes "map_of (failures (replay updates)) k = Some entry"
  shows "\<exists>c. entry = Some c \<and> k \<in> set c \<and> 2 \<le> length c \<and>
    successively (\<lambda>u v. (u, v) \<in> declared updates) c \<and> hd c = last c \<and> hd c = Min (set c)"
proof -
  have "captured (replay updates) (failed (replay updates)) k"
    using assms graph_ok_replay[of updates]
    by (auto simp: failures_def graph_ok_def cycle_exact_def split: if_splits)
  then obtain c where "entry = Some c" "k \<in> set c" "valid_cycle (replay updates) c"
    using assms by (auto simp: captured_def failures_def split: if_splits)
  moreover have "edge (replay updates) = (\<lambda>u v. (u, v) \<in> declared updates)"
    using edges_replay[of updates] by (auto simp: fun_eq_iff)
  ultimately show ?thesis unfolding valid_cycle_def by metis
qed

text \<open>
  Three Kustomizations: the first update closes no cycle, the second one does, a third one hangs off
  the cycle without being a member.
\<close>

definition exK :: "string \<Rightarrow> NamedResource" where
  "exK n = NamedResource ''kustomize.toolkit.fluxcd.io'' ''Kustomization'' ''flux-system'' n"

definition exUpdates :: "(NamedResource \<times> NamedResource list) list" where
  "exUpdates = [(exK ''b'', [exK ''a'']), (exK ''a'', [exK ''b'']), (exK ''c'', [exK ''a''])]"

lemma exUpdates_failures:
  "failures (replay exUpdates) =
     [(exK ''a'', Some [exK ''a'', exK ''b'', exK ''a'']), (exK ''b'', Some [exK ''a'', exK ''b'', exK ''a''])]"
  by code_simp

theorem failure_path_is_cycle_witness:
  "\<exists>c. Some [exK ''a'', exK ''b'', exK ''a''] = Some c \<and> exK ''b'' \<in> set c \<and> 2 \<le> length c \<and>
    successively (\<lambda>u v. (u, v) \<in> declared exUpdates) c \<and> hd c = last c \<and> hd c = Min (set c)"
  by (rule failure_path_is_cycle) (simp add: exUpdates_failures exK_def)

end
