(* ===== verification/Status.thy ===== *)
theory Status
  imports Identity "HOL-Library.Word"
begin

text \<open>
  Status conditions of \<^verbatim>\<open>pkg/store/status.go\<close> and \<^verbatim>\<open>status_message.go\<close>: the Ready condition and its
  projection \<open>StatusInfo\<close>, failure provenance (which dependencies blocked a resource, and the
  diagnostics captured first), and the upsert of a condition with its change detection.

  \<open>conditionRecord\<close> is the struct of the same name; the pointer to its shared state is the generation
  stamp of the record, \<open>None\<close> before the first condition. The condition slice and the state are
  updated in place in the source and the map entry is then the updated record, so \<open>setConditionLocked\<close>
  returns the record to store. \<open>None\<close> as its result is the panic on an exhausted generation counter.
  Timestamps of conditions are never read and are left out.
\<close>

section \<open>Status projections\<close>

type_synonym StatusReason = string

abbreviation "StatusPending \<equiv> ''Pending''"
abbreviation "StatusReady \<equiv> ''Ready''"
abbreviation "StatusFailed \<equiv> ''Failed''"

abbreviation "ReasonSkipped \<equiv> ''Skipped''"
abbreviation "ReasonUnchanged \<equiv> ''Unchanged''"
abbreviation "ReasonSuspended \<equiv> ''Suspended''"

abbreviation "ReasonSucceeded \<equiv> ''Succeeded''"
abbreviation "ReasonFailed \<equiv> ''Failed''"
abbreviation "ReasonReconciling \<equiv> ''Reconciling''"

abbreviation "ConditionReady \<equiv> ''Ready''"
abbreviation "ConditionTrue \<equiv> ''True''"
abbreviation "ConditionFalse \<equiv> ''False''"
abbreviation "ConditionUnknown \<equiv> ''Unknown''"

datatype Outcome =
  OutcomePending | OutcomePassed | OutcomeFailed | OutcomeBlocked
| OutcomeSkipped | OutcomeUnchanged | OutcomeSuspended

record dependencyCause =
  causeID :: NamedResource
  causeReason :: DiagnosticReason

type_synonym dependencyFailure = "dependencyCause list"

record StatusInfo =
  infoStatus :: string
  infoReason :: StatusReason
  infoMessage :: string
  infoFailure :: "dependencyFailure option"
  infoApplying :: int

definition zeroInfo :: StatusInfo where
  "zeroInfo = \<lparr>infoStatus = [], infoReason = [], infoMessage = [], infoFailure = None, infoApplying = 0\<rparr>"

definition isDependencyFailure :: "StatusInfo \<Rightarrow> bool" where
  "isDependencyFailure i \<longleftrightarrow> infoFailure i \<noteq> None"

definition outcome :: "StatusInfo \<Rightarrow> Outcome" where
  "outcome i =
     (if infoStatus i = StatusFailed
      then if isDependencyFailure i then OutcomeBlocked else OutcomeFailed
      else if infoStatus i = StatusReady
      then if infoReason i = ReasonSkipped then OutcomeSkipped
           else if infoReason i = ReasonUnchanged then OutcomeUnchanged
           else if infoReason i = ReasonSuspended then OutcomeSuspended
           else OutcomePassed
      else OutcomePending)"

definition isUnavailable :: "StatusInfo \<Rightarrow> bool" where
  "isUnavailable i = (case outcome i of
     OutcomeFailed \<Rightarrow> True | OutcomeBlocked \<Rightarrow> True | OutcomeSkipped \<Rightarrow> True | OutcomeSuspended \<Rightarrow> True
   | _ \<Rightarrow> False)"

definition blockedBy :: "StatusInfo \<Rightarrow> NamedResource list" where
  "blockedBy i = (case infoFailure i of None \<Rightarrow> [] | Some causes \<Rightarrow> map causeID causes)"

section \<open>Visible messages\<close>

definition appendApplying :: "int \<Rightarrow> string" where
  "appendApplying objects = ''applying '' @ showInt (objects - 1) @ '' objects''"

definition applyingStatus :: "int \<Rightarrow> StatusInfo" where
  "applyingStatus objects =
     \<lparr>infoStatus = StatusPending, infoReason = ReasonReconciling, infoMessage = [], infoFailure = None,
      infoApplying = objects + 1\<rparr>"

definition visible :: "string \<Rightarrow> int \<Rightarrow> string" where
  "visible message objects = (if objects = 0 then message else appendApplying objects)"

definition infoString :: "StatusInfo \<Rightarrow> string" where
  "infoString i = (if infoApplying i = 0 then infoMessage i else appendApplying (infoApplying i))"

definition sameMessage :: "string \<Rightarrow> int \<Rightarrow> string \<Rightarrow> int \<Rightarrow> bool" where
  "sameMessage left leftObjects right rightObjects =
     (if leftObjects = rightObjects then leftObjects \<noteq> 0 \<or> left = right
      else if leftObjects \<noteq> 0 \<and> rightObjects \<noteq> 0 then False
      else
        let (objects, literal) = (if leftObjects = 0 then (rightObjects, left) else (leftObjects, right))
        in appendApplying objects = literal)"

definition dependencyReason :: "StatusInfo \<Rightarrow> DiagnosticIdentity \<Rightarrow> DiagnosticReason" where
  "dependencyReason i subject = (case infoFailure i of
     None \<Rightarrow> DiagnosticReason subject (infoString i) []
   | Some causes \<Rightarrow> DiagnosticReason subject [] (map causeReason causes))"

section \<open>Failure provenance\<close>

record DependencyFailedError =
  depFailed :: "NamedResource list"
  depReasons :: "(NamedResource, DiagnosticReason) gomap"

definition reasonFor :: "(NamedResource, DiagnosticReason) gomap \<Rightarrow> NamedResource \<Rightarrow> DiagnosticReason" where
  "reasonFor reasons n =
     (let reason = (case map_of reasons n of None \<Rightarrow> zeroReason | Some r \<Rightarrow> r)
      in if ID (Subject reason) = zeroResource
         then DiagnosticReason (diagnosticFor n None) (Message reason) (Causes reason)
         else reason)"

definition newDependencyFailure :: "DependencyFailedError \<Rightarrow> dependencyFailure option" where
  "newDependencyFailure dep =
     (if depFailed dep = [] then None
      else Some (sortFunc (\<lambda>a b. compareResource (causeID a) (causeID b))
        (map (\<lambda>n. \<lparr>causeID = n, causeReason = reasonFor (depReasons dep) n\<rparr>) (depFailed dep))))"

fun sameFailure :: "dependencyFailure option \<Rightarrow> dependencyFailure option \<Rightarrow> bool" where
  "sameFailure None None = True"
| "sameFailure (Some f) (Some o') \<longleftrightarrow>
     length f = length o' \<and> list_all (\<lambda>(a, b). causeID a = causeID b) (zip f o')"
| "sameFailure _ _ = False"

section \<open>Conditions\<close>

record Condition =
  cType :: string
  cStatus :: string
  cReason :: string
  cMessage :: string
  cObservedGeneration :: int

record conditionRecord =
  rstate :: "64 word option"
  applyingObjects :: int
  conditions :: "Condition list"
  rfailure :: "dependencyFailure option"

definition zeroRecord :: conditionRecord where
  "zeroRecord = \<lparr>rstate = None, applyingObjects = 0, conditions = [], rfailure = None\<rparr>"

definition readyCondition :: "string \<Rightarrow> StatusReason \<Rightarrow> string \<Rightarrow> Condition" where
  "readyCondition status reason message =
     (let (cs, cr) = (if status = StatusReady then (ConditionTrue, ReasonSucceeded)
                      else if status = StatusFailed then (ConditionFalse, ReasonFailed)
                      else (ConditionUnknown, ReasonReconciling))
      in \<lparr>cType = ConditionReady, cStatus = cs, cReason = (if reason \<noteq> [] then reason else cr),
          cMessage = message, cObservedGeneration = 0\<rparr>)"

definition projectReady :: "conditionRecord \<Rightarrow> Condition \<Rightarrow> StatusInfo" where
  "projectReady r c =
     \<lparr>infoStatus = (if cStatus c = ConditionTrue then StatusReady
                    else if cStatus c = ConditionFalse then StatusFailed else StatusPending),
      infoReason = cReason c, infoMessage = cMessage c,
      infoFailure = (if cStatus c = ConditionFalse then rfailure r else None),
      infoApplying = applyingObjects r\<rparr>"

fun firstOfType :: "string \<Rightarrow> Condition list \<Rightarrow> Condition option" where
  "firstOfType t [] = None"
| "firstOfType t (c # cs) = (if cType c \<noteq> t then firstOfType t cs else Some c)"

definition statusInfo :: "conditionRecord \<Rightarrow> StatusInfo option" where
  "statusInfo r = map_option (projectReady r) (firstOfType ConditionReady (conditions r))"

definition clearApplyingMessage :: "Condition \<Rightarrow> bool \<Rightarrow> int \<Rightarrow> Condition" where
  "clearApplyingMessage cond ready objects =
     (if ready \<and> objects \<noteq> 0 then cond\<lparr>cMessage := []\<rparr> else cond)"

definition conditionChanged :: "conditionRecord \<Rightarrow> Condition \<Rightarrow> Condition \<Rightarrow> bool \<Rightarrow> int \<Rightarrow> bool" where
  "conditionChanged r previous cond ready objects =
     (let messageChanged = (if ready then \<not> sameMessage (cMessage previous) (applyingObjects r) (cMessage cond) objects
                            else cMessage previous \<noteq> cMessage cond)
      in messageChanged \<or> cStatus previous \<noteq> cStatus cond \<or> cReason previous \<noteq> cReason cond \<or>
         cObservedGeneration previous \<noteq> cObservedGeneration cond)"

definition retainsFailure :: "dependencyFailure option \<Rightarrow> bool \<Rightarrow> Condition \<Rightarrow> Condition \<Rightarrow> bool" where
  "retainsFailure failure failureChanged previous cond \<longleftrightarrow>
     failure \<noteq> None \<and> \<not> failureChanged \<and> cStatus previous = cStatus cond \<and> cReason previous = cReason cond"

definition conditionEqual :: "Condition \<Rightarrow> Condition \<Rightarrow> bool" where
  "conditionEqual a b \<longleftrightarrow> cType a = cType b \<and> cStatus a = cStatus b \<and> cReason a = cReason b \<and>
     cMessage a = cMessage b \<and> cObservedGeneration a = cObservedGeneration b"

text \<open>
  \<^verbatim>\<open>advanceLocked\<close> on the record's stamp: \<open>None\<close> is the panic at the last generation. A record without a
  state has no stamp to advance; \<open>initializeConditionsLocked\<close> creates one at generation zero, and
  panics when the shard's registrations of absent resources (\<open>canAdmit\<close>) cannot take the transition.
\<close>

definition advance :: "conditionRecord \<Rightarrow> conditionRecord option" where
  "advance r = (case rstate r of
     None \<Rightarrow> None
   | Some gen \<Rightarrow> if gen = -1 then None else Some (r\<lparr>rstate := Some (gen + 1)\<rparr>))"

definition initializeConditions :: "bool \<Rightarrow> conditionRecord \<Rightarrow> conditionRecord option" where
  "initializeConditions canAdmit r =
     (if rstate r = None
      then if canAdmit then Some (r\<lparr>rstate := Some 0, conditions := []\<rparr>) else None
      else Some r)"

fun indexOfType :: "string \<Rightarrow> Condition list \<Rightarrow> nat option" where
  "indexOfType t [] = None"
| "indexOfType t (c # cs) = (if cType c \<noteq> t then map_option Suc (indexOfType t cs) else Some 0)"

definition setConditionLocked ::
  "bool \<Rightarrow> Condition \<Rightarrow> int \<Rightarrow> dependencyFailure option \<Rightarrow> conditionRecord \<Rightarrow> (conditionRecord \<times> bool) option" where
  "setConditionLocked canAdmit cond0 objects failure r =
     (let ready = (cType cond0 = ConditionReady);
          objectsChanged = (ready \<and> applyingObjects r \<noteq> objects);
          cond = clearApplyingMessage cond0 ready objects;
          failureChanged = (ready \<and> \<not> sameFailure (rfailure r) failure)
      in case indexOfType (cType cond) (conditions r) of
           Some i \<Rightarrow>
             (let previous = conditions r ! i;
                  changed = conditionChanged r previous cond ready objects
              in if retainsFailure failure failureChanged previous cond then Some (r, False)
                 else case (if changed \<or> failureChanged then advance r else Some r) of
                     None \<Rightarrow> None
                   | Some r \<Rightarrow>
                       let r = (if changed \<or> objectsChanged
                                then r\<lparr>conditions := (conditions r)[i := cond]\<rparr> else r);
                           r = (if failureChanged \<or> objectsChanged
                                then r\<lparr>rfailure := failure, applyingObjects := objects\<rparr> else r)
                       in Some (r, changed \<or> failureChanged))
         | None \<Rightarrow>
             (case Option.bind (initializeConditions canAdmit r) advance of
                None \<Rightarrow> None
              | Some r \<Rightarrow>
                  let r = (if failureChanged then r\<lparr>rfailure := failure\<rparr> else r);
                      r = (if ready then r\<lparr>applyingObjects := objects\<rparr> else r)
                  in Some (r\<lparr>conditions := conditions r @ [cond]\<rparr>, True)))"

definition project :: "conditionRecord \<Rightarrow> Condition list" where
  "project r = map (\<lambda>c. if applyingObjects r \<noteq> 0 \<and> cType c = ConditionReady
     then c\<lparr>cMessage := appendApplying (applyingObjects r)\<rparr> else c) (conditions r)"

section \<open>Store operations\<close>

text \<open>
  The part of a shard that statuses live in. \<open>hiddenCells\<close> are the identities whose cell is hidden; in a
  derived shard their status is not visible and their transitions are not announced. An operation
  returns the shard and the announced event, the projection of the record it wrote.
\<close>

record statusShard =
  shConditions :: "(NamedResource, conditionRecord) gomap"
  shDerived :: bool
  hiddenCells :: "NamedResource list"

definition recordOf :: "statusShard \<Rightarrow> NamedResource \<Rightarrow> conditionRecord" where
  "recordOf sh n = (case map_of (shConditions sh) n of None \<Rightarrow> zeroRecord | Some r \<Rightarrow> r)"

definition concealed :: "statusShard \<Rightarrow> NamedResource \<Rightarrow> bool" where
  "concealed sh n \<longleftrightarrow> shDerived sh \<and> n \<in> set (hiddenCells sh)"

definition setCondition ::
  "bool \<Rightarrow> NamedResource \<Rightarrow> Condition \<Rightarrow> int \<Rightarrow> dependencyFailure option \<Rightarrow> statusShard
     \<Rightarrow> (statusShard \<times> (NamedResource \<times> StatusInfo) option) option" where
  "setCondition canAdmit n cond objects failure sh =
     (case setConditionLocked canAdmit cond objects failure (recordOf sh n) of
        None \<Rightarrow> None
      | Some (updated, changed) \<Rightarrow>
          let sh' = sh\<lparr>shConditions := gput n updated (shConditions sh)\<rparr>
          in if \<not> changed \<or> concealed sh n then Some (sh', None)
             else Some (sh', Some (n, (case statusInfo updated of None \<Rightarrow> zeroInfo | Some i \<Rightarrow> i))))"

definition updateStatus where
  "updateStatus canAdmit n info sh =
     setCondition canAdmit n (readyCondition (infoStatus info) (infoReason info) (infoMessage info))
       (infoApplying info) None sh"

text \<open>\<open>dep\<close> is the \<open>DependencyFailedError\<close> found in the error's chain, \<open>message\<close> its text.\<close>

definition updateFailure where
  "updateFailure canAdmit n message dep sh =
     setCondition canAdmit n (readyCondition StatusFailed [] message) 0
       (Option.bind dep newDependencyFailure) sh"

definition setConditionOp where
  "setConditionOp canAdmit n cond sh = setCondition canAdmit n cond 0 None sh"

definition getStatus :: "statusShard \<Rightarrow> NamedResource \<Rightarrow> StatusInfo option" where
  "getStatus sh n = (if concealed sh n then None else statusInfo (recordOf sh n))"

definition reportStatus :: "(NamedResource \<Rightarrow> bool) \<Rightarrow> statusShard \<Rightarrow> NamedResource \<Rightarrow> StatusInfo \<times> bool" where
  "reportStatus hiddenFromReports sh n =
     (if concealed sh n then (zeroInfo, hiddenFromReports n)
      else ((case statusInfo (recordOf sh n) of None \<Rightarrow> zeroInfo | Some i \<Rightarrow> i), hiddenFromReports n))"

definition failedResources :: "(NamedResource \<Rightarrow> bool) \<Rightarrow> statusShard list \<Rightarrow> (NamedResource, StatusInfo) gomap" where
  "failedResources present shards =
     fold (\<lambda>(n, r) out. case statusInfo r of
         Some i \<Rightarrow> if present n \<and> infoStatus i = StatusFailed then gput n i out else out
       | None \<Rightarrow> out) (concat (map shConditions shards)) []"

section \<open>Facts about messages and provenance\<close>

lemma appendApplying_inject [simp]: "appendApplying a = appendApplying b \<longleftrightarrow> a = b"
  by (simp add: appendApplying_def)

lemma sameMessage_iff: "sameMessage l lo r ro \<longleftrightarrow> visible l lo = visible r ro"
  by (auto simp: sameMessage_def visible_def Let_def)

lemma infoString_visible: "infoString i = visible (infoMessage i) (infoApplying i)"
  by (simp add: infoString_def visible_def)

lemma sameFailure_iff: "sameFailure f g \<longleftrightarrow> map_option (map causeID) f = map_option (map causeID) g"
  by (cases f; cases g) (auto simp: list_all_length list_eq_iff_nth_eq)

lemma indexOfType_None: "indexOfType t cs = None \<longleftrightarrow> t \<notin> cType ` set cs"
  by (induction cs) auto

lemma indexOfType_Some:
  "indexOfType t cs = Some i \<Longrightarrow> i < length cs \<and> cType (cs ! i) = t \<and> (\<forall>j < i. cType (cs ! j) \<noteq> t)"
proof (induction cs arbitrary: i)
  case (Cons c cs)
  show ?case
  proof (cases "cType c = t")
    case False
    with Cons.prems obtain k where k: "indexOfType t cs = Some k" "i = Suc k" by auto
    with Cons.IH[OF k(1)] False show ?thesis by (auto simp: nth_Cons split: nat.splits)
  qed (use Cons.prems in auto)
qed simp

lemma firstOfType_index: "firstOfType t cs = map_option ((!) cs) (indexOfType t cs)"
  by (induction cs) (auto simp: option.map_comp comp_def)

lemma firstOfType_update:
  assumes "indexOfType t cs = Some i" and "cType c = t"
  shows "firstOfType t (cs[i := c]) = Some c"
  using assms
proof (induction cs arbitrary: i)
  case (Cons d cs)
  then show ?case by (cases i) (auto split: if_splits)
qed simp

lemma firstOfType_append:
  "firstOfType t (cs @ [c]) = (case firstOfType t cs of Some d \<Rightarrow> Some d | None \<Rightarrow> if cType c = t then Some c else None)"
  by (induction cs) auto

lemma firstOfType_None: "firstOfType t cs = None \<longleftrightarrow> t \<notin> cType ` set cs"
  by (induction cs) auto

lemma cType_clear [simp]: "cType (clearApplyingMessage c b n) = cType c"
  by (simp add: clearApplyingMessage_def)

lemma clear_fields [simp]:
  "cStatus (clearApplyingMessage c b n) = cStatus c" "cReason (clearApplyingMessage c b n) = cReason c"
  "cObservedGeneration (clearApplyingMessage c b n) = cObservedGeneration c"
  by (simp_all add: clearApplyingMessage_def)

lemma visible_clear: "visible (cMessage (clearApplyingMessage c True n)) n = visible (cMessage c) n"
  by (simp add: visible_def clearApplyingMessage_def)

section \<open>One upsert\<close>

lemma setConditionLocked_cases:
  assumes "setConditionLocked canAdmit cond0 objects failure r = Some (r', ch)"
    and "ready = (cType cond0 = ConditionReady)" and "cond = clearApplyingMessage cond0 ready objects"
    and "failureChanged = (ready \<and> \<not> sameFailure (rfailure r) failure)"
    and "objectsChanged = (ready \<and> applyingObjects r \<noteq> objects)"
  obtains
    (retain) i where "indexOfType (cType cond0) (conditions r) = Some i" "r' = r" "\<not> ch"
      "retainsFailure failure failureChanged (conditions r ! i) cond"
  | (update) i where "indexOfType (cType cond0) (conditions r) = Some i"
      "\<not> retainsFailure failure failureChanged (conditions r ! i) cond"
      "ch = (conditionChanged r (conditions r ! i) cond ready objects \<or> failureChanged)"
      "ch \<Longrightarrow> \<exists>gen. rstate r = Some gen \<and> gen \<noteq> -1 \<and> rstate r' = Some (gen + 1)"
      "\<not> ch \<Longrightarrow> rstate r' = rstate r"
      "conditions r' = (if conditionChanged r (conditions r ! i) cond ready objects \<or> objectsChanged
         then (conditions r)[i := cond] else conditions r)"
      "rfailure r' = (if failureChanged \<or> objectsChanged then failure else rfailure r)"
      "applyingObjects r' = (if ready then objects else applyingObjects r)"
  | (append) gen where "indexOfType (cType cond0) (conditions r) = None" "ch"
      "rstate r' = Some (gen + 1)" "gen \<noteq> -1" "rstate r = Some gen \<or> rstate r = None \<and> gen = 0"
      "conditions r' = (if rstate r = None then [] else conditions r) @ [cond]"
      "rfailure r' = (if failureChanged then failure else rfailure r)"
      "applyingObjects r' = (if ready then objects else applyingObjects r)"
proof (cases "indexOfType (cType cond0) (conditions r)")
  case (Some i)
  define changed where "changed = conditionChanged r (conditions r ! i) cond ready objects"
  show ?thesis
  proof (cases "retainsFailure failure failureChanged (conditions r ! i) cond")
    case True
    with assms Some have "r' = r" "\<not> ch" by (simp_all add: setConditionLocked_def Let_def)
    with Some True show ?thesis by (intro retain)
  next
    case False
    have "\<exists>r1. (if changed \<or> failureChanged then advance r else Some r) = Some r1 \<and>
        r' = (let r1 = (if changed \<or> objectsChanged then r1\<lparr>conditions := (conditions r1)[i := cond]\<rparr> else r1)
              in if failureChanged \<or> objectsChanged then r1\<lparr>rfailure := failure, applyingObjects := objects\<rparr> else r1) \<and>
        ch = (changed \<or> failureChanged)"
      using assms Some False by (auto simp: setConditionLocked_def Let_def changed_def split: option.splits)
    then obtain r1 where r1: "(if changed \<or> failureChanged then advance r else Some r) = Some r1"
      and r': "r' = (let r1 = (if changed \<or> objectsChanged then r1\<lparr>conditions := (conditions r1)[i := cond]\<rparr> else r1)
              in if failureChanged \<or> objectsChanged then r1\<lparr>rfailure := failure, applyingObjects := objects\<rparr> else r1)"
      and ch: "ch = (changed \<or> failureChanged)" by blast
    have frame: "conditions r1 = conditions r" "rfailure r1 = rfailure r" "applyingObjects r1 = applyingObjects r"
      using r1 by (auto simp: advance_def split: if_splits option.splits)
    show ?thesis
    proof (rule update[OF Some False])
      show "ch = (conditionChanged r (conditions r ! i) cond ready objects \<or> failureChanged)"
        by (simp add: ch changed_def)
      show "\<exists>gen. rstate r = Some gen \<and> gen \<noteq> -1 \<and> rstate r' = Some (gen + 1)" if ch
        using that r1 ch by (auto simp: r' Let_def advance_def split: if_splits option.splits)
      show "rstate r' = rstate r" if "\<not> ch" using that r1 ch by (auto simp: r' Let_def split: if_splits)
      show "conditions r' = (if conditionChanged r (conditions r ! i) cond ready objects \<or> objectsChanged
         then (conditions r)[i := cond] else conditions r)"
        by (simp add: r' Let_def frame flip: changed_def)
      show "rfailure r' = (if failureChanged \<or> objectsChanged then failure else rfailure r)"
        by (simp add: r' Let_def frame)
      show "applyingObjects r' = (if ready then objects else applyingObjects r)"
        using assms(4,5) by (auto simp: r' Let_def frame)
    qed
  qed
next
  case None
  then obtain r1 r2 where r1: "initializeConditions canAdmit r = Some r1" and r2: "advance r1 = Some r2"
    and r': "r' = (let r2 = (if failureChanged then r2\<lparr>rfailure := failure\<rparr> else r2);
                       r2 = (if ready then r2\<lparr>applyingObjects := objects\<rparr> else r2)
                   in r2\<lparr>conditions := conditions r2 @ [cond]\<rparr>)" and ch: ch
    using assms by (auto simp: setConditionLocked_def Let_def bind_eq_Some_conv split: option.splits)
  from r2 obtain gen where gen: "rstate r1 = Some gen" "gen \<noteq> -1" "r2 = r1\<lparr>rstate := Some (gen + 1)\<rparr>"
    by (auto simp: advance_def split: if_splits option.splits)
  show ?thesis
    by (rule append[OF None ch, of gen]) (use r1 gen in \<open>auto simp: r' Let_def initializeConditions_def split: if_splits\<close>)
qed

definition record_ok :: "conditionRecord \<Rightarrow> bool" where
  "record_ok r \<longleftrightarrow> distinct (map cType (conditions r)) \<and>
     (rstate r = None \<longrightarrow> conditions r = [] \<and> rfailure r = None \<and> applyingObjects r = 0)"

text \<open>What a reader of a record can see: the projected conditions and the blocking dependencies.\<close>

definition observe :: "conditionRecord \<Rightarrow> Condition list \<times> NamedResource list option" where
  "observe r = (project r, map_option (map causeID) (rfailure r))"

definition visCond :: "int \<Rightarrow> Condition \<Rightarrow> Condition" where
  "visCond objects c = (if objects \<noteq> 0 \<and> cType c = ConditionReady
     then c\<lparr>cMessage := appendApplying objects\<rparr> else c)"

lemma project_visCond: "project r = map (visCond (applyingObjects r)) (conditions r)"
  by (simp add: project_def visCond_def)

lemma visCond_eq:
  assumes "cType a = cType b"
  shows "visCond p a = visCond q b \<longleftrightarrow>
    cStatus a = cStatus b \<and> cReason a = cReason b \<and> cObservedGeneration a = cObservedGeneration b \<and>
    (if cType a = ConditionReady then visible (cMessage a) p = visible (cMessage b) q else cMessage a = cMessage b)"
  using assms by (cases a; cases b) (auto simp: visCond_def visible_def)

lemma visCond_other: "cType c \<noteq> ConditionReady \<Longrightarrow> visCond p c = c"
  by (simp add: visCond_def)

lemma conditionChanged_iff:
  assumes "cType previous = cType cond"
  shows "conditionChanged r previous cond (cType cond = ConditionReady) objects \<longleftrightarrow>
    visCond (applyingObjects r) previous \<noteq> visCond objects cond"
  using visCond_eq[OF assms, of "applyingObjects r" objects] assms
  by (auto simp: conditionChanged_def Let_def sameMessage_iff)

lemma map_visCond_update:
  assumes "i < length cs" and "distinct (map cType cs)" and "cType c = cType (cs ! i)"
    and "cType c \<noteq> ConditionReady \<Longrightarrow> p = q"
  shows "map (visCond q) (cs[i := c]) = map (visCond p) cs \<longleftrightarrow> visCond q c = visCond p (cs ! i)"
proof -
  have other: "visCond q (cs ! j) = visCond p (cs ! j)" if "j < length cs" "j \<noteq> i" for j
  proof (cases "cType c = ConditionReady")
    case True
    have "cType (cs ! j) \<noteq> cType (cs ! i)"
      using assms(1,2) that by (metis length_map nth_eq_iff_index_eq nth_map)
    with True assms(3) show ?thesis by (simp add: visCond_other)
  qed (use assms(4) in simp)
  show ?thesis
  proof
    assume eq: "map (visCond q) (cs[i := c]) = map (visCond p) cs"
    show "visCond q c = visCond p (cs ! i)" using arg_cong[OF eq, of "\<lambda>xs. xs ! i"] assms(1) by simp
  next
    assume "visCond q c = visCond p (cs ! i)"
    with other assms(1) show "map (visCond q) (cs[i := c]) = map (visCond p) cs"
      by (auto simp: list_eq_iff_nth_eq nth_list_update)
  qed
qed

lemma setConditionLocked_observe:
  assumes "record_ok r" and "setConditionLocked canAdmit cond0 objects failure r = Some (r', ch)"
  shows "(ch \<longleftrightarrow> observe r' \<noteq> observe r) \<and> record_ok r'"
proof -
  define ready where "ready = (cType cond0 = ConditionReady)"
  define cond where "cond = clearApplyingMessage cond0 ready objects"
  define fc where "fc = (ready \<and> \<not> sameFailure (rfailure r) failure)"
  define oc where "oc = (ready \<and> applyingObjects r \<noteq> objects)"
  have ty: "cType cond = cType cond0" by (simp add: cond_def)
  have dist: "distinct (map cType (conditions r))" using assms(1) by (simp add: record_ok_def)
  from assms(2) ready_def cond_def fc_def oc_def show ?thesis
  proof (cases rule: setConditionLocked_cases)
    case retain
    with assms(1) show ?thesis by simp
  next
    case (update i)
    define changed where "changed = conditionChanged r (conditions r ! i) cond ready objects"
    note idx = indexOfType_Some[OF update(1)]
    have ap: "applyingObjects r' = (if ready then objects else applyingObjects r)" by (rule update(8))
    have chg: "changed \<longleftrightarrow> visCond (applyingObjects r') cond \<noteq> visCond (applyingObjects r) (conditions r ! i)"
      using conditionChanged_iff[of "conditions r ! i" cond r objects] idx
        visCond_other[of cond] visCond_other[of "conditions r ! i"]
      by (auto simp: changed_def ready_def ty ap)
    have proj: "project r' = project r \<longleftrightarrow> \<not> changed"
    proof (cases "changed \<or> oc")
      case True
      then have "conditions r' = (conditions r)[i := cond]" using update(6) by (simp add: changed_def)
      then show ?thesis
        using map_visCond_update[of i "conditions r" cond "applyingObjects r" "applyingObjects r'"] idx dist chg
        by (simp add: project_visCond ty ap ready_def)
    next
      case False
      then show ?thesis using update(6) ap by (auto simp: project_visCond changed_def oc_def)
    qed
    have ids: "map_option (map causeID) (rfailure r') = map_option (map causeID) (rfailure r) \<longleftrightarrow> \<not> fc"
      using update(7) sameFailure_iff[of "rfailure r" failure] by (auto simp: fc_def oc_def)
    have "map cType (conditions r') = map cType (conditions r)"
      using update(6) idx ty by (auto simp: map_update list_update_same_conv)
    moreover have "conditions r \<noteq> []" using idx by auto
    ultimately have "record_ok r'"
      using assms(1) update(4,5) dist by (cases ch) (auto simp: record_ok_def)
    then show ?thesis using proj ids update(3) by (auto simp: observe_def changed_def)
  next
    case (append gen)
    have old: "(if rstate r = None then [] else conditions r) = conditions r"
      using assms(1) by (auto simp: record_ok_def)
    have "length (project r') \<noteq> length (project r)"
      using append(6) unfolding old by (simp add: project_def)
    then have "observe r' \<noteq> observe r" by (auto simp: observe_def)
    moreover have "record_ok r'"
      using append(1,3,6) dist unfolding old by (auto simp: record_ok_def indexOfType_None ty)
    ultimately show ?thesis using append(2) by simp
  qed
qed

text \<open>
  Provenance is only kept with the failure it explains: a record that names blockers has a Ready
  condition that failed for the plain reason, the one \<open>updateFailure\<close> writes.
\<close>

definition failure_ok :: "conditionRecord \<Rightarrow> bool" where
  "failure_ok r \<longleftrightarrow> (rfailure r \<noteq> None \<longrightarrow>
     (\<exists>c. firstOfType ConditionReady (conditions r) = Some c \<and> cStatus c = ConditionFalse \<and> cReason c = ReasonFailed))"

definition failure_call :: "Condition \<Rightarrow> dependencyFailure option \<Rightarrow> bool" where
  "failure_call cond failure \<longleftrightarrow> (failure \<noteq> None \<longrightarrow>
     cType cond = ConditionReady \<and> cStatus cond = ConditionFalse \<and> cReason cond = ReasonFailed)"

lemma sameFailure_None: "sameFailure f g \<Longrightarrow> f = None \<longleftrightarrow> g = None"
  by (cases f; cases g) auto

lemma firstOfType_other:
  assumes "cType c \<noteq> t" and "cType (cs ! i) \<noteq> t" and "i < length cs"
  shows "firstOfType t (cs[i := c]) = firstOfType t cs"
  using assms
proof (induction cs arbitrary: i)
  case (Cons d cs)
  then show ?case by (cases i) auto
qed simp

definition retained :: "Condition \<Rightarrow> dependencyFailure option \<Rightarrow> conditionRecord \<Rightarrow> bool" where
  "retained cond failure r \<longleftrightarrow> failure \<noteq> None \<and> sameFailure (rfailure r) failure \<and>
     (\<exists>d. firstOfType ConditionReady (conditions r) = Some d \<and> cStatus d = cStatus cond \<and> cReason d = cReason cond)"

lemma ready_after:
  assumes "setConditionLocked canAdmit cond0 objects failure r = Some (r', ch)"
    and "record_ok r" and "cType cond0 = ConditionReady"
  obtains (kept) c where "firstOfType ConditionReady (conditions r) = Some c" "r' = r" "failure \<noteq> None"
      "sameFailure (rfailure r) failure" "cStatus c = cStatus cond0" "cReason c = cReason cond0"
  | (written) c where "firstOfType ConditionReady (conditions r') = Some c" "cStatus c = cStatus cond0"
      "cReason c = cReason cond0" "visible (cMessage c) objects = visible (cMessage cond0) objects"
      "applyingObjects r' = objects" "sameFailure (rfailure r') failure"
      "rfailure r' = failure \<or> rfailure r' = rfailure r \<and> sameFailure (rfailure r) failure"
      "\<not> retained cond0 failure r"
  using assms(1) refl refl refl refl
proof (cases rule: setConditionLocked_cases)
  case (retain i)
  then show ?thesis
    using assms(3) by (intro kept[of "conditions r ! i"]) (auto simp: firstOfType_index retainsFailure_def)
next
  case (update i)
  define cond where "cond = clearApplyingMessage cond0 True objects"
  define changed where "changed = conditionChanged r (conditions r ! i) cond True objects"
  note idx = indexOfType_Some[OF update(1)] and i = update(1)[unfolded assms(3)]
  have first: "firstOfType ConditionReady (conditions r) = Some (conditions r ! i)"
    by (simp add: firstOfType_index i)
  have vis: "visible (cMessage cond) objects = visible (cMessage cond0) objects"
    by (simp add: cond_def visible_clear)
  let ?c = "if changed \<or> applyingObjects r \<noteq> objects then cond else conditions r ! i"
  have now: "firstOfType ConditionReady (conditions r') = Some ?c"
    using update(6) firstOfType_update[OF i, of cond] first
    by (auto simp: assms(3) changed_def cond_def)
  have same: "cStatus ?c = cStatus cond0 \<and> cReason ?c = cReason cond0 \<and>
      visible (cMessage ?c) objects = visible (cMessage cond0) objects"
    using vis by (auto simp: changed_def conditionChanged_def sameMessage_iff cond_def)
  show ?thesis
  proof (rule written[OF now])
    show "sameFailure (rfailure r') failure" using update(7) assms(3) by (auto simp: sameFailure_iff)
    show "rfailure r' = failure \<or> rfailure r' = rfailure r \<and> sameFailure (rfailure r) failure"
      using update(7) assms(3) by (auto simp: sameFailure_iff)
    show "\<not> retained cond0 failure r"
      using update(2) first assms(3) by (auto simp: retained_def retainsFailure_def)
  qed (use same update(8) assms(3) in auto)
next
  case (append gen)
  have none: "firstOfType ConditionReady (conditions r) = None"
    using append(1) assms(3) by (simp add: firstOfType_None indexOfType_None)
  have old: "(if rstate r = None then [] else conditions r) = conditions r"
    using assms(2) by (auto simp: record_ok_def)
  have now: "firstOfType ConditionReady (conditions r') = Some (clearApplyingMessage cond0 True objects)"
    using append(6) none assms(3) unfolding old by (simp add: firstOfType_append)
  show ?thesis
    by (rule written[OF now]) (use append(7,8) assms(3) none in \<open>auto simp: visible_clear sameFailure_iff retained_def\<close>)
qed

lemma written_failure:
  assumes "failure_ok r" and "failure_call cond0 failure"
    and "rfailure r' = failure \<or> rfailure r' = rfailure r \<and> sameFailure (rfailure r) failure"
    and "\<not> retained cond0 failure r"
  shows "rfailure r' = failure"
proof (cases "failure = None")
  case True
  with assms(3) sameFailure_None[of "rfailure r" failure] show ?thesis by auto
next
  case False
  with assms sameFailure_None[of "rfailure r" failure] show ?thesis
    by (auto simp: failure_ok_def failure_call_def retained_def)
qed

lemma failure_ok_set:
  assumes "setConditionLocked canAdmit cond0 objects failure r = Some (r', ch)"
    and "record_ok r" and "failure_ok r" and "failure_call cond0 failure"
  shows "failure_ok r'"
proof (cases "cType cond0 = ConditionReady")
  case True
  show ?thesis
  proof (cases rule: ready_after[OF assms(1,2) True, case_names kept written])
    case (kept c)
    with assms(3) show ?thesis by simp
  next
    case (written c)
    with written_failure[OF assms(3,4) written(7,8)] assms(4) show ?thesis
      by (auto simp: failure_ok_def failure_call_def)
  qed
next
  case False
  from assms(1) refl refl refl refl show ?thesis
  proof (cases rule: setConditionLocked_cases)
    case retain
    with assms(3) show ?thesis by simp
  next
    case (update i)
    note idx = indexOfType_Some[OF update(1)]
    have "firstOfType ConditionReady (conditions r') = firstOfType ConditionReady (conditions r)"
      using update(6) idx False by (auto simp: firstOfType_other)
    moreover have "rfailure r' = rfailure r" using update(7) False by simp
    ultimately show ?thesis using assms(3) by (simp add: failure_ok_def)
  next
    case (append gen)
    have "(if rstate r = None then [] else conditions r) = conditions r"
      using assms(2) by (auto simp: record_ok_def)
    then have "firstOfType ConditionReady (conditions r') = firstOfType ConditionReady (conditions r)"
      using append(6) False by (auto simp: firstOfType_append split: option.splits)
    moreover have "rfailure r' = rfailure r" using append(7) False by simp
    ultimately show ?thesis using assms(3) by (simp add: failure_ok_def)
  qed
qed

section \<open>Histories of a shard\<close>

datatype statusOp =
  UpdateStatus NamedResource StatusInfo
| UpdateFailure NamedResource string "DependencyFailedError option"
| SetCondition NamedResource Condition

fun opTarget :: "statusOp \<Rightarrow> NamedResource" where
  "opTarget (UpdateStatus n _) = n"
| "opTarget (UpdateFailure n _ _) = n"
| "opTarget (SetCondition n _) = n"

fun applyOp :: "bool \<Rightarrow> statusOp \<Rightarrow> statusShard \<Rightarrow> (statusShard \<times> (NamedResource \<times> StatusInfo) option) option" where
  "applyOp canAdmit (UpdateStatus n info) sh = updateStatus canAdmit n info sh"
| "applyOp canAdmit (UpdateFailure n message dep) sh = updateFailure canAdmit n message dep sh"
| "applyOp canAdmit (SetCondition n cond) sh = setConditionOp canAdmit n cond sh"

fun runOps :: "(bool \<times> statusOp) list \<Rightarrow> statusShard \<Rightarrow> statusShard option" where
  "runOps [] sh = Some sh"
| "runOps ((canAdmit, op) # ops) sh =
     (case applyOp canAdmit op sh of None \<Rightarrow> None | Some (sh', ev) \<Rightarrow> runOps ops sh')"

definition emptyShard :: "bool \<Rightarrow> NamedResource list \<Rightarrow> statusShard" where
  "emptyShard d hidden = \<lparr>shConditions = [], shDerived = d, hiddenCells = hidden\<rparr>"

definition shard_ok :: "statusShard \<Rightarrow> bool" where
  "shard_ok sh \<longleftrightarrow> gok (shConditions sh) \<and> (\<forall>n. record_ok (recordOf sh n) \<and> failure_ok (recordOf sh n))"

lemma applyOp_setCondition:
  "\<exists>cond objects failure. applyOp canAdmit op sh = setCondition canAdmit (opTarget op) cond objects failure sh \<and>
     failure_call cond failure"
  by (cases op) (auto simp: updateStatus_def updateFailure_def setConditionOp_def failure_call_def readyCondition_def
      split: option.splits intro!: exI)

lemma setCondition_Some:
  assumes "setCondition canAdmit n cond objects failure sh = Some (sh', ev)" and "gok (shConditions sh)"
  obtains r' ch where "setConditionLocked canAdmit cond objects failure (recordOf sh n) = Some (r', ch)"
    "recordOf sh' m = (if m = n then r' else recordOf sh m)" "concealed sh' m = concealed sh m"
    "gok (shConditions sh')"
    "ev = (if ch \<and> \<not> concealed sh n then Some (n, (case statusInfo r' of None \<Rightarrow> zeroInfo | Some i \<Rightarrow> i)) else None)"
  using assms
  by (auto simp: setCondition_def Let_def recordOf_def concealed_def map_of_gput gok_gput
      split: option.splits prod.splits if_splits)

lemma recordOf_set:
  assumes "setCondition canAdmit n cond objects failure sh = Some (sh', ev)" and "gok (shConditions sh)"
  shows "recordOf sh' m = (if m = n then recordOf sh' n else recordOf sh m)"
    and "concealed sh' m = concealed sh m"
  using assms
  by (auto simp: setCondition_def Let_def recordOf_def concealed_def map_of_gput split: option.splits prod.splits if_splits)

lemma shard_ok_set:
  assumes "shard_ok sh" and "setCondition canAdmit n cond objects failure sh = Some (sh', ev)"
    and "failure_call cond failure"
  shows "shard_ok sh'"
proof -
  have gok: "gok (shConditions sh)" using assms(1) by (simp add: shard_ok_def)
  obtain r' ch where
    r': "setConditionLocked canAdmit cond objects failure (recordOf sh n) = Some (r', ch)"
      "recordOf sh' n = r'" "gok (shConditions sh')"
    by (rule setCondition_Some[OF assms(2) gok, of n]) auto
  have "record_ok r' \<and> failure_ok r'"
    using setConditionLocked_observe[OF _ r'(1)] failure_ok_set[OF r'(1) _ _ assms(3)] assms(1)
    by (simp add: shard_ok_def)
  then show ?thesis
    using assms(1) r'(2,3) recordOf_set(1)[OF assms(2) gok] unfolding shard_ok_def by metis
qed

lemma shard_ok_run: "shard_ok sh \<Longrightarrow> runOps ops sh = Some sh' \<Longrightarrow> shard_ok sh'"
proof (induction ops arbitrary: sh)
  case (Cons op ops)
  obtain ca o' where op: "op = (ca, o')" by force
  from Cons.prems(2) op obtain sh1 ev where sh1: "applyOp ca o' sh = Some (sh1, ev)" "runOps ops sh1 = Some sh'"
    by (auto split: option.splits)
  obtain cond objects failure where "applyOp ca o' sh = setCondition ca (opTarget o') cond objects failure sh"
    "failure_call cond failure" using applyOp_setCondition by blast
  with sh1 shard_ok_set Cons.prems(1) have "shard_ok sh1" by metis
  then show ?case using sh1(2) by (rule Cons.IH)
qed simp

lemma shard_ok_empty: "shard_ok (emptyShard d h)"
  by (auto simp: shard_ok_def emptyShard_def recordOf_def zeroRecord_def record_ok_def failure_ok_def)

lemmas shard_ok_history = shard_ok_run[OF shard_ok_empty]

section \<open>Properties\<close>

definition stamp :: "conditionRecord \<Rightarrow> nat" where
  "stamp r = (case rstate r of None \<Rightarrow> 0 | Some gen \<Rightarrow> unat gen)"

lemma stamp_step:
  assumes "setConditionLocked canAdmit cond objects failure r = Some (r', ch)"
  shows "stamp r' = stamp r + (if ch then 1 else 0)"
proof -
  have step: "unat (gen + 1) = unat gen + 1" if "gen \<noteq> -1" for gen :: "64 word"
    using that by (metis Suc_eq_plus1 add.commute add_eq_0_iff unatSuc)
  from assms refl refl refl refl show ?thesis
  proof (cases rule: setConditionLocked_cases)
    case (update i)
    then show ?thesis by (cases ch) (auto simp: stamp_def step)
  next
    case (append gen)
    with step[OF append(4)] show ?thesis by (auto simp: stamp_def)
  qed simp
qed

text \<open>
  C16. Change detection is exact over every history of a shard: an operation advances the authority
  generation of the resource, by exactly one and without wrapping, precisely when what readers can see
  of it changes (a visible condition or the set of blocking dependencies), and announces an event
  precisely then, unless the resource is concealed. A literal message that reads like a formatted
  object count is not a change.
\<close>

theorem status_change_detection:
  assumes "runOps ops (emptyShard d hidden) = Some sh" and "applyOp canAdmit op sh = Some (sh', ev)"
    and "n = opTarget op"
  shows "(stamp (recordOf sh' n) = stamp (recordOf sh n) + 1 \<longleftrightarrow> observe (recordOf sh' n) \<noteq> observe (recordOf sh n)) \<and>
    (stamp (recordOf sh' n) = stamp (recordOf sh n) \<longleftrightarrow> observe (recordOf sh' n) = observe (recordOf sh n)) \<and>
    (ev \<noteq> None \<longleftrightarrow> observe (recordOf sh' n) \<noteq> observe (recordOf sh n) \<and> \<not> concealed sh n)"
proof -
  have ok: "shard_ok sh" using assms(1) by (rule shard_ok_history)
  then have gok: "gok (shConditions sh)" and rec: "record_ok (recordOf sh n)" by (auto simp: shard_ok_def)
  obtain cond objects failure where "applyOp canAdmit op sh = setCondition canAdmit n cond objects failure sh"
    using applyOp_setCondition[of canAdmit op sh] assms(3) by blast
  with assms(2) have set: "setCondition canAdmit n cond objects failure sh = Some (sh', ev)" by simp
  obtain r' ch where r': "setConditionLocked canAdmit cond objects failure (recordOf sh n) = Some (r', ch)"
      "recordOf sh' n = r'"
      "ev = (if ch \<and> \<not> concealed sh n then Some (n, (case statusInfo r' of None \<Rightarrow> zeroInfo | Some i \<Rightarrow> i)) else None)"
    by (rule setCondition_Some[OF set gok, of n]) auto
  show ?thesis
    using stamp_step[OF r'(1)] setConditionLocked_observe[OF rec r'(1)] r'(2,3) by auto
qed

lemma getStatus_set:
  assumes "shard_ok sh" and "setCondition canAdmit n cond objects failure sh = Some (sh', ev)"
    and "failure_call cond failure" and "cType cond = ConditionReady" and "\<not> concealed sh n"
  obtains (kept) i where "getStatus sh' n = Some i" "getStatus sh n = Some i" "failure \<noteq> None"
      "infoStatus i = StatusFailed" "infoReason i = ReasonFailed" "sameFailure (infoFailure i) failure"
  | (written) i where "getStatus sh' n = Some i"
      "infoStatus i = (if cStatus cond = ConditionTrue then StatusReady
         else if cStatus cond = ConditionFalse then StatusFailed else StatusPending)"
      "infoReason i = cReason cond" "infoString i = visible (cMessage cond) objects"
      "infoFailure i = (if cStatus cond = ConditionFalse then failure else None)"
      "\<not> retained cond failure (recordOf sh n)"
proof -
  have gok: "gok (shConditions sh)" and rec: "record_ok (recordOf sh n)" "failure_ok (recordOf sh n)"
    using assms(1) by (auto simp: shard_ok_def)
  obtain r' ch where r': "setConditionLocked canAdmit cond objects failure (recordOf sh n) = Some (r', ch)"
      "recordOf sh' n = r'" "\<not> concealed sh' n"
    by (rule setCondition_Some[OF assms(2) gok, of n]) (use assms(5) in auto)
  show ?thesis
  proof (cases rule: ready_after[OF r'(1) rec(1) assms(4), case_names kept written])
    case (kept c)
    have "cStatus c = ConditionFalse" "cReason c = ReasonFailed"
      using kept(3,5,6) assms(3) by (auto simp: failure_call_def)
    with kept show ?thesis
      using r' assms(5) by (intro that(1)) (auto simp: getStatus_def statusInfo_def projectReady_def)
  next
    case (written c)
    note fail = written_failure[OF rec(2) assms(3) written(7,8)]
    show ?thesis
      by (rule that(2)[of "projectReady r' c"])
        (use written fail r' in \<open>auto simp: getStatus_def statusInfo_def projectReady_def infoString_visible\<close>)
  qed
qed

text \<open>
  C17. Reading back a status: after any history, \<open>UpdateStatus\<close> makes \<open>GetStatus\<close> of that resource return
  the status, the reason (or the default one) and the visible message just written, without stale
  failure provenance, and leaves every other resource alone.
\<close>

theorem updateStatus_readback:
  assumes "runOps ops (emptyShard d hidden) = Some sh" and "\<not> concealed sh n"
    and "infoStatus info \<in> {StatusPending, StatusReady, StatusFailed}"
    and "updateStatus canAdmit n info sh = Some (sh', ev)"
  shows "(\<exists>i. getStatus sh' n = Some i \<and> infoStatus i = infoStatus info \<and>
      infoReason i = cReason (readyCondition (infoStatus info) (infoReason info) []) \<and>
      infoString i = infoString info \<and> blockedBy i = [] \<and> outcome i \<noteq> OutcomeBlocked) \<and>
    (\<forall>m. m \<noteq> n \<longrightarrow> getStatus sh' m = getStatus sh m)"
proof -
  have ok: "shard_ok sh" using assms(1) by (rule shard_ok_history)
  let ?cond = "readyCondition (infoStatus info) (infoReason info) (infoMessage info)"
  have set: "setCondition canAdmit n ?cond (infoApplying info) None sh = Some (sh', ev)"
    using assms(4) by (simp add: updateStatus_def)
  have ready: "cType ?cond = ConditionReady" by (simp add: readyCondition_def split: prod.splits)
  have call: "failure_call ?cond None" by (simp add: failure_call_def)
  have other: "getStatus sh' m = getStatus sh m" if "m \<noteq> n" for m
    using recordOf_set[OF set, of m] ok that by (simp add: shard_ok_def getStatus_def)
  show ?thesis
  proof (cases rule: getStatus_set[OF ok set call ready assms(2), case_names kept written])
    case (written i)
    then have "infoStatus i = infoStatus info" "infoFailure i = None" "infoString i = infoString info"
      "infoReason i = cReason (readyCondition (infoStatus info) (infoReason info) [])"
      using assms(3) by (auto simp: readyCondition_def infoString_visible split: if_splits)
    with written(1) other show ?thesis by (auto simp: blockedBy_def outcome_def isDependencyFailure_def)
  qed simp
qed

lemma retained_status:
  assumes "getStatus sh n = Some j" and "infoStatus j = StatusFailed" and "infoReason j = ReasonFailed"
    and "blockedBy j = map causeID causes" and "causes \<noteq> []"
    and "cStatus cond = ConditionFalse" and "cReason cond = ReasonFailed"
  shows "retained cond (Some causes) (recordOf sh n)"
proof -
  obtain d where d: "firstOfType ConditionReady (conditions (recordOf sh n)) = Some d"
      "j = projectReady (recordOf sh n) d"
    using assms(1) by (auto simp: getStatus_def statusInfo_def split: if_splits)
  have st: "cStatus d = ConditionFalse" "cReason d = ReasonFailed"
    using assms(2,3) d(2) by (auto simp: projectReady_def split: if_splits)
  then have "blockedBy j = (case rfailure (recordOf sh n) of None \<Rightarrow> [] | Some cs \<Rightarrow> map causeID cs)"
    using d(2) by (simp add: blockedBy_def projectReady_def)
  then have "sameFailure (rfailure (recordOf sh n)) (Some causes)"
    using assms(4,5) by (auto simp: sameFailure_iff split: option.splits)
  with d(1) st assms(6,7) show ?thesis by (auto simp: retained_def)
qed

lemma newDependencyFailure_ids:
  assumes "depFailed e \<noteq> []"
  obtains causes where "newDependencyFailure e = Some causes" "causes \<noteq> []"
    "map causeID causes = sort (depFailed e)"
    "\<forall>c \<in> set causes. causeReason c = reasonFor (depReasons e) (causeID c)"
proof -
  let ?c = "\<lambda>n. \<lparr>causeID = n, causeReason = reasonFor (depReasons e) n\<rparr>"
  let ?cmp = "\<lambda>a b. compareResource (causeID a) (causeID b)"
  have ins: "map causeID (insertFunc ?cmp x xs) = insertFunc compareResource (causeID x) (map causeID xs)" for x xs
    by (induction xs) auto
  have srt: "map causeID (sortFunc ?cmp xs) = sortFunc compareResource (map causeID xs)" for xs
    by (induction xs) (auto simp: ins)
  show ?thesis
  proof (rule that[of "sortFunc ?cmp (map ?c (depFailed e))"])
    have "set (sortFunc ?cmp (map ?c (depFailed e))) \<noteq> {}" using assms by simp
    then show "sortFunc ?cmp (map ?c (depFailed e)) \<noteq> []" by fastforce
  qed (use assms in \<open>auto simp: newDependencyFailure_def srt comp_def sortFunc_compareResource\<close>)
qed

text \<open>
  C18. A dependency failure is recorded with its blockers: after any history, \<open>UpdateFailure\<close> leaves the
  resource blocked by exactly the failed dependencies, in order. When it was already failed by the
  same blockers the first captured diagnostic is kept untouched, so that mutually blocking resources
  do not grow each other's messages without bound; otherwise the new message and the new reasons are
  what readers see.
\<close>

theorem updateFailure_provenance:
  assumes "runOps ops (emptyShard d hidden) = Some sh" and "\<not> concealed sh n" and "depFailed e \<noteq> []"
    and "updateFailure canAdmit n message (Some e) sh = Some (sh', ev)"
  shows "\<exists>i. getStatus sh' n = Some i \<and> outcome i = OutcomeBlocked \<and> blockedBy i = sort (depFailed e) \<and>
    (if \<exists>j. getStatus sh n = Some j \<and> infoStatus j = StatusFailed \<and> infoReason j = ReasonFailed \<and>
          blockedBy j = sort (depFailed e)
     then getStatus sh n = Some i
     else infoString i = message \<and>
       (\<forall>subject. Causes (dependencyReason i subject) = map (reasonFor (depReasons e)) (blockedBy i)))"
proof -
  have ok: "shard_ok sh" using assms(1) by (rule shard_ok_history)
  let ?cond = "readyCondition StatusFailed [] message"
  obtain causes where causes: "newDependencyFailure e = Some causes" "causes \<noteq> []"
    "map causeID causes = sort (depFailed e)" "\<forall>c \<in> set causes. causeReason c = reasonFor (depReasons e) (causeID c)"
    using newDependencyFailure_ids[OF assms(3)] by blast
  have set: "setCondition canAdmit n ?cond 0 (Some causes) sh = Some (sh', ev)"
    using assms(4) causes(1) by (simp add: updateFailure_def)
  have cond: "cType ?cond = ConditionReady" "cStatus ?cond = ConditionFalse" "cReason ?cond = ReasonFailed"
    "cMessage ?cond = message"
    by (auto simp: readyCondition_def)
  have call: "failure_call ?cond (Some causes)" using cond by (simp add: failure_call_def)
  show ?thesis
  proof (cases rule: getStatus_set[OF ok set call cond(1) assms(2), case_names kept written])
    case (kept i)
    have ids: "blockedBy i = sort (depFailed e)" "infoFailure i \<noteq> None"
      using kept(6) causes(3) by (auto simp: sameFailure_iff blockedBy_def)
    with kept show ?thesis
      by (intro exI[of _ i]) (auto simp: outcome_def isDependencyFailure_def)
  next
    case (written i)
    have no: "\<not> (\<exists>j. getStatus sh n = Some j \<and> infoStatus j = StatusFailed \<and> infoReason j = ReasonFailed \<and>
          blockedBy j = sort (depFailed e))"
      using written(6) retained_status[OF _ _ _ _ causes(2) cond(2,3)] causes(3) by metis
    have "infoFailure i = Some causes" "infoStatus i = StatusFailed" "infoString i = message"
      using written cond by (auto simp: visible_def)
    moreover have "map causeReason causes = map (reasonFor (depReasons e)) (sort (depFailed e))"
      using causes(4) unfolding causes(3)[symmetric] by simp
    ultimately have "outcome i = OutcomeBlocked" "blockedBy i = sort (depFailed e)" "infoString i = message"
      "Causes (dependencyReason i subject) = map (reasonFor (depReasons e)) (sort (depFailed e))" for subject
      using causes(3) by (auto simp: outcome_def isDependencyFailure_def blockedBy_def dependencyReason_def)
    with written(1) show ?thesis unfolding if_not_P[OF no] by (intro exI[of _ i]) simp
  qed
qed

section \<open>A concrete history\<close>

definition exApp :: NamedResource where
  "exApp = NamedResource ''kustomize.toolkit.fluxcd.io'' ''Kustomization'' ''flux-system'' ''apps''"

definition exInfra :: NamedResource where
  "exInfra = NamedResource ''kustomize.toolkit.fluxcd.io'' ''Kustomization'' ''flux-system'' ''infra''"

definition exError :: "string \<Rightarrow> DependencyFailedError" where
  "exError m = \<lparr>depFailed = [exInfra], depReasons = [(exInfra, DiagnosticReason (diagnosticFor exInfra None) m [])]\<rparr>"

definition exOps :: "(bool \<times> statusOp) list" where
  "exOps = [(True, UpdateStatus exApp (applyingStatus 3)), (True, UpdateFailure exApp ''first'' (Some (exError ''x'')))]"

definition exShard :: statusShard where
  "exShard = the (runOps exOps (emptyShard False []))"

lemma exShard_run: "runOps exOps (emptyShard False []) = Some exShard"
  unfolding exShard_def by code_simp

lemma exShard_open: "\<not> concealed exShard n"
proof -
  have "shDerived exShard = False" by code_simp
  then show ?thesis by (simp add: concealed_def)
qed

lemma exShard_again:
  "\<exists>ev. updateFailure True exApp ''second'' (Some (exError ''y'')) exShard = Some (exShard, ev)"
proof -
  have "updateFailure True exApp ''second'' (Some (exError ''y'')) exShard = Some (exShard, None)" by code_simp
  then show ?thesis by blast
qed

lemma exShard_status: "\<exists>j. getStatus exShard exApp = Some j \<and> infoStatus j = StatusFailed \<and>
    infoReason j = ReasonFailed \<and> blockedBy j = sort (depFailed (exError ''y'')) \<and> infoString j = ''first''"
proof -
  have "case getStatus exShard exApp of None \<Rightarrow> False | Some j \<Rightarrow> infoStatus j = StatusFailed \<and>
    infoReason j = ReasonFailed \<and> blockedBy j = sort (depFailed (exError ''y'')) \<and> infoString j = ''first''"
    by code_simp
  then show ?thesis by (auto split: option.splits)
qed

theorem updateFailure_provenance_witness:
  "\<exists>i. getStatus exShard exApp = Some i \<and> outcome i = OutcomeBlocked \<and> infoString i = ''first''"
proof -
  obtain ev where again: "updateFailure True exApp ''second'' (Some (exError ''y'')) exShard = Some (exShard, ev)"
    using exShard_again by blast
  have "depFailed (exError ''y'') \<noteq> []" by (simp add: exError_def)
  from updateFailure_provenance[OF exShard_run exShard_open this again] show ?thesis
    using exShard_status by auto
qed

lemma exShard_ready:
  "\<exists>sh' ev. updateStatus True exApp \<lparr>infoStatus = StatusReady, infoReason = [], infoMessage = ''ok'', infoFailure = None,
     infoApplying = 0\<rparr> exShard = Some (sh', ev)"
proof -
  have "updateStatus True exApp \<lparr>infoStatus = StatusReady, infoReason = [], infoMessage = ''ok'', infoFailure = None,
     infoApplying = 0\<rparr> exShard \<noteq> None" by code_simp
  then show ?thesis by auto
qed

theorem updateStatus_readback_witness:
  "\<exists>sh' i. getStatus sh' exApp = Some i \<and> infoStatus i = StatusReady \<and> infoReason i = ReasonSucceeded \<and> infoString i = ''ok''"
proof -
  obtain sh' ev where upd: "updateStatus True exApp \<lparr>infoStatus = StatusReady, infoReason = [], infoMessage = ''ok'',
     infoFailure = None, infoApplying = 0\<rparr> exShard = Some (sh', ev)" using exShard_ready by blast
  from updateStatus_readback[OF exShard_run exShard_open _ upd] obtain i where
    "getStatus sh' exApp = Some i" "infoStatus i = StatusReady" "infoString i = ''ok''"
    "infoReason i = cReason (readyCondition StatusReady [] [])"
    by (auto simp: infoString_def[of "\<lparr>infoStatus = s, infoReason = t, infoMessage = u, infoFailure = v, infoApplying = 0\<rparr>" for s t u v])
  then show ?thesis by (intro exI[of _ sh'] exI[of _ i]) (simp add: readyCondition_def)
qed

theorem status_change_detection_witness:
  "applyOp True (UpdateFailure exApp ''second'' (Some (exError ''y''))) exShard = Some (exShard, None)"
proof -
  obtain ev where again: "applyOp True (UpdateFailure exApp ''second'' (Some (exError ''y''))) exShard = Some (exShard, ev)"
    using exShard_again by auto
  from status_change_detection[OF exShard_run again refl] have "ev = None" by blast
  with again show ?thesis by simp
qed

end
