(* ===== verification/Depwait.thy ===== *)
theory Depwait
  imports Scheduler Status
begin

text \<open>
  Dependency classification of \<^verbatim>\<open>pkg/depwait\<close>: \<^verbatim>\<open>classify.go\<close> (is a dependency ready, failed or still
  blocked), \<^verbatim>\<open>availability.go\<close> (may a values reference be used, omitted, waited for), \<^verbatim>\<open>depwait.go\<close>
  (the ready expression) and the control flow of \<^verbatim>\<open>evaluateReadyExpr\<close> in \<^verbatim>\<open>cel.go\<close>.

  The store behind the interface \<^verbatim>\<open>stateReader\<close> is the record \<open>reader\<close> of what its methods answer. Promoting a
  discovery record publishes an object into that store: \<open>Promote\<close> answers with the reader to use
  from then on, so classification threads the reader. The CEL compiler and evaluator are third-party
  code and parameters (\<open>cel\<close>). Diagnostic texts that embed formatted identities are represented by
  the constructor of \<open>depError\<close> that names the branch.
\<close>

section \<open>Data\<close>

record depObject =
  objDiagnostic :: "(NamedResource \<times> string) option"
  objExistenceOnly :: bool

datatype artifact = SourceArtifact (hasFS: bool) | OtherArtifact

record Observation =
  obsInfo :: StatusInfo
  obsConditions :: "Condition list"
  obsStatusful :: bool

record reader =
  rdArtifact :: "NamedResource \<Rightarrow> artifact option"
  rdObject :: "NamedResource \<Rightarrow> depObject option"
  rdStatus :: "(NamedResource, StatusInfo) gomap"
  rdSnapshot :: "NamedResource \<Rightarrow> bool \<Rightarrow> depObject option \<times> Observation"
  rdUnsettled :: "(NamedResource \<Rightarrow> NamedResource list) option"

datatype depError =
  PromoteFailed string
| SourceSkipped bool DiagnosticIdentity string
| NoReadableContent DiagnosticIdentity
| ContentUnavailable bool DiagnosticIdentity
| ArtifactNotFound DiagnosticIdentity

datatype promotion = PromoteError string | Promoted reader | NotPromoted

record DependencyRef =
  depID :: NamedResource
  ReadyExpr :: "string option"
  Artifact :: bool
  ArtifactOnly :: bool
  ChartSource :: bool

definition plainRef :: "NamedResource \<Rightarrow> DependencyRef" where
  "plainRef n = \<lparr>depID = n, ReadyExpr = None, Artifact = False, ArtifactOnly = False, ChartSource = False\<rparr>"

record Classification =
  clKind :: Scheduler.Kind
  clSubject :: "DiagnosticIdentity option"
  clMessage :: string
  clCauses :: "DiagnosticReason list"
  clErr :: "depError option"

definition clZero :: Classification where
  "clZero = \<lparr>clKind = Terminal, clSubject = None, clMessage = [], clCauses = [], clErr = None\<rparr>"

abbreviation dependencyNotFound :: string where
  "dependencyNotFound \<equiv> ''dependency not found''"

text \<open>
  The CEL library: \<open>celCompile\<close> gives a program or an error text, \<open>celSelfStatus\<close> tells whether the
  program reads \<^verbatim>\<open>self.status\<close>, \<open>celEval\<close> runs it on the views of the consumer and the dependency. A
  view is what \<^verbatim>\<open>projectObject\<close> is applied to.
\<close>

type_synonym celView = "NamedResource \<times> depObject option \<times> Condition list"

datatype celValue = CelEvalError | CelNil | CelBool bool | CelOther string

record 'p cel =
  celCompile :: "string \<Rightarrow> string + 'p"
  celSelfStatus :: "'p \<Rightarrow> bool"
  celEval :: "'p \<Rightarrow> celView \<Rightarrow> celView \<Rightarrow> celValue"

record 'p Waiter =
  Parent :: NamedResource
  Materializer :: bool
  AllowMissingCRDs :: bool
  Existence :: "(reader \<Rightarrow> NamedResource \<Rightarrow> promotion) option"
  waiterCel :: "'p cel"

section \<open>Ready expressions\<close>

datatype exprResult = ExprCompileError string | ExprEvalError | ExprValue bool

definition evaluateReadyExpr ::
  "'p Waiter \<Rightarrow> reader \<Rightarrow> string \<Rightarrow> NamedResource \<Rightarrow> depObject option \<Rightarrow> Condition list \<Rightarrow> exprResult" where
  "evaluateReadyExpr w st expr dep obj conds = (case celCompile (waiterCel w) expr of
     Inl e \<Rightarrow> ExprCompileError e
   | Inr prog \<Rightarrow>
       let dependency = (dep, obj, conds);
           self = (if Parent w = dep then dependency
                   else if celSelfStatus (waiterCel w) prog
                   then (case rdSnapshot st (Parent w) True of
                           (o', info) \<Rightarrow> (Parent w, o', obsConditions info))
                   else (Parent w, rdObject st (Parent w), []))
       in case celEval (waiterCel w) prog self dependency of
            CelEvalError \<Rightarrow> ExprEvalError
          | CelNil \<Rightarrow> ExprCompileError ''readyExpr returned nil''
          | CelBool b \<Rightarrow> ExprValue b
          | CelOther ty \<Rightarrow> ExprCompileError (''readyExpr must return bool; got '' @ ty))"

text \<open>The readiness and the failure text; an evaluation error is transient and reads as not ready.\<close>

definition tryReadyExpr ::
  "'p Waiter \<Rightarrow> reader \<Rightarrow> string \<Rightarrow> NamedResource \<Rightarrow> depObject option \<Rightarrow> Condition list \<Rightarrow> bool \<times> string" where
  "tryReadyExpr w st expr dep obj conds = (case evaluateReadyExpr w st expr dep obj conds of
     ExprCompileError e \<Rightarrow> (False, ''readyExpr: '' @ e)
   | ExprEvalError \<Rightarrow> (False, [])
   | ExprValue b \<Rightarrow> (b, []))"

section \<open>Classification\<close>

definition diagnosticOf :: "NamedResource \<Rightarrow> depObject option \<Rightarrow> DiagnosticIdentity" where
  "diagnosticOf n obj = diagnosticFor n (Option.bind obj objDiagnostic)"

definition reasonOf :: "Classification \<Rightarrow> NamedResource \<Rightarrow> DiagnosticReason" where
  "reasonOf c n =
     (if clKind c \<noteq> DependencyFailed then zeroReason
      else DiagnosticReason (case clSubject c of None \<Rightarrow> diagnosticFor n None | Some s \<Rightarrow> s)
             (clMessage c) (clCauses c))"

definition failedClassification ::
  "NamedResource \<Rightarrow> depObject option \<Rightarrow> string \<Rightarrow> Observation option \<Rightarrow> Classification" where
  "failedClassification n obj message info =
     (let subject = diagnosticOf n obj;
          reason = (case info of None \<Rightarrow> DiagnosticReason subject message []
                    | Some ob \<Rightarrow> dependencyReason (obsInfo ob) subject)
      in clZero\<lparr>clKind := DependencyFailed, clMessage := Message reason, clCauses := Causes reason,
          clSubject := (if Resource (Subject reason) \<noteq> ID (Subject reason) \<or> Path (Subject reason) \<noteq> []
                        then Some (Subject reason) else None)\<rparr>)"

definition sourceAvailable :: "reader \<Rightarrow> NamedResource \<Rightarrow> bool" where
  "sourceAvailable st n = (case rdArtifact st n of Some (SourceArtifact fs) \<Rightarrow> fs | _ \<Rightarrow> False)"

definition hasExpr :: "DependencyRef \<Rightarrow> bool" where
  "hasExpr dep = (case ReadyExpr dep of None \<Rightarrow> False | Some e \<Rightarrow> e \<noteq> [])"

definition skipped :: "reader \<Rightarrow> NamedResource \<Rightarrow> bool" where
  "skipped st n = (case map_of (rdStatus st) n of None \<Rightarrow> False | Some info \<Rightarrow> outcome info = OutcomeSkipped)"

definition artifactReady :: "reader \<Rightarrow> DependencyRef \<Rightarrow> DrainLevel \<Rightarrow> Classification" where
  "artifactReady st dep lv =
     (let n = depID dep; obj = rdObject st n; d = diagnosticOf n obj;
          art = (case rdArtifact st n of Some (SourceArtifact fs) \<Rightarrow> Some fs | _ \<Rightarrow> None)
      in if \<not> Artifact dep then clZero
         else if skipped st n
         then clZero\<lparr>clErr := Some (SourceSkipped (ChartSource dep) d
                (infoString (the (map_of (rdStatus st) n))))\<rparr>
         else if (case obj of None \<Rightarrow> False | Some ob \<Rightarrow> objExistenceOnly ob) \<and> \<not> ArtifactOnly dep then clZero
         else if art = Some True then clZero
         else if ArtifactOnly dep then clZero\<lparr>clErr := Some (NoReadableContent d)\<rparr>
         else if DrainCascade \<le> lv
         then clZero\<lparr>clErr := Some (if \<not> ChartSource dep \<and> art = None then ArtifactNotFound d
                                  else ContentUnavailable (ChartSource dep) d)\<rparr>
         else clZero\<lparr>clKind := Blocked\<rparr>)"

definition classifyAbsent :: "'p Waiter \<Rightarrow> reader \<Rightarrow> DependencyRef \<Rightarrow> DrainLevel \<Rightarrow> Classification" where
  "classifyAbsent w st dep lv =
     (if Artifact dep \<and> (case rdArtifact st (depID dep) of Some (SourceArtifact fs) \<Rightarrow> True | _ \<Rightarrow> False)
      then artifactReady st dep lv
      else if lv < DrainCascade then clZero\<lparr>clKind := Blocked\<rparr>
      else if AllowMissingCRDs w \<and> isCRD (depID dep) then artifactReady st dep lv
      else clZero\<lparr>clKind := DependencyFailed, clMessage := dependencyNotFound\<rparr>)"

definition classifyPresent ::
  "'p Waiter \<Rightarrow> reader \<Rightarrow> DependencyRef \<Rightarrow> depObject option \<Rightarrow> Observation \<Rightarrow> DrainLevel \<Rightarrow> Classification" where
  "classifyPresent w st dep obj info lv =
     (let n = depID dep
      in if \<not> hasExpr dep \<and> infoStatus (obsInfo info) = StatusReady then artifactReady st dep lv
         else if infoStatus (obsInfo info) = StatusFailed then
           (if Materializer w \<and> isDependencyFailure (obsInfo info)
            then failedClassification n obj ''declaration not emitted'' None
            else failedClassification n obj [] (Some info))
         else if hasExpr dep \<and> DrainCascade \<le> lv
         then failedClassification n obj ''readyExpr timeout: context deadline exceeded'' None
         else if \<not> hasExpr dep \<and> DrainForce \<le> lv
         then failedClassification n obj ''not ready'' None
         else clZero\<lparr>clKind := Blocked\<rparr>)"

definition decide ::
  "'p Waiter \<Rightarrow> reader \<Rightarrow> DependencyRef \<Rightarrow> depObject option \<Rightarrow> Observation \<Rightarrow> bool \<Rightarrow> bool \<Rightarrow> DrainLevel \<Rightarrow> Classification" where
  "decide w st dep obj info present ready lv =
     (if present \<and> ready then artifactReady st dep lv
      else if \<not> present then classifyAbsent w st dep lv
      else classifyPresent w st dep obj info lv)"

text \<open>
  \<open>classifyOnce\<close> is the unexported \<^verbatim>\<open>classify\<close>: a result, or the reader after a promotion, which makes
  \<open>Classify\<close> look again without promoting.
\<close>

definition classifyOnce ::
  "'p Waiter \<Rightarrow> reader \<Rightarrow> DependencyRef \<Rightarrow> DrainLevel \<Rightarrow> (reader \<Rightarrow> NamedResource \<Rightarrow> promotion) option
     \<Rightarrow> Classification + reader" where
  "classifyOnce w st dep lv existence =
     (let n = depID dep
      in if ArtifactOnly dep \<and> sourceAvailable st n then Inl clZero
         else case rdSnapshot st n (hasExpr dep \<or> Materializer w) of (obj, info) \<Rightarrow>
           let present = (obj \<noteq> None \<or> infoStatus (obsInfo info) \<noteq> [])
           in if \<not> Materializer w \<and> present \<and> \<not> obsStatusful info then Inl (artifactReady st dep lv)
              else
                let (ready, failMsg) =
                  (if hasExpr dep then tryReadyExpr w st (the (ReadyExpr dep)) n obj (obsConditions info)
                   else (False, []))
                in if failMsg \<noteq> [] then Inl (failedClassification n obj failMsg None)
                   else (case (if present then None else existence) of
                       None \<Rightarrow> Inl (decide w st dep obj info present ready lv)
                     | Some promote \<Rightarrow>
                         (case promote st n of
                            PromoteError e \<Rightarrow> Inl (clZero\<lparr>clErr := Some (PromoteFailed e)\<rparr>)
                          | Promoted st' \<Rightarrow> Inr st'
                          | NotPromoted \<Rightarrow> Inl (decide w st dep obj info present ready lv))))"

text \<open>The same decision with the level-independent tests named once.\<close>

definition snapObj :: "'p Waiter \<Rightarrow> reader \<Rightarrow> DependencyRef \<Rightarrow> depObject option" where
  "snapObj w st dep = fst (rdSnapshot st (depID dep) (hasExpr dep \<or> Materializer w))"

definition snapInfo :: "'p Waiter \<Rightarrow> reader \<Rightarrow> DependencyRef \<Rightarrow> Observation" where
  "snapInfo w st dep = snd (rdSnapshot st (depID dep) (hasExpr dep \<or> Materializer w))"

definition isPresent :: "'p Waiter \<Rightarrow> reader \<Rightarrow> DependencyRef \<Rightarrow> bool" where
  "isPresent w st dep \<longleftrightarrow> snapObj w st dep \<noteq> None \<or> infoStatus (obsInfo (snapInfo w st dep)) \<noteq> []"

definition exprOutcome :: "'p Waiter \<Rightarrow> reader \<Rightarrow> DependencyRef \<Rightarrow> bool \<times> string" where
  "exprOutcome w st dep =
     (if hasExpr dep then tryReadyExpr w st (the (ReadyExpr dep)) (depID dep) (snapObj w st dep)
        (obsConditions (snapInfo w st dep)) else (False, []))"

lemma classifyOnce_unfold:
  "classifyOnce w st dep lv existence =
     (if ArtifactOnly dep \<and> sourceAvailable st (depID dep) then Inl clZero
      else if \<not> Materializer w \<and> isPresent w st dep \<and> \<not> obsStatusful (snapInfo w st dep)
      then Inl (artifactReady st dep lv)
      else if snd (exprOutcome w st dep) \<noteq> []
      then Inl (failedClassification (depID dep) (snapObj w st dep) (snd (exprOutcome w st dep)) None)
      else (case (if isPresent w st dep then None else existence) of
          None \<Rightarrow> Inl (decide w st dep (snapObj w st dep) (snapInfo w st dep) (isPresent w st dep)
                       (fst (exprOutcome w st dep)) lv)
        | Some promote \<Rightarrow>
            (case promote st (depID dep) of
               PromoteError e \<Rightarrow> Inl (clZero\<lparr>clErr := Some (PromoteFailed e)\<rparr>)
             | Promoted st' \<Rightarrow> Inr st'
             | NotPromoted \<Rightarrow> Inl (decide w st dep (snapObj w st dep) (snapInfo w st dep) (isPresent w st dep)
                       (fst (exprOutcome w st dep)) lv))))"
  by (simp only: classifyOnce_def Let_def case_prod_unfold exprOutcome_def isPresent_def snapObj_def snapInfo_def)

definition classify :: "'p Waiter \<Rightarrow> reader \<Rightarrow> DependencyRef \<Rightarrow> DrainLevel \<Rightarrow> Classification \<times> reader" where
  "classify w st dep lv = (case classifyOnce w st dep lv (Existence w) of
     Inl c \<Rightarrow> (c, st)
   | Inr st' \<Rightarrow> (case classifyOnce w st' dep lv None of
       Inl c \<Rightarrow> (c, st')
     | Inr st'' \<Rightarrow> (clZero, st'')))"

section \<open>Which producers wait for the consumer\<close>

definition blockersOf :: "reader \<Rightarrow> NamedResource \<Rightarrow> NamedResource list" where
  "blockersOf st n = (case map_of (rdStatus st) n of None \<Rightarrow> [] | Some info \<Rightarrow> blockedBy info)"

definition unvisited :: "reader \<Rightarrow> NamedResource list \<Rightarrow> nat" where
  "unvisited st seen = card (set (map fst (rdStatus st)) - set seen)"

lemma blockersOf_key: "blockersOf st n \<noteq> [] \<Longrightarrow> n \<in> set (map fst (rdStatus st))"
  by (auto simp: blockersOf_def split: option.splits dest!: map_of_SomeD intro: rev_image_eqI)

lemma unvisited_Cons:
  "n \<in> set (map fst (rdStatus st)) \<Longrightarrow> n \<notin> set seen \<Longrightarrow> unvisited st (n # seen) < unvisited st seen"
  unfolding unvisited_def by (rule psubset_card_mono) auto

lemma unvisited_le: "unvisited st (n # seen) \<le> unvisited st seen"
  unfolding unvisited_def by (rule card_mono) auto

text \<open>The stack of \<open>blocksParent\<close>, its top first: the source pops from the end of \<open>pending\<close> and appends to it.\<close>

function blocksLoop :: "NamedResource \<Rightarrow> reader \<Rightarrow> NamedResource list \<Rightarrow> NamedResource list \<Rightarrow> bool" where
  "blocksLoop parent st seen [] = False"
| "blocksLoop parent st seen (current # pending) =
     (if current = parent then True
      else if current \<in> set seen then blocksLoop parent st seen pending
      else blocksLoop parent st (current # seen) (rev (blockersOf st current) @ pending))"
  by pat_completeness auto
termination
proof (relation "measures [\<lambda>(p, st, seen, pending). unvisited st seen, \<lambda>(p, st, seen, pending). length pending]", goal_cases)
  case (3 parent st seen current pending)
  show ?case
  proof (cases "blockersOf st current = []")
    case True
    with unvisited_le[of st current seen] show ?thesis by auto
  next
    case False
    with unvisited_Cons[OF blockersOf_key] 3 show ?thesis by auto
  qed
qed auto

definition blocksParent :: "'p Waiter \<Rightarrow> reader \<Rightarrow> NamedResource \<Rightarrow> bool" where
  "blocksParent w st n = blocksLoop (Parent w) st [] [n]"

section \<open>Availability of referenced data\<close>

record DataDependency =
  ddRef :: DependencyRef
  ddData :: bool
  ddMaterializers :: "NamedResource list"
  ddGenerated :: bool
  ddOffline :: bool
  ddPrivate :: bool
  ddOptional :: bool
  ddAllowMissing :: bool

record availability =
  avErr :: "depError option"
  avKind :: Scheduler.Kind
  avReason :: DiagnosticReason
  avBlocked :: "NamedResource list"
  avFailed :: "NamedResource list"
  avOmit :: bool

definition avZero :: availability where
  "avZero = \<lparr>avErr = None, avKind = Terminal, avReason = zeroReason, avBlocked = [], avFailed = [], avOmit = False\<rparr>"

definition allowsAbsence :: "DataDependency \<Rightarrow> bool" where
  "allowsAbsence dep \<longleftrightarrow> ddPrivate dep \<or> ddGenerated dep \<and> \<not> ddOffline dep"

definition absenceAllowed :: "DataDependency \<Rightarrow> bool" where
  "absenceAllowed dep \<longleftrightarrow> ddOptional dep \<or> ddAllowMissing dep \<or> allowsAbsence dep"

definition materializerFailure ::
  "'p Waiter \<Rightarrow> reader \<Rightarrow> DataDependency \<Rightarrow> NamedResource \<Rightarrow> Classification \<Rightarrow> availability option" where
  "materializerFailure w st dep producer cl =
     (let failedStatus = (case map_of (rdStatus st) producer of None \<Rightarrow> False | Some i \<Rightarrow> infoStatus i = StatusFailed)
      in if clKind cl \<noteq> DependencyFailed \<or> absenceAllowed dep then None
         else if failedStatus \<and> \<not> blocksParent w st producer then None
         else
           let cl = (if failedStatus then cl\<lparr>clMessage := ''not ready'', clCauses := []\<rparr> else cl)
           in Some (avZero\<lparr>avKind := clKind cl, avReason := reasonOf cl producer, avFailed := [producer]\<rparr>))"

definition notFound :: "reader \<Rightarrow> NamedResource \<Rightarrow> availability" where
  "notFound st n = avZero\<lparr>avKind := DependencyFailed,
     avReason := DiagnosticReason (diagnosticOf n (rdObject st n)) dependencyNotFound []\<rparr>"

definition availableAbsent ::
  "'p Waiter \<Rightarrow> reader \<Rightarrow> DataDependency \<Rightarrow> DrainLevel \<Rightarrow> availability \<times> reader" where
  "availableAbsent w st dep lv =
     (let n = depID (ddRef dep); allowed = absenceAllowed dep; omit = avZero\<lparr>avOmit := True\<rparr>
      in if allowsAbsence dep \<or> ddMaterializers dep \<noteq> []
         then (if allowed then omit else notFound st n, st)
         else if allowed \<and> \<not> ddOffline dep then (omit, st)
         else case classify w st (ddRef dep) lv of (cl, st') \<Rightarrow>
           (if clErr cl \<noteq> None then avZero\<lparr>avErr := clErr cl\<rparr>
            else if clKind cl = Blocked
            then avZero\<lparr>avKind := Blocked, avReason := reasonOf cl n, avBlocked := [n]\<rparr>
            else if allowed then omit
            else if clKind cl = Terminal then notFound st' n
            else avZero\<lparr>avKind := clKind cl, avReason := reasonOf cl n\<rparr>, st'))"

fun materializersLoop ::
  "'p Waiter \<Rightarrow> DataDependency \<Rightarrow> DrainLevel \<Rightarrow> NamedResource list \<Rightarrow> NamedResource list \<Rightarrow> NamedResource list
     \<Rightarrow> reader \<Rightarrow> availability + NamedResource list \<times> reader" where
  "materializersLoop w dep lv pending [] blocked st = Inr (blocked, st)"
| "materializersLoop w dep lv pending (producer # ps) blocked st =
     (if producer = Parent w then materializersLoop w dep lv pending ps blocked st
      else case classify w st (plainRef producer) lv of (cl, st') \<Rightarrow>
        if clErr cl \<noteq> None then Inl (avZero\<lparr>avErr := clErr cl\<rparr>)
        else
          let blocked = (if clKind cl = Blocked \<or>
                            clKind cl = Terminal \<and> lv < DrainForce \<and> producer \<in> set pending
                         then blocked @ [producer] else blocked)
          in case materializerFailure w st' dep producer cl of
               Some failure \<Rightarrow> Inl failure
             | None \<Rightarrow> materializersLoop w dep lv pending ps blocked st')"

definition available :: "'p Waiter \<Rightarrow> reader \<Rightarrow> DataDependency \<Rightarrow> DrainLevel \<Rightarrow> availability" where
  "available w st dep lv =
     (let pending = (case rdUnsettled st of None \<Rightarrow> []
                     | Some unsettled \<Rightarrow> if ddData dep then [] else unsettled (depID (ddRef dep)))
      in case materializersLoop w dep lv pending (ddMaterializers dep) [] st of
           Inl a \<Rightarrow> a
         | Inr (blocked, st') \<Rightarrow>
             if blocked \<noteq> [] then avZero\<lparr>avKind := Blocked, avBlocked := blocked\<rparr>
             else if ddData dep then avZero
             else fst (availableAbsent w st' dep lv))"

section \<open>Classification terminates at the forced level\<close>

lemma classifyOnce_no_promotion: "\<exists>c. classifyOnce w st dep lv None = Inl c"
  by (simp add: classifyOnce_unfold)

lemma classify_once:
  "\<exists>st' ex. (ex = None \<or> ex = Existence w \<and> st' = st) \<and> snd (classify w st dep lv) = st' \<and>
     classifyOnce w st' dep lv ex = Inl (fst (classify w st dep lv))"
proof (cases "classifyOnce w st dep lv (Existence w)")
  case (Inr st')
  with classifyOnce_no_promotion[of w st' dep lv] show ?thesis by (auto simp: classify_def)
qed (auto simp: classify_def)

lemma artifactReady_settled: "DrainCascade \<le> lv \<Longrightarrow> clKind (artifactReady st dep lv) = Terminal"
  by (simp add: artifactReady_def clZero_def Let_def)

lemma classifyOnce_force:
  "classifyOnce w st dep DrainForce ex = Inl c \<Longrightarrow> clKind c \<noteq> Blocked"
proof -
  have ar: "clKind (artifactReady st dep DrainForce) = Terminal"
    by (rule artifactReady_settled) (simp add: drain_simps)
  have ab: "clKind (classifyAbsent w st dep DrainForce) \<noteq> Blocked"
    using ar by (auto simp: classifyAbsent_def drain_simps clZero_def)
  have pr: "clKind (classifyPresent w st dep obj info DrainForce) \<noteq> Blocked" for obj info
    using ar by (auto simp: classifyPresent_def drain_simps failedClassification_def Let_def)
  have de: "clKind (decide w st dep obj info p r DrainForce) \<noteq> Blocked" for obj info p r
    using ar ab pr by (simp add: decide_def)
  have fl: "clKind (failedClassification n obj m i) = DependencyFailed" for n obj m i
    by (simp add: failedClassification_def Let_def)
  assume "classifyOnce w st dep DrainForce ex = Inl c"
  then show ?thesis
    unfolding classifyOnce_unfold using ar de fl
    by (auto simp: clZero_def split: if_splits option.splits promotion.splits)
qed

lemma classify_force: "clKind (fst (classify w st dep DrainForce)) \<noteq> Blocked"
  using classify_once[of w st dep DrainForce] classifyOnce_force by blast

lemma materializersLoop_force:
  "materializersLoop w dep DrainForce pending ps blocked st = Inr (blocked', st') \<Longrightarrow> blocked' = blocked"
proof (induction ps arbitrary: blocked st)
  case (Cons p ps)
  then show ?case
    using classify_force[of w st "plainRef p"]
    by (auto simp: drain_simps Let_def split: if_splits prod.splits option.splits)
qed simp

lemma materializerFailure_kind:
  "materializerFailure w st dep p cl = Some a \<Longrightarrow>
     avKind a = DependencyFailed \<and> avErr a = None \<and> avBlocked a = [] \<and> \<not> absenceAllowed dep"
  by (auto simp: materializerFailure_def Let_def avZero_def split: if_splits)

lemma materializersLoop_stop:
  "materializersLoop w dep lv pending ps blocked st = Inl a \<Longrightarrow>
     avBlocked a = [] \<and> (avErr a \<noteq> None \<and> avKind a = Terminal \<or>
       avKind a = DependencyFailed \<and> \<not> absenceAllowed dep)"
proof (induction ps arbitrary: blocked st)
  case (Cons p ps)
  then show ?case
    by (auto simp: Let_def avZero_def split: if_splits prod.splits option.splits dest: materializerFailure_kind)
qed simp

lemma availableAbsent_facts:
  assumes "availableAbsent w st dep lv = (a, st')"
  shows "(avKind a = Blocked \<longleftrightarrow> avBlocked a \<noteq> []) \<and>
    (absenceAllowed dep \<longrightarrow> avKind a \<noteq> DependencyFailed) \<and>
    (lv = DrainForce \<longrightarrow> avKind a \<noteq> Blocked)"
proof -
  have zero: "avKind avZero = Terminal" "avBlocked avZero = []" by (simp_all add: avZero_def)
  have nf: "avKind (notFound s n) = DependencyFailed" "avBlocked (notFound s n) = []" for s n
    by (simp_all add: notFound_def avZero_def)
  have force: "lv = DrainForce \<Longrightarrow> clKind (fst (classify w st (ddRef dep) lv)) \<noteq> Blocked"
    using classify_force by blast
  show ?thesis
  proof (cases "(allowsAbsence dep \<or> ddMaterializers dep \<noteq> []) \<or> absenceAllowed dep \<and> \<not> ddOffline dep")
    case True
    then show ?thesis using assms by (auto simp: availableAbsent_def Let_def zero nf absenceAllowed_def split: if_splits)
  next
    case False
    obtain cl st1 where cl: "classify w st (ddRef dep) lv = (cl, st1)" by force
    have a: "a = (if clErr cl \<noteq> None then avZero\<lparr>avErr := clErr cl\<rparr>
            else if clKind cl = Blocked
            then avZero\<lparr>avKind := Blocked, avReason := reasonOf cl (depID (ddRef dep)), avBlocked := [depID (ddRef dep)]\<rparr>
            else if absenceAllowed dep then avZero\<lparr>avOmit := True\<rparr>
            else if clKind cl = Terminal then notFound st1 (depID (ddRef dep))
            else avZero\<lparr>avKind := clKind cl, avReason := reasonOf cl (depID (ddRef dep))\<rparr>)"
      using assms False cl by (auto simp: availableAbsent_def Let_def)
    show ?thesis using force cl unfolding a by (auto simp: zero nf)
  qed
qed

lemma available_cases:
  obtains (stop) "avBlocked (available w st dep lv) = []"
      "avErr (available w st dep lv) \<noteq> None \<and> avKind (available w st dep lv) = Terminal \<or>
       avKind (available w st dep lv) = DependencyFailed \<and> \<not> absenceAllowed dep"
  | (wait) "avKind (available w st dep lv) = Blocked" "avBlocked (available w st dep lv) \<noteq> []" "lv \<noteq> DrainForce"
  | (data) "available w st dep lv = avZero"
  | (absent) st' a st'' where "available w st dep lv = a" "availableAbsent w st' dep lv = (a, st'')"
proof -
  define pending where "pending = (case rdUnsettled st of None \<Rightarrow> []
     | Some unsettled \<Rightarrow> if ddData dep then [] else unsettled (depID (ddRef dep)))"
  show ?thesis
  proof (cases "materializersLoop w dep lv pending (ddMaterializers dep) [] st")
    case (Inl a)
    then have "available w st dep lv = a" by (simp add: available_def pending_def)
    with materializersLoop_stop[OF Inl] show ?thesis by (intro stop) auto
  next
    case (Inr p)
    obtain blocked st' where p: "p = (blocked, st')" by force
    have av: "available w st dep lv = (if blocked \<noteq> [] then avZero\<lparr>avKind := Blocked, avBlocked := blocked\<rparr>
             else if ddData dep then avZero else fst (availableAbsent w st' dep lv))"
      using Inr by (simp add: available_def pending_def p)
    show ?thesis
    proof (cases "blocked = []")
      case True
      show ?thesis
      proof (cases "ddData dep")
        case False
        obtain a st'' where "availableAbsent w st' dep lv = (a, st'')" by force
        with av True False show ?thesis by (intro absent) auto
      qed (use av True in \<open>intro data, simp\<close>)
    next
      case False
      then have "lv \<noteq> DrainForce" using materializersLoop_force Inr p by blast
      with av False show ?thesis by (intro wait) auto
    qed
  qed
qed

text \<open>
  C13. Classification always resolves in the end: at \<open>DrainForce\<close> neither a dependency nor a data
  reference is reported as still blocked, whatever the store, the expression engine and the discovery
  index answer. A parked reconciliation therefore never survives the last settlement level for want
  of a decision.
\<close>

theorem drain_force_resolves:
  "clKind (fst (classify w st dep DrainForce)) \<noteq> Blocked \<and> avKind (available w st ddep DrainForce) \<noteq> Blocked"
proof
  show "avKind (available w st ddep DrainForce) \<noteq> Blocked"
    by (cases rule: available_cases[of w st ddep DrainForce])
      (auto simp: avZero_def dest: availableAbsent_facts)
qed (rule classify_force)

text \<open>
  The contract of data availability: a consumer told to wait is always told for which producers;
  a reference that is optional, allowed to be missing or owned by the consumer's own output never
  becomes a dependency failure.
\<close>

theorem availability_contract:
  "(avKind (available w st dep lv) = Blocked \<longleftrightarrow> avBlocked (available w st dep lv) \<noteq> []) \<and>
   \<not> (absenceAllowed dep \<and> avKind (available w st dep lv) = DependencyFailed)"
  by (cases rule: available_cases[of w st dep lv]) (auto simp: avZero_def dest: availableAbsent_facts)

section \<open>What the levels decide\<close>

definition undecided :: "Classification \<Rightarrow> bool" where
  "undecided c \<longleftrightarrow> clKind c = Blocked"

lemma drain_trans: "DrainCascade \<le> lv \<Longrightarrow> lv \<le> lv' \<Longrightarrow> DrainCascade \<le> (lv' :: DrainLevel)"
  by (rule order_trans)

lemma artifactReady_stable:
  "\<not> undecided (artifactReady st dep lv) \<Longrightarrow> lv \<le> lv' \<Longrightarrow> artifactReady st dep lv' = artifactReady st dep lv"
  using drain_trans[of lv lv'] by (auto simp: artifactReady_def Let_def undecided_def clZero_def)

lemma classifyAbsent_stable:
  assumes "\<not> undecided (classifyAbsent w st dep lv)" and "lv \<le> lv'"
  shows "classifyAbsent w st dep lv' = classifyAbsent w st dep lv"
proof (cases "Artifact dep \<and> (case rdArtifact st (depID dep) of Some (SourceArtifact fs) \<Rightarrow> True | _ \<Rightarrow> False)")
  case True
  then show ?thesis using assms artifactReady_stable[of st dep lv lv'] by (simp add: classifyAbsent_def)
next
  case False
  then have "\<not> lv < DrainCascade" using assms(1) unfolding classifyAbsent_def undecided_def by (auto simp: clZero_def)
  moreover from this have "\<not> lv' < DrainCascade" using assms(2) by simp
  ultimately show ?thesis
    using False assms artifactReady_stable[of st dep lv lv'] unfolding classifyAbsent_def by auto
qed

lemma classifyPresent_stable:
  assumes "\<not> undecided (classifyPresent w st dep obj info lv)" and "lv \<le> lv'"
  shows "classifyPresent w st dep obj info lv' = classifyPresent w st dep obj info lv"
proof (cases "\<not> hasExpr dep \<and> infoStatus (obsInfo info) = StatusReady")
  case True
  then show ?thesis using assms artifactReady_stable[of st dep lv lv'] by (simp add: classifyPresent_def Let_def)
next
  case False
  then show ?thesis using assms
    by (auto simp: classifyPresent_def Let_def undecided_def clZero_def)
qed

lemma decide_stable:
  assumes "\<not> undecided (decide w st dep obj info p r lv)" and "lv \<le> lv'"
  shows "decide w st dep obj info p r lv' = decide w st dep obj info p r lv"
proof (cases p)
  case True
  with assms artifactReady_stable[of st dep lv lv'] classifyPresent_stable[of w st dep obj info lv lv']
  show ?thesis by (cases r) (simp_all add: decide_def)
next
  case False
  with assms classifyAbsent_stable[of w st dep lv lv'] show ?thesis by (simp add: decide_def)
qed

lemma classifyOnce_stable:
  assumes "classifyOnce w st dep lv ex = Inl c" and "\<not> undecided c" and "lv \<le> lv'"
  shows "classifyOnce w st dep lv' ex = Inl c"
proof -
  let ?d = "decide w st dep (snapObj w st dep) (snapInfo w st dep) (isPresent w st dep) (fst (exprOutcome w st dep))"
  have d: "?d lv' = c" if "?d lv = c" using decide_stable that assms(2,3) by metis
  have a: "artifactReady st dep lv' = c" if "artifactReady st dep lv = c"
    using artifactReady_stable that assms(2,3) by metis
  from assms(1) show ?thesis
    unfolding classifyOnce_unfold using d a by (auto split: if_splits option.splits promotion.splits)
qed

lemma classifyOnce_promoted:
  "classifyOnce w st dep lv ex = Inr st' \<Longrightarrow> classifyOnce w st dep lv' ex = Inr st'"
  unfolding classifyOnce_unfold by (auto split: if_splits option.splits promotion.splits)

text \<open>
  C15. Escalation only decides what was open: once a dependency is ready, failed or rejected with an
  error at some drain level, every higher level gives the very same result, so raising the level
  can neither un-fail a dependency nor fail a ready one.
\<close>

theorem classify_level_stable:
  assumes "clKind (fst (classify w st dep lv)) \<noteq> Blocked" and "lv \<le> lv'"
  shows "classify w st dep lv' = classify w st dep lv"
proof (cases "classifyOnce w st dep lv (Existence w)")
  case (Inl c)
  then show ?thesis using classifyOnce_stable[OF Inl _ assms(2)] assms(1)
    by (simp add: classify_def undecided_def)
next
  case (Inr st')
  obtain c where c: "classifyOnce w st' dep lv None = Inl c" using classifyOnce_no_promotion by blast
  with Inr assms(1) have "\<not> undecided c" by (simp add: classify_def undecided_def)
  with classifyOnce_stable[OF c _ assms(2)] classifyOnce_promoted[OF Inr, of lv'] c Inr show ?thesis
    by (simp add: classify_def)
qed

section \<open>What a ready dependency means\<close>

definition contentOK :: "reader \<Rightarrow> DependencyRef \<Rightarrow> bool" where
  "contentOK st dep \<longleftrightarrow> \<not> Artifact dep \<or> \<not> skipped st (depID dep) \<and>
     ((case rdObject st (depID dep) of None \<Rightarrow> False | Some ob \<Rightarrow> objExistenceOnly ob) \<and> \<not> ArtifactOnly dep \<or>
      sourceAvailable st (depID dep))"

definition exprResultOf :: "'p Waiter \<Rightarrow> reader \<Rightarrow> DependencyRef \<Rightarrow> exprResult option" where
  "exprResultOf w st dep =
     (if hasExpr dep then case rdSnapshot st (depID dep) True of (obj, info) \<Rightarrow>
        Some (evaluateReadyExpr w st (the (ReadyExpr dep)) (depID dep) obj (obsConditions info))
      else None)"

text \<open>
  Readiness as the documentation of the gates states it: a present dependency is ready when its kind
  carries no status, when its expression holds, or, without an expression, when its status is Ready; an
  absent one only when its content was acquired or it is a CRD that may be missing.
\<close>

definition readyOK :: "'p Waiter \<Rightarrow> reader \<Rightarrow> DependencyRef \<Rightarrow> DrainLevel \<Rightarrow> bool" where
  "readyOK w st dep lv = (case rdSnapshot st (depID dep) (hasExpr dep \<or> Materializer w) of (obj, info) \<Rightarrow>
     if obj \<noteq> None \<or> infoStatus (obsInfo info) \<noteq> []
     then \<not> Materializer w \<and> \<not> obsStatusful info \<or>
          exprResultOf w st dep = Some (ExprValue True) \<or>
          \<not> hasExpr dep \<and> infoStatus (obsInfo info) = StatusReady
     else (\<forall>e. exprResultOf w st dep \<noteq> Some (ExprCompileError e)) \<and>
          (Artifact dep \<and> (case rdArtifact st (depID dep) of Some (SourceArtifact fs) \<Rightarrow> True | _ \<Rightarrow> False) \<or>
           DrainCascade \<le> lv \<and> AllowMissingCRDs w \<and> isCRD (depID dep)))"

definition satisfied :: "'p Waiter \<Rightarrow> reader \<Rightarrow> DependencyRef \<Rightarrow> DrainLevel \<Rightarrow> bool" where
  "satisfied w st dep lv \<longleftrightarrow>
     ArtifactOnly dep \<and> sourceAvailable st (depID dep) \<or> readyOK w st dep lv \<and> contentOK st dep"

definition accepted :: "Classification \<Rightarrow> bool" where
  "accepted c \<longleftrightarrow> clKind c = Terminal \<and> clErr c = None"

lemma accepted_simps [simp]:
  "accepted clZero" "\<not> accepted (clZero\<lparr>clErr := Some e\<rparr>)" "\<not> accepted (clZero\<lparr>clKind := Blocked\<rparr>)"
  "\<not> accepted (clZero\<lparr>clKind := DependencyFailed, clMessage := m\<rparr>)"
  "\<not> accepted (failedClassification n obj message info)"
  by (simp_all add: accepted_def clZero_def failedClassification_def Let_def)

lemma accepted_artifactReady: "accepted (artifactReady st dep lv) \<longleftrightarrow> contentOK st dep"
  by (auto simp: artifactReady_def contentOK_def sourceAvailable_def Let_def split: option.splits artifact.splits)

lemma accepted_absent:
  "accepted (classifyAbsent w st dep lv) \<longleftrightarrow> contentOK st dep \<and>
     (Artifact dep \<and> (case rdArtifact st (depID dep) of Some (SourceArtifact fs) \<Rightarrow> True | _ \<Rightarrow> False) \<or>
      DrainCascade \<le> lv \<and> AllowMissingCRDs w \<and> isCRD (depID dep))"
  by (auto simp: classifyAbsent_def accepted_artifactReady not_less)

lemma accepted_present:
  "accepted (classifyPresent w st dep obj info lv) \<longleftrightarrow>
     \<not> hasExpr dep \<and> infoStatus (obsInfo info) = StatusReady \<and> contentOK st dep"
  by (simp add: classifyPresent_def Let_def accepted_artifactReady)

lemma tryReadyExpr_iff:
  "snd (tryReadyExpr w st e n obj conds) \<noteq> [] \<longleftrightarrow> (\<exists>m. evaluateReadyExpr w st e n obj conds = ExprCompileError m)"
  "fst (tryReadyExpr w st e n obj conds) \<longleftrightarrow> evaluateReadyExpr w st e n obj conds = ExprValue True"
  by (auto simp: tryReadyExpr_def split: exprResult.splits)

lemma exprResultOf_outcome:
  "snd (exprOutcome w st dep) \<noteq> [] \<longleftrightarrow> (\<exists>e. exprResultOf w st dep = Some (ExprCompileError e))"
  "fst (exprOutcome w st dep) \<longleftrightarrow> exprResultOf w st dep = Some (ExprValue True)"
  by (auto simp: exprOutcome_def exprResultOf_def snapObj_def snapInfo_def tryReadyExpr_iff case_prod_unfold)

lemma readyOK_unfold:
  "readyOK w st dep lv \<longleftrightarrow>
     (if isPresent w st dep
      then \<not> Materializer w \<and> \<not> obsStatusful (snapInfo w st dep) \<or> fst (exprOutcome w st dep) \<or>
        \<not> hasExpr dep \<and> infoStatus (obsInfo (snapInfo w st dep)) = StatusReady
      else snd (exprOutcome w st dep) = [] \<and>
        (Artifact dep \<and> (case rdArtifact st (depID dep) of Some (SourceArtifact fs) \<Rightarrow> True | _ \<Rightarrow> False) \<or>
         DrainCascade \<le> lv \<and> AllowMissingCRDs w \<and> isCRD (depID dep)))"
  unfolding readyOK_def case_prod_unfold isPresent_def snapObj_def[symmetric] snapInfo_def[symmetric]
  using exprResultOf_outcome[of w st dep] by auto

lemma accepted_decide:
  "accepted (decide w st dep obj info p r lv) \<longleftrightarrow> contentOK st dep \<and>
     (if p then r \<or> \<not> hasExpr dep \<and> infoStatus (obsInfo info) = StatusReady
      else Artifact dep \<and> (case rdArtifact st (depID dep) of Some (SourceArtifact fs) \<Rightarrow> True | _ \<Rightarrow> False) \<or>
         DrainCascade \<le> lv \<and> AllowMissingCRDs w \<and> isCRD (depID dep))"
  by (cases p; cases r) (auto simp: decide_def accepted_artifactReady accepted_absent accepted_present)

lemma exprOutcome_exclusive: "fst (exprOutcome w st dep) \<Longrightarrow> snd (exprOutcome w st dep) = []"
  using exprResultOf_outcome[of w st dep] by force

lemma exprOutcome_none: "\<not> hasExpr dep \<Longrightarrow> exprOutcome w st dep = (False, [])"
  by (simp add: exprOutcome_def)

lemma classifyOnce_accepted:
  assumes "classifyOnce w st dep lv ex = Inl c" and "clErr c = None"
  shows "accepted c \<longleftrightarrow> satisfied w st dep lv"
proof -
  let ?d = "decide w st dep (snapObj w st dep) (snapInfo w st dep) (isPresent w st dep) (fst (exprOutcome w st dep)) lv"
  have dec: "accepted ?d \<longleftrightarrow> readyOK w st dep lv \<and> contentOK st dep"
    if "snd (exprOutcome w st dep) = []" "\<not> (\<not> Materializer w \<and> isPresent w st dep \<and> \<not> obsStatusful (snapInfo w st dep))"
    unfolding accepted_decide readyOK_unfold using that by auto
  have stale: "\<not> readyOK w st dep lv"
    if "snd (exprOutcome w st dep) \<noteq> []" "\<not> (\<not> Materializer w \<and> isPresent w st dep \<and> \<not> obsStatusful (snapInfo w st dep))"
    unfolding readyOK_unfold using that exprOutcome_exclusive[of w st dep] exprOutcome_none[of dep w st] by auto
  have statusless: "readyOK w st dep lv"
    if "\<not> Materializer w \<and> isPresent w st dep \<and> \<not> obsStatusful (snapInfo w st dep)"
    unfolding readyOK_unfold using that by auto
  note facts = dec stale statusless
  show ?thesis
  proof (cases "ArtifactOnly dep \<and> sourceAvailable st (depID dep)")
    case True
    with assms(1) show ?thesis by (auto simp: classifyOnce_unfold satisfied_def)
  next
    case no: False
    then have sat: "satisfied w st dep lv \<longleftrightarrow> readyOK w st dep lv \<and> contentOK st dep"
      by (auto simp: satisfied_def)
    from assms no show ?thesis
      unfolding classifyOnce_unfold sat using facts
      by (auto simp: accepted_artifactReady split: if_splits option.splits promotion.splits)
  qed
qed

text \<open>
  C14. A dependency is reported ready exactly when it satisfies the documented gate: its content is
  readable where content is required, and it is present and ready by status or expression (or is of a
  kind without status), or absent in one of the two tolerated ways. This holds for the store as it is
  after a promotion, whenever classification did not end in an error.
\<close>

theorem classify_ready_iff:
  assumes "clErr (fst (classify w st dep lv)) = None"
  shows "clKind (fst (classify w st dep lv)) = Terminal \<longleftrightarrow> satisfied w (snd (classify w st dep lv)) dep lv"
proof -
  obtain st' ex where "snd (classify w st dep lv) = st'"
    "classifyOnce w st' dep lv ex = Inl (fst (classify w st dep lv))"
    using classify_once[of w st dep lv] by blast
  with classifyOnce_accepted[of w st' dep lv ex] assms show ?thesis by (simp add: accepted_def)
qed

section \<open>Producers that wait for the consumer\<close>

interpretation blockers: successor_graph "\<lambda>n. set (blockersOf st n)" for st
  by unfold_locales

abbreviation waitsFor :: "reader \<Rightarrow> (NamedResource \<times> NamedResource) set" where
  "waitsFor st \<equiv> {(u, v). v \<in> set (blockersOf st u)}"

lemma blocksLoop_sound:
  "blocksLoop parent st seen pending \<Longrightarrow> \<exists>q \<in> set pending. (q, parent) \<in> (waitsFor st)\<^sup>*"
proof (induction parent st seen pending rule: blocksLoop.induct)
  case (2 parent st seen current pending)
  show ?case
  proof (cases "current = parent")
    case new: False
    show ?thesis
    proof (cases "current \<in> set seen")
      case True
      with 2(1)[OF new True] 2(3) new show ?thesis by auto
    next
      case False
      with 2(2)[OF new False] 2(3) new obtain q where
        "q \<in> set (rev (blockersOf st current) @ pending)" "(q, parent) \<in> (waitsFor st)\<^sup>*" by auto
      then show ?thesis by (auto intro: converse_rtrancl_into_rtrancl)
    qed
  qed auto
qed simp

lemma blocksLoop_complete:
  assumes "\<not> blocksLoop parent st seen pending"
    and "\<And>u v. u \<in> set seen \<Longrightarrow> v \<in> set (blockersOf st u) \<Longrightarrow> v \<in> set seen \<union> set pending"
    and "parent \<notin> set seen"
  shows "\<exists>S. set seen \<union> set pending \<subseteq> S \<and> parent \<notin> S \<and> (\<forall>u \<in> S. set (blockersOf st u) \<subseteq> S)"
  using assms
proof (induction parent st seen pending rule: blocksLoop.induct)
  case (1 parent st seen)
  then show ?case by (intro exI[of _ "set seen"]) auto
next
  case (2 parent st seen current pending)
  have new: "current \<noteq> parent" using 2(3) by auto
  show ?case
  proof (cases "current \<in> set seen")
    case True
    have "\<exists>S. set seen \<union> set pending \<subseteq> S \<and> parent \<notin> S \<and> (\<forall>u \<in> S. set (blockersOf st u) \<subseteq> S)"
    proof (rule 2(1)[OF new True])
      show "\<not> blocksLoop parent st seen pending" using 2(3) new True by simp
      fix u v assume "u \<in> set seen" "v \<in> set (blockersOf st u)"
      then have "v \<in> set seen \<union> set (current # pending)" by (rule 2(4))
      with True show "v \<in> set seen \<union> set pending" by auto
    qed (rule 2(5))
    then obtain S where S: "set seen \<union> set pending \<subseteq> S" "parent \<notin> S" "\<forall>u \<in> S. set (blockersOf st u) \<subseteq> S"
      by (elim exE conjE)
    with True have "set seen \<union> set (current # pending) \<subseteq> S" by auto
    with S(2,3) show ?thesis by (intro exI[of _ S] conjI)
  next
    case False
    have "\<exists>S. set (current # seen) \<union> set (rev (blockersOf st current) @ pending) \<subseteq> S \<and> parent \<notin> S \<and>
        (\<forall>u \<in> S. set (blockersOf st u) \<subseteq> S)"
    proof (rule 2(2)[OF new False])
      show "\<not> blocksLoop parent st (current # seen) (rev (blockersOf st current) @ pending)"
        using 2(3) new False by simp
      fix u v assume uv: "u \<in> set (current # seen)" "v \<in> set (blockersOf st u)"
      show "v \<in> set (current # seen) \<union> set (rev (blockersOf st current) @ pending)"
      proof (cases "u = current")
        case False
        with uv have "v \<in> set seen \<union> set (current # pending)" by (intro 2(4)) auto
        then show ?thesis by auto
      qed (use uv in simp)
    next
      show "parent \<notin> set (current # seen)" using 2(5) new by simp
    qed
    then obtain S where S: "set (current # seen) \<union> set (rev (blockersOf st current) @ pending) \<subseteq> S"
        "parent \<notin> S" "\<forall>u \<in> S. set (blockersOf st u) \<subseteq> S"
      by (elim exE conjE)
    then have "set seen \<union> set (current # pending) \<subseteq> S" by auto
    with S(2,3) show ?thesis by (intro exI[of _ S] conjI)
  qed
qed

text \<open>
  C19. \<open>blocksParent\<close> decides whether a failed producer waits, directly or through any chain of blocked
  resources, for the very consumer that asks; it always returns, also when the blockers form a cycle.
\<close>

theorem blocksParent_iff: "blocksParent w st n \<longleftrightarrow> (n, Parent w) \<in> (waitsFor st)\<^sup>*"
proof
  show "(n, Parent w) \<in> (waitsFor st)\<^sup>*" if "blocksParent w st n"
    using blocksLoop_sound[of "Parent w" st "[]" "[n]"] that by (simp add: blocksParent_def)
next
  assume path: "(n, Parent w) \<in> (waitsFor st)\<^sup>*"
  show "blocksParent w st n"
  proof (rule ccontr)
    assume "\<not> blocksParent w st n"
    then obtain S where "n \<in> S" "Parent w \<notin> S" "\<forall>u \<in> S. set (blockersOf st u) \<subseteq> S"
      using blocksLoop_complete[of "Parent w" st "[]" "[n]"] by (auto simp: blocksParent_def)
    with blockers.closed_reachable[OF path, of S] show False by blast
  qed
qed

section \<open>A ready dependency\<close>

definition readyReader :: reader where
  "readyReader = \<lparr>rdArtifact = (\<lambda>n. None),
     rdObject = (\<lambda>n. Some \<lparr>objDiagnostic = None, objExistenceOnly = False\<rparr>), rdStatus = [],
     rdSnapshot = (\<lambda>n c. (Some \<lparr>objDiagnostic = None, objExistenceOnly = False\<rparr>,
        \<lparr>obsInfo = zeroInfo\<lparr>infoStatus := StatusReady\<rparr>, obsConditions = [], obsStatusful = True\<rparr>)),
     rdUnsettled = None\<rparr>"

definition plainWaiter :: "unit Waiter" where
  "plainWaiter = \<lparr>Parent = zeroResource, Materializer = False, AllowMissingCRDs = False, Existence = None,
     waiterCel = \<lparr>celCompile = (\<lambda>e. Inr ()), celSelfStatus = (\<lambda>p. False), celEval = (\<lambda>p self dep. CelBool False)\<rparr>\<rparr>"

lemma ready_demo: "classify plainWaiter readyReader (plainRef demoNode) DrainNone = (clZero, readyReader)"
  by (simp add: classify_def classifyOnce_def plainWaiter_def readyReader_def plainRef_def hasExpr_def zeroInfo_def
      decide_def classifyPresent_def artifactReady_def Let_def)

theorem classify_level_stable_witness:
  "classify plainWaiter readyReader (plainRef demoNode) DrainForce = (clZero, readyReader)"
  using classify_level_stable[of plainWaiter readyReader "plainRef demoNode" DrainNone DrainForce]
  by (simp add: ready_demo clZero_def drain_simps)

theorem classify_ready_iff_witness: "satisfied plainWaiter readyReader (plainRef demoNode) DrainNone"
  using classify_ready_iff[of plainWaiter readyReader "plainRef demoNode" DrainNone]
  by (simp add: ready_demo clZero_def)

end
