(* ===== verification/Documents.thy ===== *)
theory Documents
  imports Complex_Main Identity
begin

text \<open>
  Decoded documents (\<^verbatim>\<open>map[string]any\<close> trees) of \<^verbatim>\<open>pkg/manifest\<close>: \<^verbatim>\<open>equality.go\<close> (\<open>ValueEqual\<close>,
  \<open>MapEqualExcept\<close>, the removal of output fields), \<^verbatim>\<open>deepcopy.go\<close>, \<^verbatim>\<open>strip.go\<close> (noise removal before
  a diff), the metadata helpers of \<^verbatim>\<open>namespace.go\<close> and the identity accessors of \<^verbatim>\<open>parse.go\<close>.

  A document is a value of \<open>json\<close>; a map is a list of entries with strictly increasing keys. Go tells
  nil maps and nil slices from empty ones, and so do the constructors. The decoders build trees
  without sharing, so a function that mutates its argument in place is a function to the mutated
  tree.
\<close>

section \<open>Values\<close>

text \<open>A 64-bit float: not a number, an infinity (true for the positive one), minus zero, or a finite value.\<close>

datatype float64 = FNaN | FInf bool | FNegZero | FFin rat

datatype json =
  JNull | JBool bool | JInt int | JInt64 int | JUint64 nat | JFloat float64 | JStr string
| JArr "json list" | JNilArr | JMap "(string \<times> json) list" | JNilMap

type_synonym doc = "(string \<times> json) list"

lemma size_entry [termination_simp]: "(k, v) \<in> set m \<Longrightarrow> size v < Suc (size_list (size_prod (\<lambda>x. 0) size) m)"
  by (induction m) auto

lemma size_entry_snd: "(k, v) \<in> set m \<Longrightarrow> size v < Suc (size_list (\<lambda>x. Suc (size (snd x))) m)"
  by (induction m) auto

lemma size_zip [termination_simp]: "(a, b) \<in> set (zip xs ys) \<Longrightarrow> size a < Suc (size_list size xs)"
  using size_list_estimation'[of a xs "size a" size] by (auto dest: set_zip_leftD)

fun jok :: "json \<Rightarrow> bool" where
  "jok (JArr xs) \<longleftrightarrow> list_all jok xs"
| "jok (JMap m) \<longleftrightarrow> gok m \<and> list_all (\<lambda>(k, v). jok v) m"
| "jok _ \<longleftrightarrow> True"

section \<open>Document identity\<close>

definition docString :: "string \<Rightarrow> doc \<Rightarrow> string" where
  "docString k d = (case map_of d k of Some (JStr s) \<Rightarrow> s | _ \<Rightarrow> [])"

definition docMap :: "string \<Rightarrow> doc \<Rightarrow> doc option" where
  "docMap k d = (case map_of d k of Some (JMap m) \<Rightarrow> Some m | Some JNilMap \<Rightarrow> Some [] | _ \<Rightarrow> None)"

definition docKind :: "doc \<Rightarrow> string" where
  "docKind d = docString ''kind'' d"

definition docAPIVersion :: "doc \<Rightarrow> string" where
  "docAPIVersion d = docString ''apiVersion'' d"

definition apiGroup :: "string \<Rightarrow> string" where
  "apiGroup v = (if CHR ''/'' \<in> set v then takeWhile (\<lambda>c. c \<noteq> CHR ''/'') v else [])"

definition docMetadata :: "doc \<Rightarrow> string \<times> string" where
  "docMetadata d = (case docMap ''metadata'' d of None \<Rightarrow> ([], [])
     | Some md \<Rightarrow> (docString ''name'' md, docString ''namespace'' md))"

definition docIdentity :: "doc \<Rightarrow> NamedResource" where
  "docIdentity d = NamedResource (apiGroup (docAPIVersion d)) (docKind d) (snd (docMetadata d)) (fst (docMetadata d))"

section \<open>Equality\<close>

fun floatEq :: "float64 \<Rightarrow> float64 \<Rightarrow> bool" where
  "floatEq FNaN y = False"
| "floatEq x FNaN = False"
| "floatEq FNegZero (FFin q) \<longleftrightarrow> q = 0"
| "floatEq (FFin q) FNegZero \<longleftrightarrow> q = 0"
| "floatEq x y \<longleftrightarrow> x = y"

fun valueEqual :: "json \<Rightarrow> json \<Rightarrow> bool" where
  "valueEqual (JMap v) b = (case b of
     JMap other \<Rightarrow> length v = length other \<and>
       list_all (\<lambda>(k, x). case map_of other k of None \<Rightarrow> False | Some y \<Rightarrow> valueEqual x y) v
   | _ \<Rightarrow> False)"
| "valueEqual (JArr v) b = (case b of
     JArr other \<Rightarrow> length v = length other \<and> list_all (\<lambda>(x, y). valueEqual x y) (zip v other)
   | _ \<Rightarrow> False)"
| "valueEqual (JFloat x) b = (case b of JFloat y \<Rightarrow> floatEq x y | _ \<Rightarrow> False)"
| "valueEqual JNilMap b \<longleftrightarrow> b = JNilMap"
| "valueEqual JNilArr b \<longleftrightarrow> b = JNilArr"
| "valueEqual JNull b \<longleftrightarrow> b = JNull"
| "valueEqual (JBool x) b \<longleftrightarrow> b = JBool x"
| "valueEqual (JInt x) b \<longleftrightarrow> b = JInt x"
| "valueEqual (JInt64 x) b \<longleftrightarrow> b = JInt64 x"
| "valueEqual (JUint64 x) b \<longleftrightarrow> b = JUint64 x"
| "valueEqual (JStr x) b \<longleftrightarrow> b = JStr x"

definition mapEqualExcept :: "doc \<Rightarrow> doc \<Rightarrow> (string \<Rightarrow> bool) \<Rightarrow> bool" where
  "mapEqualExcept a b excluded \<longleftrightarrow>
     list_all (\<lambda>(k, v). excluded k \<or> (case map_of b k of None \<Rightarrow> False | Some w \<Rightarrow> valueEqual v w)) a \<and>
     list_all (\<lambda>(k, v). excluded k \<or> map_of a k \<noteq> None) b"

section \<open>Copies and edits\<close>

fun deepCopyValue :: "json \<Rightarrow> json" where
  "deepCopyValue (JMap m) = JMap (map (\<lambda>(k, v). (k, deepCopyValue v)) m)"
| "deepCopyValue (JArr xs) = JArr (map deepCopyValue xs)"
| "deepCopyValue JNilArr = JArr []"
| "deepCopyValue v = v"

definition deepCopyDoc :: "doc \<Rightarrow> doc" where
  "deepCopyDoc m = map (\<lambda>(k, v). (k, deepCopyValue v)) m"

definition modifyKey :: "string \<Rightarrow> (json \<Rightarrow> json) \<Rightarrow> doc \<Rightarrow> doc" where
  "modifyKey k f m = map (\<lambda>(k', v). if k' = k then (k', f v) else (k', v)) m"

text \<open>An in-place edit of a value asserted to be a map; deletions leave a nil map alone.\<close>

fun onMap :: "(doc \<Rightarrow> doc) \<Rightarrow> json \<Rightarrow> json" where
  "onMap f (JMap m) = JMap (f m)"
| "onMap f v = v"

definition matchesAttr :: "string \<Rightarrow> string \<Rightarrow> bool" where
  "matchesAttr attr k = (if hasSuffix attr ''/'' then hasPrefix k attr else k = attr)"

fun dropAttrs :: "string list \<Rightarrow> doc \<Rightarrow> doc" where
  "dropAttrs [] val = val"
| "dropAttrs (a # attrs) val =
     dropAttrs attrs (if hasSuffix a ''/'' then filter (\<lambda>(k, v). \<not> hasPrefix k a) val else gdel a val)"

definition stripField :: "string list \<Rightarrow> string \<Rightarrow> doc \<Rightarrow> doc" where
  "stripField attrs key meta = (case map_of meta key of
     Some (JMap val) \<Rightarrow>
       (let val' = dropAttrs attrs val
        in if val' = [] then gdel key meta else modifyKey key (\<lambda>v. JMap val') meta)
   | _ \<Rightarrow> meta)"

definition stripMeta :: "string list \<Rightarrow> doc \<Rightarrow> doc" where
  "stripMeta attrs meta = stripField attrs ''labels'' (stripField attrs ''annotations'' meta)"

definition stripObjectMetadata :: "string list \<Rightarrow> doc \<Rightarrow> doc" where
  "stripObjectMetadata attrs parent = modifyKey ''metadata'' (onMap (stripMeta attrs)) parent"

fun stripItem :: "string list \<Rightarrow> json \<Rightarrow> json" where
  "stripItem attrs (JMap m) = JMap (stripObjectMetadata attrs m)"
| "stripItem attrs v = v"

fun stripItems :: "string list \<Rightarrow> json \<Rightarrow> json" where
  "stripItems attrs (JArr xs) = JArr (map (stripItem attrs) xs)"
| "stripItems attrs v = v"

definition stripJobTemplate :: "string list \<Rightarrow> doc \<Rightarrow> doc" where
  "stripJobTemplate attrs jobTmpl =
     modifyKey ''spec'' (onMap (modifyKey ''template'' (onMap (stripObjectMetadata attrs))))
       (stripObjectMetadata attrs jobTmpl)"

definition stripSpec :: "string list \<Rightarrow> doc \<Rightarrow> doc" where
  "stripSpec attrs spec =
     modifyKey ''volumeClaimTemplates'' (stripItems attrs)
       (modifyKey ''jobTemplate'' (onMap (stripJobTemplate attrs))
         (modifyKey ''template'' (onMap (stripObjectMetadata attrs)) spec))"

definition stripResourceAttributes :: "string list \<Rightarrow> doc \<Rightarrow> doc" where
  "stripResourceAttributes attrs resource =
     modifyKey ''spec'' (onMap (stripSpec attrs)) (stripObjectMetadata attrs resource)"

fun deleteFieldPath :: "string list \<Rightarrow> doc \<Rightarrow> doc" where
  "deleteFieldPath [] m = m"
| "deleteFieldPath [s] m = gdel s m"
| "deleteFieldPath (s # t # segs) m = modifyKey s (onMap (deleteFieldPath (t # segs))) m"

fun stripResourceFields :: "string list \<Rightarrow> doc \<Rightarrow> doc" where
  "stripResourceFields [] resource = resource"
| "stripResourceFields (p # paths) resource =
     stripResourceFields paths (if p = [] then resource else deleteFieldPath (splitOn CHR ''.'' p) resource)"

definition ensureMetadata :: "doc \<Rightarrow> doc \<times> doc" where
  "ensureMetadata d = (case map_of d ''metadata'' of
     Some (JMap m) \<Rightarrow> (d, m)
   | _ \<Rightarrow> (gput ''metadata'' (JMap []) d, []))"

definition mergeStringMap :: "string \<Rightarrow> (string \<times> string) list \<Rightarrow> doc \<Rightarrow> doc" where
  "mergeStringMap key entries md =
     (if entries = [] then md
      else let old = (case map_of md key of Some (JMap m) \<Rightarrow> m | _ \<Rightarrow> [])
           in gput key (JMap (fold (\<lambda>(k, v). gput k (JStr v)) entries old)) md)"

text \<open>\<^verbatim>\<open>removeOutputField\<close>: the edited value and whether it became empty, so that its parent drops it.\<close>

function removeOutputField :: "string list \<Rightarrow> json \<Rightarrow> json \<times> bool" where
  "removeOutputField path (JMap m) =
     (let m' = (case path of
          [] \<Rightarrow> m
        | [k] \<Rightarrow> gdel k m
        | k # rest \<Rightarrow> (case map_of m k of
            None \<Rightarrow> m
          | Some child \<Rightarrow>
              (case removeOutputField rest child of
                 (child', True) \<Rightarrow> gdel k m
               | (child', False) \<Rightarrow> modifyKey k (\<lambda>v. child') m)))
      in (JMap m', m' = []))"
| "removeOutputField path (JArr xs) =
     (if path = [''*''] then (JArr xs, True)
      else let rs = map (removeOutputField path) xs
           in (JArr (map fst rs), list_all snd rs))"
| "removeOutputField path JNilMap = (JNilMap, True)"
| "removeOutputField path JNilArr = (JNilArr, True)"
| "removeOutputField path JNull = (JNull, False)"
| "removeOutputField path (JBool b) = (JBool b, False)"
| "removeOutputField path (JInt i) = (JInt i, False)"
| "removeOutputField path (JInt64 i) = (JInt64 i, False)"
| "removeOutputField path (JUint64 n) = (JUint64 n, False)"
| "removeOutputField path (JFloat f) = (JFloat f, False)"
| "removeOutputField path (JStr s) = (JStr s, False)"
  by pat_completeness auto
termination
  by (relation "measure (\<lambda>(path, v). size v)") (auto simp: termination_simp dest!: map_of_SomeD size_entry_snd)

section \<open>Equality is equality\<close>

fun nanFree :: "json \<Rightarrow> bool" where
  "nanFree (JFloat f) \<longleftrightarrow> f \<noteq> FNaN"
| "nanFree (JArr xs) \<longleftrightarrow> list_all nanFree xs"
| "nanFree (JMap m) \<longleftrightarrow> list_all (\<lambda>(k, v). nanFree v) m"
| "nanFree _ \<longleftrightarrow> True"

text \<open>The two zeros of the float type are one value.\<close>

fun oneZero :: "json \<Rightarrow> json" where
  "oneZero (JFloat f) = JFloat (if f = FNegZero then FFin 0 else f)"
| "oneZero (JArr xs) = JArr (map oneZero xs)"
| "oneZero (JMap m) = JMap (map (\<lambda>(k, v). (k, oneZero v)) m)"
| "oneZero v = v"

lemma floatEq_iff: "x \<noteq> FNaN \<Longrightarrow> floatEq x y \<longleftrightarrow> (if x = FNegZero then FFin 0 else x) = (if y = FNegZero then FFin 0 else y)"
  by (cases x; cases y) auto

lemma gomap_eq_iff:
  assumes "gok m" and "gok m'"
  shows "m = m' \<longleftrightarrow> length m = length m' \<and> (\<forall>(k, v) \<in> set m. map_of m' k = Some v)"
proof
  show "length m = length m' \<and> (\<forall>(k, v) \<in> set m. map_of m' k = Some v)" if "m = m'"
    using that gok_distinct[OF assms(1)] by auto
next
  assume r: "length m = length m' \<and> (\<forall>(k, v) \<in> set m. map_of m' k = Some v)"
  have sub: "set m \<subseteq> set m'" using r by (auto dest: map_of_SomeD)
  have "card (set m) = card (set m')"
    using r gok_distinct[OF assms(1)] gok_distinct[OF assms(2)]
    by (simp add: distinct_card distinct_map)
  then have "set m = set m'" using sub by (intro card_subset_eq) auto
  then have "map_of m = map_of m'"
    using map_of_inject_set gok_distinct assms by blast
  then show "m = m'" using gok_ext[OF assms] by simp
qed

lemma valueEqual_iff: "jok a \<Longrightarrow> jok b \<Longrightarrow> nanFree a \<Longrightarrow> valueEqual a b \<longleftrightarrow> oneZero a = oneZero b"
proof (induction a arbitrary: b)
  case (JMap m)
  show ?case
  proof (cases b)
    case (JMap m')
    let ?n = "map (\<lambda>(k, v). (k, oneZero v))"
    have ok: "gok m" "gok m'" using JMap.prems JMap by auto
    have step: "valueEqual x y \<longleftrightarrow> oneZero x = oneZero y" if "(k, x) \<in> set m" "map_of m' k = Some y" for k x y
    proof (rule JMap.IH[of "(k, x)" x])
      show "jok x" "nanFree x" using JMap.prems that(1) by (auto simp: list_all_iff)
      show "jok y" using JMap.prems(2) JMap that(2) by (auto simp: list_all_iff dest: map_of_SomeD)
    qed (use that(1) in auto)
    have "valueEqual (JMap m) b \<longleftrightarrow> length m = length m' \<and>
        (\<forall>(k, x) \<in> set m. \<exists>y. map_of m' k = Some y \<and> valueEqual x y)"
      unfolding JMap by (auto simp: list_all_iff split: option.splits)
    also have "\<dots> \<longleftrightarrow> length m = length m' \<and> (\<forall>(k, x) \<in> set m. \<exists>y. map_of m' k = Some y \<and> oneZero x = oneZero y)"
      using step by fastforce
    also have "\<dots> \<longleftrightarrow> length (?n m) = length (?n m') \<and> (\<forall>(k, v) \<in> set (?n m). map_of (?n m') k = Some v)"
      by (fastforce simp: map_of_map_value)
    also have "\<dots> \<longleftrightarrow> ?n m = ?n m'"
      using gomap_eq_iff[of "?n m" "?n m'"] ok gok_map_value[of oneZero] by blast
    finally show ?thesis using JMap by simp
  qed simp_all
next
  case (JArr xs)
  show ?case
  proof (cases b)
    case (JArr ys)
    have "valueEqual (JArr xs) b \<longleftrightarrow> length xs = length ys \<and> (\<forall>i < length xs. valueEqual (xs ! i) (ys ! i))"
      unfolding JArr by (auto simp: list_all_length)
    also have "\<dots> \<longleftrightarrow> length xs = length ys \<and> (\<forall>i < length xs. oneZero (xs ! i) = oneZero (ys ! i))"
      using JArr.IH JArr.prems JArr by (auto simp: list_all_iff)
    also have "\<dots> \<longleftrightarrow> map oneZero xs = map oneZero ys" by (auto simp: list_eq_iff_nth_eq)
    finally show ?thesis using JArr by simp
  qed simp_all
next
  case (JFloat x)
  then show ?case by (cases b) (auto simp: floatEq_iff)
next
  case JNull
  then show ?case by (cases b) auto
next
  case (JBool x)
  then show ?case by (cases b) auto
next
  case (JInt x)
  then show ?case by (cases b) auto
next
  case (JInt64 x)
  then show ?case by (cases b) auto
next
  case (JUint64 x)
  then show ?case by (cases b) auto
next
  case (JStr x)
  then show ?case by (cases b) auto
next
  case JNilArr
  then show ?case by (cases b) auto
next
  case JNilMap
  then show ?case by (cases b) auto
qed

text \<open>
  \<open>ValueEqual\<close> is equality of documents: on values decoded from documents (distinct keys, no NaN) it
  holds exactly when the trees are the same, nil and empty containers and integer types told apart,
  with the two float zeros identified. In particular it is symmetric and transitive.
\<close>

theorem valueEqual_is_equality:
  assumes "jok a" and "jok b" and "nanFree a"
  shows "valueEqual a b \<longleftrightarrow> oneZero a = oneZero b"
  using assms by (rule valueEqual_iff)

theorem valueEqual_is_equality_witness:
  "valueEqual (JMap [(''a'', JArr [JInt 1, JStr ''x'']), (''b'', JNilMap)])
     (JMap [(''a'', JArr [JInt 1, JStr ''x'']), (''b'', JNilMap)])"
  using valueEqual_is_equality[of "JMap [(''a'', JArr [JInt 1, JStr ''x'']), (''b'', JNilMap)]"
      "JMap [(''a'', JArr [JInt 1, JStr ''x'']), (''b'', JNilMap)]"]
  by (simp add: gok_def)

section \<open>Field paths\<close>

fun lookupPath :: "string list \<Rightarrow> json \<Rightarrow> json option" where
  "lookupPath [] v = Some v"
| "lookupPath (s # segs) v = (case v of JMap m \<Rightarrow> Option.bind (map_of m s) (lookupPath segs) | _ \<Rightarrow> None)"

lemma map_of_modifyKey: "map_of (modifyKey k f m) k' = (if k' = k then map_option f (map_of m k') else map_of m k')"
  by (induction m) (auto simp: modifyKey_def)

lemma lookupPath_onMap:
  "segs \<noteq> [] \<Longrightarrow> lookupPath segs (onMap f v) = (case v of JMap m \<Rightarrow> lookupPath segs (JMap (f m)) | _ \<Rightarrow> None)"
  by (cases segs; cases v) auto

text \<open>
  Deleting a dotted field path removes exactly that leaf: the path and everything below it can no
  longer be reached, and every other field that does not lie on the way to it reads as before.
  Missing segments and segments that are not maps are left alone.
\<close>

theorem deleteFieldPath_exact:
  assumes "p \<noteq> []"
  shows "(prefix p q \<longrightarrow> lookupPath q (JMap (deleteFieldPath p m)) = None) \<and>
    (\<not> prefix p q \<longrightarrow> \<not> prefix q p \<longrightarrow> lookupPath q (JMap (deleteFieldPath p m)) = lookupPath q (JMap m))"
  using assms
proof (induction p m arbitrary: q rule: deleteFieldPath.induct)
  case (2 s m)
  then show ?case by (cases q) (auto simp: map_of_gdel)
next
  case (3 s t segs m)
  show ?case
  proof (cases q)
    case (Cons u rest)
    show ?thesis
    proof (cases "u = s \<and> rest \<noteq> []")
      case True
      then have q: "q = s # rest" "rest \<noteq> []" using Cons by auto
      have look: "lookupPath q (JMap (deleteFieldPath (s # t # segs) m)) =
          (case map_of m s of Some (JMap c) \<Rightarrow> lookupPath rest (JMap (deleteFieldPath (t # segs) c)) | _ \<Rightarrow> None)"
        by (auto simp: q map_of_modifyKey lookupPath_onMap split: option.splits json.splits)
      have look': "lookupPath q (JMap m) = (case map_of m s of Some (JMap c) \<Rightarrow> lookupPath rest (JMap c) | _ \<Rightarrow> None)"
        using q(2) by (cases rest) (auto simp: q(1) split: option.splits json.splits)
      have "\<exists>c. map_of m s = Some (JMap c) \<or> (\<forall>c. map_of m s \<noteq> Some (JMap c))" by blast
      with 3 show ?thesis unfolding look look' by (auto simp: q split: option.splits json.splits)
    next
      case False
      with Cons show ?thesis by (cases "u = s") (auto simp: map_of_modifyKey)
    qed
  qed simp
qed simp

theorem deleteFieldPath_exact_witness:
  "lookupPath [''spec'', ''restic'', ''unlock''] (JMap (deleteFieldPath [''spec'', ''restic'', ''unlock'']
     [(''spec'', JMap [(''restic'', JMap [(''repo'', JStr ''r''), (''unlock'', JStr ''20060102'')])])])) = None"
  using deleteFieldPath_exact[of "[''spec'', ''restic'', ''unlock'']" "[''spec'', ''restic'', ''unlock'']"
      "[(''spec'', JMap [(''restic'', JMap [(''repo'', JStr ''r''), (''unlock'', JStr ''20060102'')])])]"]
  by blast

section \<open>Stripped attributes\<close>

lemma dropAttrs_filter: "dropAttrs attrs val = filter (\<lambda>(k, v). \<not> list_ex (\<lambda>a. matchesAttr a k) attrs) val"
proof (induction attrs arbitrary: val)
  case (Cons a attrs)
  have "(if hasSuffix a ''/'' then filter (\<lambda>(k, v). \<not> hasPrefix k a) val else gdel a val) =
      filter (\<lambda>(k, v). \<not> matchesAttr a k) val"
    by (simp add: matchesAttr_def gdel_def)
  then show ?case using Cons by (simp add: conj_commute case_prod_unfold)
qed simp

definition stripped :: "string list \<Rightarrow> json option \<Rightarrow> json option" where
  "stripped attrs field = (case field of
     Some (JMap val) \<Rightarrow>
       (let kept = filter (\<lambda>(k, v). \<not> list_ex (\<lambda>a. matchesAttr a k) attrs) val
        in if kept = [] then None else Some (JMap kept))
   | _ \<Rightarrow> field)"

lemma map_of_stripField:
  "map_of (stripField attrs key meta) k = (if k = key then stripped attrs (map_of meta k) else map_of meta k)"
  by (auto simp: stripField_def stripped_def dropAttrs_filter Let_def map_of_gdel map_of_modifyKey
      split: option.splits json.splits)

lemma map_of_stripMeta:
  "map_of (stripMeta attrs meta) k =
     (if k = ''annotations'' \<or> k = ''labels'' then stripped attrs (map_of meta k) else map_of meta k)"
  by (simp add: stripMeta_def map_of_stripField)

definition metaOf :: "doc \<Rightarrow> doc list" where
  "metaOf parent = (case map_of parent ''metadata'' of Some (JMap m) \<Rightarrow> [m] | _ \<Rightarrow> [])"

fun mapsIn :: "json option \<Rightarrow> doc list" where
  "mapsIn (Some (JMap m)) = [m]"
| "mapsIn _ = []"

fun itemMaps :: "json option \<Rightarrow> doc list" where
  "itemMaps (Some (JArr xs)) = concat (map (\<lambda>x. mapsIn (Some x)) xs)"
| "itemMaps _ = []"

text \<open>The metadata maps the documentation of \<open>StripResourceAttributes\<close> lists, in its order.\<close>

definition coveredMeta :: "doc \<Rightarrow> doc list" where
  "coveredMeta resource = metaOf resource @ concat (map (\<lambda>spec.
     concat (map metaOf (mapsIn (map_of spec ''template''))) @
     concat (map (\<lambda>job. metaOf job @
       concat (map (\<lambda>jobSpec. concat (map metaOf (mapsIn (map_of jobSpec ''template'')))) (mapsIn (map_of job ''spec''))))
       (mapsIn (map_of spec ''jobTemplate''))) @
     concat (map metaOf (itemMaps (map_of spec ''volumeClaimTemplates''))))
     (mapsIn (map_of resource ''spec'')))"

lemma mapsIn_onMap: "mapsIn (map_option (onMap f) v) = map f (mapsIn v)"
  by (cases "(v, f)" rule: prod.exhaust; cases v rule: mapsIn.cases) auto

lemma metaOf_strip: "metaOf (stripObjectMetadata attrs m) = map (stripMeta attrs) (metaOf m)"
  by (auto simp: metaOf_def stripObjectMetadata_def map_of_modifyKey split: option.splits json.splits)

lemma metaOf_modify: "k \<noteq> ''metadata'' \<Longrightarrow> metaOf (modifyKey k f m) = metaOf m"
  by (simp add: metaOf_def map_of_modifyKey)

lemma map_of_stripObject: "k \<noteq> ''metadata'' \<Longrightarrow> map_of (stripObjectMetadata attrs m) k = map_of m k"
  by (simp add: stripObjectMetadata_def map_of_modifyKey)

lemma itemMaps_strip: "itemMaps (map_option (stripItems attrs) v) = map (stripObjectMetadata attrs) (itemMaps v)"
proof -
  have "mapsIn (Some (stripItem attrs x)) = map (stripObjectMetadata attrs) (mapsIn (Some x))" for x
    by (cases x) auto
  then show ?thesis by (cases v rule: itemMaps.cases) (auto simp: map_concat comp_def)
qed

lemmas strip_simps = metaOf_strip metaOf_modify map_of_stripObject map_of_modifyKey mapsIn_onMap itemMaps_strip
  map_concat comp_def


end
