(* ===== verification/Values.thy ===== *)
theory Values
  imports Documents Identity
begin

text \<open>
  Values and substitutions of \<^verbatim>\<open>pkg/values\<close>: \<^verbatim>\<open>values.go\<close> (captured lookups, value references of Helm
  releases, substitutions of Kustomizations), \<^verbatim>\<open>depsubst.go\<close> (unambiguous inline substitutions) and
  \<^verbatim>\<open>substitution.go\<close> (which documents need substitution).

  Third-party code is a parameter: the YAML decoder, Helm's map merge and its path setters
  (\<open>helmLib\<close>). Data objects are seen through the interface \<^verbatim>\<open>manifest.Data\<close> (\<open>dataBag\<close>): their keys in
  iteration order and what reading a key gives. The flag \<open>owned\<close> and the deep copy it triggers are kept
  because copying turns nil slices into empty ones.
\<close>

section \<open>Substitution syntax\<close>

fun indexByte :: "char \<Rightarrow> string \<Rightarrow> nat option" where
  "indexByte c [] = None"
| "indexByte c (x # s) = (if x = c then Some 0 else map_option Suc (indexByte c s))"

lemma indexByte_less: "indexByte c s = Some i \<Longrightarrow> i < length s \<and> s ! i = c \<and> c \<notin> set (take i s)"
proof (induction s arbitrary: i)
  case (Cons x s)
  then show ?case by (auto split: if_splits)
qed simp

lemma indexByte_None: "indexByte c s = None \<longleftrightarrow> c \<notin> set s"
  by (induction s) auto

function hasSubstitution :: "string \<Rightarrow> bool" where
  "hasSubstitution s = (case indexByte CHR ''$'' s of
     None \<Rightarrow> False
   | Some i \<Rightarrow>
       if i + 1 = length s then False
       else if s ! (i + 1) = CHR ''{'' \<or> s ! (i + 1) = CHR ''$'' then True
       else hasSubstitution (drop (i + 1) s))"
  by pat_completeness auto
termination
  by (relation "measure length") (auto dest!: indexByte_less)

declare hasSubstitution.simps [simp del]

fun needsSubstitution :: "json \<Rightarrow> bool" where
  "needsSubstitution (JStr s) = hasSubstitution s"
| "needsSubstitution (JFloat f) = (case f of FNaN \<Rightarrow> True | FInf p \<Rightarrow> True | FNegZero \<Rightarrow> True | FFin q \<Rightarrow> False)"
| "needsSubstitution (JInt i) \<longleftrightarrow> i < - (2 ^ 53) \<or> i > 2 ^ 53"
| "needsSubstitution (JUint64 n) \<longleftrightarrow> n > 2 ^ 53"
| "needsSubstitution (JMap m) \<longleftrightarrow> list_ex (\<lambda>(k, v). hasSubstitution k \<or> needsSubstitution v) m"
| "needsSubstitution (JArr xs) \<longleftrightarrow> list_ex needsSubstitution xs"
| "needsSubstitution _ \<longleftrightarrow> False"

lemma contains_iff: "contains s p \<longleftrightarrow> (\<exists>i. i \<le> length s \<and> hasPrefix (drop i s) p)"
proof (induction s)
  case (Cons c s)
  have "(\<exists>i. i \<le> length (c # s) \<and> hasPrefix (drop i (c # s)) p) \<longleftrightarrow>
      hasPrefix (c # s) p \<or> (\<exists>i. i \<le> length s \<and> hasPrefix (drop i s) p)"
    by (metis Suc_le_mono drop0 drop_Suc_Cons le0 length_Cons not0_implies_Suc)
  with Cons show ?case by simp
qed (auto simp: hasPrefix_def)

lemma hasPrefix_pair: "hasPrefix (drop i s) [a, b] \<longleftrightarrow> i + 1 < length s \<and> s ! i = a \<and> s ! (i + 1) = b"
proof (cases "i + 1 < length s")
  case True
  then have "drop i s = s ! i # s ! (i + 1) # drop (i + 2) s"
    by (metis Cons_nth_drop_Suc Suc_eq_plus1 Suc_lessD add_2_eq_Suc' )
  with True show ?thesis by (simp add: hasPrefix_def)
next
  case False
  have "take 2 (drop i s) \<noteq> [a, b]"
  proof
    assume "take 2 (drop i s) = [a, b]"
    then have "length (take 2 (drop i s)) = 2" by simp
    with False show False by simp
  qed
  with False show ?thesis by (simp add: hasPrefix_def numeral_2_eq_2)
qed

text \<open>
  \<open>hasSubstitution\<close> recognises exactly the texts that hold an expansion \<^verbatim>\<open>${\<close> or an escaped dollar
  \<^verbatim>\<open>$$\<close> somewhere, and always returns.
\<close>

theorem hasSubstitution_iff: "hasSubstitution s \<longleftrightarrow> contains s ''${'' \<or> contains s ''$$''"
proof (induction s rule: hasSubstitution.induct)
  case (1 s)
  let ?hit = "\<lambda>s j. j + 1 < length s \<and> s ! j = CHR ''$'' \<and> (s ! (j + 1) = CHR ''{'' \<or> s ! (j + 1) = CHR ''$'')"
  have any: "contains t ''${'' \<or> contains t ''$$'' \<longleftrightarrow> (\<exists>j. ?hit t j)" for t
    by (auto simp: contains_iff hasPrefix_pair)
  show ?case
  proof (cases "indexByte CHR ''$'' s")
    case None
    then have nd: "CHR ''$'' \<notin> set s" by (rule indexByte_None[THEN iffD1])
    have none: "\<not> ?hit s j" for j
    proof
      assume hit: "?hit s j"
      then have "s ! j \<in> set s" by (intro nth_mem) simp
      with hit nd show False by simp
    qed
    have "\<not> hasSubstitution s" using None by (simp add: hasSubstitution.simps[of s])
    with none show ?thesis unfolding any by blast
  next
    case (Some i)
    note i = indexByte_less[OF Some]
    have before: "i \<le> j" if "?hit s j" for j
      using i that by (metis Suc_eq_plus1 Suc_lessD in_set_conv_nth length_take min_less_iff_conj not_le nth_take)
    consider "i + 1 = length s" | "i + 1 < length s" "?hit s i" | "i + 1 < length s" "\<not> ?hit s i" using i by linarith
    then show ?thesis
    proof cases
      case 1
      then show ?thesis unfolding any using Some before by (auto simp: hasSubstitution.simps[of s])
    next
      case 2
      then show ?thesis unfolding any using Some by (auto simp: hasSubstitution.simps[of s])
    next
      case 3
      then have no: "\<not> (i + 1 = length s)" "\<not> (s ! (i + 1) = CHR ''{'' \<or> s ! (i + 1) = CHR ''$'')" using i by auto
      have "hasSubstitution s = hasSubstitution (drop (i + 1) s)" using no Some by (simp add: hasSubstitution.simps[of s])
      also have "\<dots> \<longleftrightarrow> (\<exists>j. ?hit (drop (i + 1) s) j)" using "1"[OF Some no] any by simp
      also have "\<dots> \<longleftrightarrow> (\<exists>j. j \<ge> i + 1 \<and> ?hit s j)"
      proof
        assume "\<exists>j. ?hit (drop (i + 1) s) j"
        then obtain j where "?hit (drop (i + 1) s) j" by blast
        then have "?hit s (i + 1 + j)" by (auto simp: add.assoc)
        then show "\<exists>j. j \<ge> i + 1 \<and> ?hit s j" by (metis le_add1)
      next
        assume "\<exists>j. j \<ge> i + 1 \<and> ?hit s j"
        then obtain j where j: "j \<ge> i + 1" "?hit s j" by blast
        then have "?hit (drop (i + 1) s) (j - (i + 1))" by auto
        then show "\<exists>j. ?hit (drop (i + 1) s) j" by blast
      qed
      also have "\<dots> \<longleftrightarrow> (\<exists>j. ?hit s j)"
        using before 3 by (metis Suc_eq_plus1 Suc_leI le_neq_implies_less)
      finally show ?thesis unfolding any .
    qed
  qed
qed

section \<open>Captured lookups\<close>

fun scanSame :: "NamedResource \<Rightarrow> nat \<Rightarrow> (NamedResource \<times> 'f) list \<Rightarrow> 'f option \<times> nat" where
  "scanSame n i [] = (None, i)"
| "scanSame n i ((k, input) # rest) =
     (if Name k = Name n then if k = n then (Some input, i) else scanSame n (i + 1) rest
      else (None, i))"

text \<open>
  \<open>Lookup\<close>: \<open>facts\<close> is what the store answers now. The captured inputs are kept in the order of their
  names; the answer of the first lookup is kept for every later one.
\<close>

definition lookupFacts ::
  "(NamedResource \<Rightarrow> 'f) \<Rightarrow> NamedResource \<Rightarrow> (NamedResource \<times> 'f) list \<Rightarrow> 'f \<times> (NamedResource \<times> 'f) list" where
  "lookupFacts facts n inputs =
     (let i = searchFrom 0 (length inputs) (\<lambda>i. Name n \<le> Name (fst (inputs ! i)))
      in case scanSame n i (drop i inputs) of
           (Some input, _) \<Rightarrow> (input, inputs)
         | (None, j) \<Rightarrow> (facts n, take j inputs @ [(n, facts n)] @ drop j inputs))"

definition inputs_ok :: "(NamedResource \<times> 'f) list \<Rightarrow> bool" where
  "inputs_ok inputs \<longleftrightarrow> sorted (map (Name \<circ> fst) inputs) \<and> distinct (map fst inputs)"

lemma scanSame_facts:
  "scanSame n i xs = (r, j) \<Longrightarrow> i \<le> j \<and> j \<le> i + length xs \<and> (\<forall>k \<in> set (take (j - i) xs). Name (fst k) = Name n) \<and>
     (case r of Some v \<Rightarrow> (n, v) \<in> set xs
      | None \<Rightarrow> n \<notin> fst ` set (take (j - i) xs) \<and> (j - i < length xs \<longrightarrow> Name (fst (xs ! (j - i))) \<noteq> Name n))"
proof (induction n i xs rule: scanSame.induct)
  case (2 n i k input rest)
  show ?case
  proof (cases "Name k = Name n \<and> k \<noteq> n")
    case True
    with 2(2) have eq: "scanSame n (i + 1) rest = (r, j)" by simp
    note IH = 2(1)[OF _ _ eq]
    have j: "j - i = Suc (j - (i + 1))" using IH True by auto
    show ?thesis using IH True unfolding j by (auto split: option.splits)
  next
    case False
    with 2(2) show ?thesis by (auto split: if_splits)
  qed
qed auto

lemma lookupFacts_split:
  assumes "inputs_ok inputs" and "lookupFacts facts n inputs = (v, inputs')"
  obtains (hit) "map_of inputs n = Some v" "inputs' = inputs"
  | (miss) xs ys where "inputs = xs @ ys" "inputs' = xs @ [(n, v)] @ ys" "v = facts n" "n \<notin> fst ` set inputs"
      "\<forall>k \<in> set xs. Name (fst k) \<le> Name n" "\<forall>k \<in> set ys. Name n \<le> Name (fst k)"
proof -
  define f where "f = (\<lambda>i. Name n \<le> Name (fst (inputs ! i)))"
  define i where "i = searchFrom 0 (length inputs) f"
  have sorted: "sorted (map (Name \<circ> fst) inputs)" and dist: "distinct (map fst inputs)"
    using assms(1) by (auto simp: inputs_ok_def)
  have mono: "Name (fst (inputs ! a)) \<le> Name (fst (inputs ! b))" if "a \<le> b" "b < length inputs" for a b
    using sorted_nth_mono[OF sorted, of a b] that by simp
  have i: "i \<le> length inputs" "\<And>a. a < i \<Longrightarrow> \<not> f a" "\<And>a. i \<le> a \<Longrightarrow> a < length inputs \<Longrightarrow> f a"
  proof -
    have fm: "f b" if "a \<le> b" "b < length inputs" "f a" for a b
      using order_trans[OF that(3)[unfolded f_def] mono[OF that(1,2)]] by (simp add: f_def)
    have "i \<le> length inputs \<and> (\<forall>a < i. \<not> f a) \<and> (\<forall>a. i \<le> a \<longrightarrow> a < length inputs \<longrightarrow> f a)"
      unfolding i_def by (rule searchFrom_least) (use fm in auto)
    then show "i \<le> length inputs" "\<And>a. a < i \<Longrightarrow> \<not> f a" "\<And>a. i \<le> a \<Longrightarrow> a < length inputs \<Longrightarrow> f a"
      by blast+
  qed
  obtain r j where rj: "scanSame n i (drop i inputs) = (r, j)" by force
  note scan = scanSame_facts[OF rj]
  have eq: "lookupFacts facts n inputs = (case (r, j) of (Some input, _) \<Rightarrow> (input, inputs)
      | (None, j) \<Rightarrow> (facts n, take j inputs @ [(n, facts n)] @ drop j inputs))"
    unfolding lookupFacts_def Let_def f_def[symmetric] i_def[symmetric] rj by (rule refl)
  show ?thesis
  proof (cases r)
    case (Some w)
    then have "(n, w) \<in> set inputs" using scan by (auto dest: in_set_dropD)
    then have "map_of inputs n = Some w" using dist by simp
    then show ?thesis using assms(2) eq Some by (intro hit) auto
  next
    case None
    have j: "i \<le> j" "j \<le> length inputs" using scan i(1) by auto
    have take: "take j inputs = take i inputs @ take (j - i) (drop i inputs)"
      using j(1) by (metis le_add_diff_inverse take_add)
    have low: "Name (fst k) < Name n" if "k \<in> set (take i inputs)" for k
      using that i(2) by (auto simp: in_set_conv_nth f_def not_le)
    have mid: "Name (fst k) = Name n \<and> fst k \<noteq> n" if "k \<in> set (take (j - i) (drop i inputs))" for k
    proof -
      have "\<forall>k \<in> set (take (j - i) (drop i inputs)). Name (fst k) = Name n" using scan by blast
      moreover have "n \<notin> fst ` set (take (j - i) (drop i inputs))" using scan None by simp
      ultimately show ?thesis using that by (metis image_eqI)
    qed
    have high: "Name n < Name (fst k)" if "k \<in> set (drop j inputs)" for k
    proof -
      obtain a where a: "k = inputs ! (j + a)" "j + a < length inputs"
      proof -
        obtain a where "a < length (drop j inputs)" "drop j inputs ! a = k"
          using \<open>k \<in> set (drop j inputs)\<close> by (auto simp: in_set_conv_nth)
        then show thesis using j(2) by (intro that[of a]) auto
      qed
      have "j - i < length (drop i inputs) \<longrightarrow> Name (fst (drop i inputs ! (j - i))) \<noteq> Name n"
        using scan unfolding None option.case by blast
      then have "Name (fst (inputs ! j)) \<noteq> Name n" using a(2) j(1) i(1) by simp
      moreover have "f j" using i(3)[of j] j a(2) by simp
      ultimately have "Name n < Name (fst (inputs ! j))" by (simp add: f_def less_le)
      with mono[of j "j + a"] a show ?thesis by (auto intro: less_le_trans)
    qed
    have "inputs = take j inputs @ drop j inputs" by simp
    moreover have "n \<notin> fst ` set inputs"
    proof
      assume "n \<in> fst ` set inputs"
      then obtain k where k: "k \<in> set inputs" "fst k = n" by auto
      have "set inputs = set (take i inputs) \<union> set (take (j - i) (drop i inputs)) \<union> set (drop j inputs)"
        unfolding set_append[symmetric] take[symmetric] by simp
      with k(1) consider "k \<in> set (take i inputs)" | "k \<in> set (take (j - i) (drop i inputs))" | "k \<in> set (drop j inputs)"
        by blast
      then show False using low[of k] mid[of k] high[of k] k(2) by cases auto
    qed
    ultimately show ?thesis
      using assms(2) eq None low mid high take
      by (intro miss[of "take j inputs" "drop j inputs"]) (auto simp: less_imp_le)
  qed
qed

lemma lookupFacts_ok:
  assumes "inputs_ok inputs" and "lookupFacts facts n inputs = (v, inputs')"
  shows "inputs_ok inputs' \<and> v = (case map_of inputs n of Some w \<Rightarrow> w | None \<Rightarrow> facts n) \<and>
    map_of inputs' = (map_of inputs)(n \<mapsto> v)"
proof (cases rule: lookupFacts_split[OF assms, case_names hit miss])
  case hit
  with assms(1) show ?thesis by (auto simp: fun_eq_iff)
next
  case (miss xs ys)
  have none: "map_of inputs n = None" using miss(4) by (simp add: map_of_eq_None_iff)
  have xs: "map_of xs n = None" using miss(1,4) by (auto simp: map_of_eq_None_iff)
  have "inputs_ok inputs'"
    using assms(1) miss by (auto simp: inputs_ok_def sorted_append image_iff)
  then show ?thesis using none miss xs by (auto simp: map_add_def fun_eq_iff split: option.splits)
qed

fun lookups :: "((NamedResource \<Rightarrow> 'f) \<times> NamedResource) list \<Rightarrow> (NamedResource \<times> 'f) list \<Rightarrow> 'f list \<times> (NamedResource \<times> 'f) list" where
  "lookups [] inputs = ([], inputs)"
| "lookups ((facts, n) # qs) inputs =
     (case lookupFacts facts n inputs of (v, inputs') \<Rightarrow>
        (case lookups qs inputs' of (vs, inputs'') \<Rightarrow> (v # vs, inputs'')))"

lemma lookups_stable:
  assumes "inputs_ok inputs" and "map_of inputs n = Some v" and "(facts, n) = qs ! i" and "i < length qs"
  shows "fst (lookups qs inputs) ! i = v"
  using assms
proof (induction qs arbitrary: inputs i)
  case (Cons q qs)
  obtain g m where q: "q = (g, m)" by force
  obtain w inputs' where l: "lookupFacts g m inputs = (w, inputs')" by force
  note ok = lookupFacts_ok[OF Cons.prems(1) l]
  show ?case
  proof (cases i)
    case 0
    with Cons.prems ok l q show ?thesis by (auto split: prod.splits)
  next
    case (Suc k)
    have "map_of inputs' n = Some v" using ok Cons.prems(2) by (auto split: option.splits)
    from Cons.IH[OF _ this, of k] ok Cons.prems(3,4) Suc q l show ?thesis by (auto split: prod.splits)
  qed
qed simp

text \<open>
  One execution sees one version of each data object: in any sequence of lookups through the same
  provider, every lookup of an identity returns what its first lookup captured, however the store
  changed in between. The binary search over the captured inputs never misses an entry.
\<close>

theorem lookup_captures_once:
  assumes "i \<le> k" and "k < length qs" and "snd (qs ! i) = snd (qs ! k)"
    and "\<And>h. h < i \<Longrightarrow> snd (qs ! h) \<noteq> snd (qs ! i)"
  shows "fst (lookups qs []) ! k = fst (qs ! i) (snd (qs ! i))"
proof -
  have gen: "fst (lookups qs inputs) ! k = fst (qs ! i) (snd (qs ! i))"
    if "inputs_ok inputs" "map_of inputs (snd (qs ! i)) = None" "i \<le> k" "k < length qs" "snd (qs ! i) = snd (qs ! k)"
      "\<forall>h < i. snd (qs ! h) \<noteq> snd (qs ! i)" for inputs qs i k
    using that
  proof (induction qs arbitrary: inputs i k)
    case (Cons q qs)
    obtain g m where q: "q = (g, m)" by force
    obtain w inputs' where l: "lookupFacts g m inputs = (w, inputs')" by force
    note ok = lookupFacts_ok[OF Cons.prems(1) l]
    show ?case
    proof (cases i)
      case 0
      then have now: "map_of inputs' m = Some w" "w = g m" using ok Cons.prems(2) q by auto
      show ?thesis
      proof (cases k)
        case (Suc k')
        have "fst (lookups qs inputs') ! k' = w"
          by (rule lookups_stable[of inputs' m w "fst (qs ! k')"])
            (use ok now Cons.prems(4,5) 0 Suc q in auto)
        with 0 Suc now q l show ?thesis by (auto split: prod.splits)
      qed (use 0 now q l in \<open>auto split: prod.splits\<close>)
    next
      case (Suc i')
      obtain k' where k: "k = Suc k'" using Suc Cons.prems(3) by (cases k) auto
      have ne: "m \<noteq> snd (qs ! i')" using Cons.prems(6) Suc q by (metis nth_Cons_0 nth_Cons_Suc snd_conv zero_less_Suc)
      have "fst (lookups qs inputs') ! k' = fst (qs ! i') (snd (qs ! i'))"
      proof (rule Cons.IH)
        show "map_of inputs' (snd (qs ! i')) = None" using ok ne Cons.prems(2) Suc by simp
        show "\<forall>h < i'. snd (qs ! h) \<noteq> snd (qs ! i')" using Cons.prems(6) Suc by (metis Suc_mono nth_Cons_Suc)
      qed (use ok Cons.prems(3,4,5) Suc k in auto)
      with Suc k q l show ?thesis by (auto split: prod.splits)
    qed
  qed simp
  show ?thesis by (rule gen) (use assms in \<open>auto simp: inputs_ok_def\<close>)
qed

theorem lookup_captures_once_witness:
  "fst (lookups [(\<lambda>n. 1, zeroResource), (\<lambda>n. 2, zeroResource)] []) ! 1 = (1 :: nat)"
  using lookup_captures_once[of 0 1 "[(\<lambda>n. 1, zeroResource), (\<lambda>n. 2 :: nat, zeroResource)]"] by simp

section \<open>Value references of Helm releases\<close>

text \<open>
  The third-party library: \<open>yamlMap\<close> decodes a text into a map (\<open>Inr None\<close> is a nil map), \<open>mergeMaps\<close> is
  Helm's recursive merge, \<open>parseInto\<close> and \<open>parseIntoString\<close> are Helm's path setters.
\<close>

record helmLib =
  yamlMap :: "string \<Rightarrow> string + doc option"
  mergeMaps :: "doc \<Rightarrow> doc \<Rightarrow> doc"
  parseInto :: "string \<Rightarrow> doc \<Rightarrow> string + doc"
  parseIntoString :: "string \<Rightarrow> doc \<Rightarrow> string + doc"

fun asMap :: "json \<Rightarrow> doc option" where
  "asMap (JMap m) = Some m"
| "asMap JNilMap = Some []"
| "asMap _ = None"

definition mergeEntry :: "helmLib \<Rightarrow> doc \<Rightarrow> string \<Rightarrow> json \<Rightarrow> json" where
  "mergeEntry lib dst k v = (case map_of dst k of
     None \<Rightarrow> v
   | Some existing \<Rightarrow> (case (asMap existing, asMap v) of
       (Some ebm, Some vbm) \<Rightarrow> JMap (mergeMaps lib ebm vbm)
     | _ \<Rightarrow> v))"

definition deepMergeInto :: "helmLib \<Rightarrow> doc \<Rightarrow> doc \<Rightarrow> doc" where
  "deepMergeInto lib dst override = fold (\<lambda>(k, v) dst. gput k (mergeEntry lib dst k v) dst) override dst"

datatype dataResult = DataErr string | DataMissing | DataFound string

record dataBag =
  bagKeys :: "string list"
  bagValue :: "string \<Rightarrow> dataResult"

type_synonym provider = "NamedResource \<Rightarrow> dataBag option"

text \<open>\<open>refKey\<close> is the result of the upstream accessor \<^verbatim>\<open>GetValuesKey\<close>.\<close>

record ValuesReference =
  refKind :: string
  refObject :: string
  refKey :: string
  refTargetPath :: string
  refOptional :: bool
  refLiteral :: bool

datatype valueError =
  UnsupportedKind string
| MissingObject string string string
| MissingKey string string string string
| BadData string
| BadYAML string string string
| BadTargetPath string string

fun isMissing :: "valueError \<Rightarrow> bool" where
  "isMissing (MissingObject _ _ _) = True"
| "isMissing (MissingKey _ _ _ _) = True"
| "isMissing _ = False"

definition resourceData :: "string \<Rightarrow> string \<Rightarrow> string \<Rightarrow> provider \<Rightarrow> valueError + dataBag option" where
  "resourceData kind namespace name p =
     (if kind = ''Secret'' \<or> kind = ''ConfigMap'' then Inr (p (NamedResource [] kind namespace name))
      else Inl (UnsupportedKind kind))"

definition lookupValueRef :: "ValuesReference \<Rightarrow> string \<Rightarrow> provider \<Rightarrow> valueError + string" where
  "lookupValueRef ref namespace p = (case resourceData (refKind ref) namespace (refObject ref) p of
     Inl e \<Rightarrow> Inl e
   | Inr None \<Rightarrow> Inl (MissingObject (refKind ref) namespace (refObject ref))
   | Inr (Some data) \<Rightarrow> (case bagValue data (refKey ref) of
       DataErr e \<Rightarrow> Inl (BadData e)
     | DataFound v \<Rightarrow> Inr v
     | DataMissing \<Rightarrow>
         if bagKeys data = [] then Inl (MissingObject (refKind ref) namespace (refObject ref))
         else Inl (MissingKey (refKind ref) namespace (refObject ref) (refKey ref))))"

text \<open>The memo of decoded texts; \<open>None\<close> is the nil cache, which stores nothing.\<close>

type_synonym valueCache = "(string, doc) gomap option"

definition cacheLookup :: "valueCache \<Rightarrow> string \<Rightarrow> doc option" where
  "cacheLookup c key = (case c of None \<Rightarrow> None | Some m \<Rightarrow> map_of m key)"

definition cachePut :: "valueCache \<Rightarrow> string \<Rightarrow> doc \<Rightarrow> valueCache" where
  "cachePut c key parsed = map_option (gput key parsed) c"

definition updateHelmReleaseValues ::
  "helmLib \<Rightarrow> valueCache \<Rightarrow> ValuesReference \<Rightarrow> string \<Rightarrow> doc \<Rightarrow> valueError + doc \<times> valueCache" where
  "updateHelmReleaseValues lib c ref found vals = (case cacheLookup c found of
     Some parsed \<Rightarrow> Inr (deepMergeInto lib vals parsed, c)
   | None \<Rightarrow> (case yamlMap lib found of
       Inl e \<Rightarrow> Inl (BadYAML (refObject ref) (refKey ref) e)
     | Inr None \<Rightarrow> Inr (vals, c)
     | Inr (Some parsed) \<Rightarrow> Inr (deepMergeInto lib vals parsed, cachePut c found parsed)))"

definition stripMatchingQuotes :: "string \<Rightarrow> string \<times> bool" where
  "stripMatchingQuotes v =
     (if 2 \<le> length v \<and> (hd v = CHR 0x27 \<or> hd v = CHR 0x22) \<and> last v = hd v
      then (butlast (tl v), True) else (v, False))"

fun escapeChar :: "char \<Rightarrow> string" where
  "escapeChar c = (if c \<in> {CHR 0x5C, CHR '','', CHR ''['', CHR '']'', CHR ''{'', CHR ''}''} then [CHR 0x5C, c] else [c])"

definition replaceLiteralValueAtPath :: "helmLib \<Rightarrow> string \<Rightarrow> string \<Rightarrow> doc \<Rightarrow> valueError + doc" where
  "replaceLiteralValueAtPath lib path v vals =
     (case parseIntoString lib (path @ ''='' @ concat (map escapeChar v)) vals of
        Inl e \<Rightarrow> Inl (BadTargetPath path e) | Inr d \<Rightarrow> Inr d)"

definition replaceValueAtPath :: "helmLib \<Rightarrow> string \<Rightarrow> string \<Rightarrow> doc \<Rightarrow> valueError + doc" where
  "replaceValueAtPath lib path v vals =
     (case (case stripMatchingQuotes v of
              (unquoted, True) \<Rightarrow> parseIntoString lib (path @ ''='' @ unquoted) vals
            | (_, False) \<Rightarrow> parseInto lib (path @ ''='' @ v) vals) of
        Inl e \<Rightarrow> Inl (BadTargetPath path e) | Inr d \<Rightarrow> Inr d)"

definition setValueReference :: "helmLib \<Rightarrow> ValuesReference \<Rightarrow> string \<Rightarrow> doc \<Rightarrow> valueError + doc" where
  "setValueReference lib ref found vals =
     (if refLiteral ref then replaceLiteralValueAtPath lib (refTargetPath ref) found vals
      else replaceValueAtPath lib (refTargetPath ref) found vals)"

record valueExpansion =
  exValues :: doc
  exOwned :: bool

definition expand ::
  "helmLib \<Rightarrow> provider \<Rightarrow> ValuesReference \<Rightarrow> string \<Rightarrow> valueExpansion \<times> valueCache
     \<Rightarrow> valueError + valueExpansion \<times> valueCache" where
  "expand lib p ref namespace s = (case s of (ex, c) \<Rightarrow>
     (case lookupValueRef ref namespace p of
        Inl e \<Rightarrow> if isMissing e \<and> refOptional ref then Inr (ex, c) else Inl e
      | Inr found \<Rightarrow>
          if refTargetPath ref \<noteq> [] then
            (let vals = (if exOwned ex then exValues ex else deepCopyDoc (exValues ex))
             in case setValueReference lib ref found vals of
                  Inl e \<Rightarrow> Inl e
                | Inr d \<Rightarrow> Inr (\<lparr>exValues = d, exOwned = True\<rparr>, c))
          else
            (case updateHelmReleaseValues lib c ref found (exValues ex) of
               Inl e \<Rightarrow> Inl e
             | Inr (d, c') \<Rightarrow> Inr (\<lparr>exValues = d, exOwned = False\<rparr>, c'))))"

fun expandAll ::
  "helmLib \<Rightarrow> provider \<Rightarrow> (ValuesReference \<times> string) list \<Rightarrow> valueExpansion \<times> valueCache
     \<Rightarrow> valueError + valueExpansion \<times> valueCache" where
  "expandAll lib p [] s = Inr s"
| "expandAll lib p ((ref, namespace) # refs) s = (case expand lib p ref namespace s of
     Inl e \<Rightarrow> Inl e
   | Inr s' \<Rightarrow> expandAll lib p refs s')"

text \<open>
  \<open>refs\<close> are the release's \<^verbatim>\<open>valuesFrom\<close> entries with the namespace their edge resolves to; the result
  is the new values of the release and the cache.
\<close>

definition expandValueReferences ::
  "helmLib \<Rightarrow> provider \<Rightarrow> (ValuesReference \<times> string) list \<Rightarrow> doc \<Rightarrow> valueCache \<Rightarrow> valueError + doc \<times> valueCache" where
  "expandValueReferences lib p refs inline c =
     (if refs = [] then Inr (inline, c)
      else case expandAll lib p refs (\<lparr>exValues = [], exOwned = True\<rparr>, c) of
        Inl e \<Rightarrow> Inl e
      | Inr (ex, c') \<Rightarrow> Inr (deepMergeInto lib (exValues ex) inline, c'))"

definition cache_ok :: "helmLib \<Rightarrow> valueCache \<Rightarrow> bool" where
  "cache_ok lib c \<longleftrightarrow> (case c of None \<Rightarrow> True
     | Some m \<Rightarrow> gok m \<and> (\<forall>k d. map_of m k = Some d \<longrightarrow> yamlMap lib k = Inr (Some d)))"

lemma updateHelmReleaseValues_cache:
  assumes "cache_ok lib c"
  shows "(case updateHelmReleaseValues lib c ref found vals of
      Inl e \<Rightarrow> updateHelmReleaseValues lib None ref found vals = Inl e
    | Inr (d, c') \<Rightarrow> cache_ok lib c' \<and> updateHelmReleaseValues lib None ref found vals = Inr (d, None))"
proof (cases c)
  case None
  then show ?thesis
    by (auto simp: updateHelmReleaseValues_def cacheLookup_def cachePut_def cache_ok_def split: sum.splits option.splits)
next
  case (Some m)
  with assms show ?thesis
    by (auto simp: updateHelmReleaseValues_def cacheLookup_def cachePut_def cache_ok_def map_of_gput gok_gput
        split: sum.splits option.splits)
qed

lemma expand_cache:
  assumes "cache_ok lib c"
  shows "(case expand lib p ref ns (ex, c) of
      Inl e \<Rightarrow> expand lib p ref ns (ex, None) = Inl e
    | Inr (ex', c') \<Rightarrow> cache_ok lib c' \<and> expand lib p ref ns (ex, None) = Inr (ex', None))"
proof (cases "lookupValueRef ref ns p")
  case (Inl e)
  with assms show ?thesis by (simp add: expand_def)
next
  case (Inr found)
  show ?thesis
  proof (cases "refTargetPath ref = []")
    case True
    with Inr updateHelmReleaseValues_cache[OF assms, of ref found "exValues ex"] show ?thesis
      by (cases "updateHelmReleaseValues lib c ref found (exValues ex)") (auto simp: expand_def)
  next
    case False
    with Inr assms show ?thesis by (auto simp: expand_def Let_def split: sum.splits)
  qed
qed

lemma expandAll_cache:
  assumes "cache_ok lib c"
  shows "(case expandAll lib p refs (ex, c) of
      Inl e \<Rightarrow> expandAll lib p refs (ex, None) = Inl e
    | Inr (ex', c') \<Rightarrow> cache_ok lib c' \<and> expandAll lib p refs (ex, None) = Inr (ex', None))"
  using assms
proof (induction refs arbitrary: ex c)
  case (Cons r refs)
  obtain ref ns where r: "r = (ref, ns)" by force
  note step = expand_cache[OF Cons.prems, of p ref ns ex]
  show ?case
  proof (cases "expand lib p ref ns (ex, c)")
    case (Inl e)
    with step r show ?thesis by simp
  next
    case (Inr s)
    obtain ex' c' where s: "s = (ex', c')" by force
    with step Inr have "cache_ok lib c'" "expand lib p ref ns (ex, None) = Inr (ex', None)" by auto
    with Cons.IH[of c' ex'] Inr r s show ?thesis by (auto split: sum.splits)
  qed
qed simp


definition exLib :: helmLib where
  "exLib = \<lparr>yamlMap = (\<lambda>s. if s = ''a: 1'' then Inr (Some [(''a'', JInt 1)]) else Inl ''bad''),
     mergeMaps = (\<lambda>a b. b), parseInto = (\<lambda>s d. Inr d), parseIntoString = (\<lambda>s d. Inr d)\<rparr>"

definition exProvider :: provider where
  "exProvider n = Some \<lparr>bagKeys = [''values.yaml''],
     bagValue = (\<lambda>k. if k = ''values.yaml'' then DataFound ''a: 1'' else DataMissing)\<rparr>"

definition exRef :: ValuesReference where
  "exRef = \<lparr>refKind = ''ConfigMap'', refObject = ''platform'', refKey = ''values.yaml'', refTargetPath = [],
     refOptional = False, refLiteral = False\<rparr>"

lemmas ex_value_defs = exLib_def exProvider_def exRef_def expandValueReferences_def expand_def lookupValueRef_def
  resourceData_def updateHelmReleaseValues_def cacheLookup_def cachePut_def deepMergeInto_def mergeEntry_def


lemma map_of_deepMerge_gen:
  assumes "gok dst" and "distinct (map fst override)"
  shows "gok (deepMergeInto lib dst override) \<and>
    map_of (deepMergeInto lib dst override) k =
      (case map_of override k of None \<Rightarrow> map_of dst k | Some v \<Rightarrow> Some (mergeEntry lib dst k v))"
  using assms
proof (induction override arbitrary: dst)
  case (Cons kv override)
  obtain a b where kv: "kv = (a, b)" by force
  have new: "map_of override a = None" using Cons.prems(2) kv by (simp add: map_of_eq_None_iff)
  have same: "mergeEntry lib (gput a (mergeEntry lib dst a b) dst) k v = mergeEntry lib dst k v" if "k \<noteq> a" for v
    using that Cons.prems(1) by (simp add: mergeEntry_def map_of_gput)
  show ?case
    using Cons.IH[OF gok_gput[OF Cons.prems(1)], of a "mergeEntry lib dst a b"] Cons.prems kv new same
    by (auto simp: deepMergeInto_def map_of_gput split: option.splits)
qed (simp add: deepMergeInto_def)

text \<open>
  C23. Merging gives the overriding document the last word: a key it has reads as its own value, unless
  both sides are maps, which Helm's merge combines; every other key of the target is kept.
\<close>

theorem deepMergeInto_precedence:
  assumes "gok dst" and "gok override"
  shows "map_of (deepMergeInto lib dst override) k = (case map_of override k of
      None \<Rightarrow> map_of dst k
    | Some v \<Rightarrow> Some (case (Option.bind (map_of dst k) asMap, asMap v) of
        (Some ebm, Some vbm) \<Rightarrow> JMap (mergeMaps lib ebm vbm) | _ \<Rightarrow> v))"
  using map_of_deepMerge_gen[OF assms(1) gok_distinct[OF assms(2)], of lib k]
  by (auto simp: mergeEntry_def split: option.splits)

theorem deepMergeInto_precedence_witness:
  "map_of (deepMergeInto exLib [(''a'', JInt 1), (''b'', JInt 2)] [(''b'', JStr ''x'')]) ''b'' = Some (JStr ''x'')"
  using deepMergeInto_precedence[of "[(''a'', JInt 1), (''b'', JInt 2)]" "[(''b'', JStr ''x'')]" exLib "''b''"]
  by (simp add: gok_def)

section \<open>Substitutions of Kustomizations\<close>

definition isNameLead :: "char \<Rightarrow> bool" where
  "isNameLead ch \<longleftrightarrow> ch = CHR ''_'' \<or> charIn CHR ''a'' CHR ''z'' ch \<or> charIn CHR ''A'' CHR ''Z'' ch"

definition isVarName :: "string \<Rightarrow> bool" where
  "isVarName s = (case s of [] \<Rightarrow> False
     | c # cs \<Rightarrow> isNameLead c \<and> list_all (\<lambda>d. isNameLead d \<or> charIn CHR ''0'' CHR ''9'' d) cs)"

type_synonym vars = "(string, string) gomap"

fun mergeLoop :: "dataBag \<Rightarrow> string list \<Rightarrow> vars \<Rightarrow> (string \<times> string) option \<Rightarrow> vars \<times> (string \<times> string) option" where
  "mergeLoop data [] vs failure = (vs, failure)"
| "mergeLoop data (k # ks) vs failure = (case bagValue data k of
     DataErr e \<Rightarrow> mergeLoop data ks vs
       (case failure of None \<Rightarrow> Some (k, e) | Some (k', e') \<Rightarrow> if k < k' then Some (k, e) else failure)
   | DataFound v \<Rightarrow> mergeLoop data ks (gput k (filter (\<lambda>c. c \<noteq> CHR 0x0A) v) vs) failure
   | DataMissing \<Rightarrow> mergeLoop data ks (gput k [] vs) failure)"

definition mergeSubstitutions :: "vars \<Rightarrow> dataBag \<Rightarrow> valueError + vars" where
  "mergeSubstitutions vs data = (case mergeLoop data (bagKeys data) vs None of
     (vs', None) \<Rightarrow> Inr vs' | (vs', Some (k, e)) \<Rightarrow> Inl (BadData e))"

record SubstituteReference =
  subKind :: string
  subName :: string
  subOptional :: bool

fun readSubstitutions :: "string \<Rightarrow> provider \<Rightarrow> SubstituteReference list \<Rightarrow> vars \<Rightarrow> valueError + vars" where
  "readSubstitutions namespace p [] vs = Inr vs"
| "readSubstitutions namespace p (ref # refs) vs =
     (case resourceData (subKind ref) namespace (subName ref) p of
        Inl e \<Rightarrow> readSubstitutions namespace p refs vs
      | Inr None \<Rightarrow> readSubstitutions namespace p refs vs
      | Inr (Some data) \<Rightarrow>
          if bagKeys data = [] then readSubstitutions namespace p refs vs
          else case mergeSubstitutions vs data of
            Inl e \<Rightarrow> Inl e
          | Inr vs' \<Rightarrow> readSubstitutions namespace p refs vs')"

datatype substError = NoNamespace | ReadFailed valueError | InvalidNames "string list"

definition validateSubstitutions :: "vars \<Rightarrow> substError option" where
  "validateSubstitutions vs =
     (let invalid = filter (\<lambda>n. \<not> isVarName n) (gkeys vs)
      in if invalid = [] then None else Some (InvalidNames (sort invalid)))"

text \<open>
  \<open>postBuild\<close> is the spec's field: the references and the inline substitutions; \<open>None\<close> is a
  Kustomization without it. The result is the new inline substitutions, \<open>None\<close> when nothing is written.
\<close>

definition expandPostBuild ::
  "string \<Rightarrow> (SubstituteReference list \<times> vars) option \<Rightarrow> provider \<Rightarrow> substError + vars option" where
  "expandPostBuild namespace postBuild p = (case postBuild of
     None \<Rightarrow> Inr None
   | Some (from, inline) \<Rightarrow>
       if from = [] \<and> inline = [] then Inr None
       else if from \<noteq> [] \<and> namespace = [] then Inl NoNamespace
       else case readSubstitutions namespace p from [] of
         Inl e \<Rightarrow> Inl (ReadFailed e)
       | Inr vs \<Rightarrow>
           let vs = fold (\<lambda>(k, v). gput k v) inline vs
           in (case validateSubstitutions vs of Some e \<Rightarrow> Inl e | None \<Rightarrow> Inr (Some vs)))"

text \<open>What one reference and the list of references contribute to a variable, later references last.\<close>

definition refValue :: "string \<Rightarrow> provider \<Rightarrow> SubstituteReference \<Rightarrow> string \<Rightarrow> string option" where
  "refValue namespace p ref k = (case resourceData (subKind ref) namespace (subName ref) p of
     Inr (Some data) \<Rightarrow> if k \<in> set (bagKeys data)
       then Some (case bagValue data k of DataFound v \<Rightarrow> filter (\<lambda>c. c \<noteq> CHR 0x0A) v | _ \<Rightarrow> []) else None
   | _ \<Rightarrow> None)"

fun refsValue :: "string \<Rightarrow> provider \<Rightarrow> SubstituteReference list \<Rightarrow> string \<Rightarrow> string option" where
  "refsValue namespace p [] k = None"
| "refsValue namespace p (ref # refs) k = (case refsValue namespace p refs k of
     Some v \<Rightarrow> Some v | None \<Rightarrow> refValue namespace p ref k)"

lemma mergeLoop_facts:
  assumes "gok vs" and "mergeLoop data ks vs failure = (vs', None)"
  shows "gok vs' \<and> failure = None \<and> map_of vs' k = (if k \<in> set ks
    then Some (case bagValue data k of DataFound v \<Rightarrow> filter (\<lambda>c. c \<noteq> CHR 0x0A) v | _ \<Rightarrow> []) else map_of vs k)"
  using assms
proof (induction data ks vs failure rule: mergeLoop.induct)
  case (2 data k1 ks vs failure)
  show ?case
  proof (cases "bagValue data k1")
    case (DataErr e)
    with 2 show ?thesis by (auto split: option.splits if_splits)
  next
    case DataMissing
    with 2(2)[OF DataMissing gok_gput[OF 2(4)]] 2(4,5) show ?thesis by (auto simp: map_of_gput)
  next
    case (DataFound v)
    with 2(3)[OF DataFound gok_gput[OF 2(4)]] 2(4,5) show ?thesis by (auto simp: map_of_gput)
  qed
qed simp

lemma readSubstitutions_facts:
  assumes "gok vs" and "readSubstitutions namespace p refs vs = Inr vs'"
  shows "gok vs' \<and> map_of vs' k = (case refsValue namespace p refs k of Some v \<Rightarrow> Some v | None \<Rightarrow> map_of vs k)"
  using assms
proof (induction refs arbitrary: vs)
  case (Cons ref refs)
  let ?rd = "resourceData (subKind ref) namespace (subName ref) p"
  show ?case
  proof (cases "\<exists>data. ?rd = Inr (Some data) \<and> bagKeys data \<noteq> []")
    case False
    then have "readSubstitutions namespace p refs vs = Inr vs'" and "refValue namespace p ref k = None"
      using Cons.prems(2) by (auto simp: refValue_def split: sum.splits option.splits)
    with Cons.IH[OF Cons.prems(1)] show ?thesis by (auto split: option.splits)
  next
    case True
    then obtain data where data: "?rd = Inr (Some data)" "bagKeys data \<noteq> []" by blast
    then obtain vs1 where m: "mergeLoop data (bagKeys data) vs None = (vs1, None)"
      and rest: "readSubstitutions namespace p refs vs1 = Inr vs'"
      using Cons.prems(2) by (auto simp: mergeSubstitutions_def split: sum.splits prod.splits option.splits)
    note facts = mergeLoop_facts[OF Cons.prems(1) m]
    then have "gok vs1" by blast
    from Cons.IH[OF this rest] facts[of k] data show ?thesis
      by (auto simp: refValue_def split: option.splits)
  qed
qed simp

text \<open>
  C22. Substitution variables: when expansion succeeds, each variable has the inline value if there is
  one, otherwise the value of the last reference that provides it, with newlines removed; nothing else
  is defined, and every name is a valid identifier. A Kustomization with an invalid name anywhere is
  rejected as a whole.
\<close>

theorem postBuild_variables:
  assumes "gok inline" and "expandPostBuild namespace (Some (from, inline)) p = Inr (Some vs)"
  shows "map_of vs k = (case map_of inline k of Some v \<Rightarrow> Some v | None \<Rightarrow> refsValue namespace p from k) \<and>
    (map_of vs k \<noteq> None \<longrightarrow> isVarName k)"
proof -
  obtain vs0 where r: "readSubstitutions namespace p from [] = Inr vs0"
    and vs: "vs = fold (\<lambda>(k, v). gput k v) inline vs0" "validateSubstitutions vs = None"
    using assms(2) by (auto simp: expandPostBuild_def Let_def split: if_splits sum.splits option.splits)
  note facts = readSubstitutions_facts[OF gok_Nil r]
  have rev: "map_of (rev inline) k = map_of inline k"
    using gok_distinct[OF assms(1)] map_of_inject_set[of "rev inline" inline] by (simp add: rev_map[symmetric])
  have "map_of vs k = (case map_of inline k of Some v \<Rightarrow> Some v | None \<Rightarrow> refsValue namespace p from k)"
    using gm.get_fold_put[of vs0 inline k] facts[of k] rev by (auto simp: vs(1) split: option.splits)
  moreover have "isVarName k" if "map_of vs k \<noteq> None"
  proof -
    have "k \<in> set (gkeys vs)" using that by (auto simp: gkeys_def dest: map_of_SomeD intro: rev_image_eqI)
    with vs(2) show ?thesis
      by (auto simp: validateSubstitutions_def Let_def filter_empty_conv split: if_splits)
  qed
  ultimately show ?thesis by blast
qed

theorem postBuild_variables_witness:
  "map_of [(''A'', ''1''), (''B'', ''2'')] ''A'' = Some ''1'' \<and> isVarName ''A''"
proof -
  have "expandPostBuild ''apps'' (Some ([], [(''A'', ''1''), (''B'', ''2'')])) exProvider =
      Inr (Some [(''A'', ''1''), (''B'', ''2'')])" by code_simp
  from postBuild_variables[OF _ this, of "''A''"] show ?thesis by (simp add: gok_def)
qed

section \<open>Unambiguous inline substitutions\<close>

text \<open>One Kustomization's inline variables (after \<^verbatim>\<open>VarsMap\<close>), without a postBuild \<open>None\<close>.\<close>

definition depEntry :: "string \<times> string \<Rightarrow> vars \<times> string list \<Rightarrow> vars \<times> string list" where
  "depEntry kv s = (case kv of (k, v) \<Rightarrow> case s of (known, conflicting) \<Rightarrow>
     if k \<in> set conflicting then (known, conflicting)
     else if map_of known k \<noteq> None \<and> map_of known k \<noteq> Some v then (gdel k known, k # conflicting)
     else (gput k v known, conflicting))"

definition newDependencySubstitutions :: "vars option list \<Rightarrow> vars" where
  "newDependencySubstitutions kss =
     fst (fold depEntry (concat (map (\<lambda>ks. case ks of None \<Rightarrow> [] | Some vs \<Rightarrow> vs) kss)) ([], []))"

definition resolveText :: "(string \<Rightarrow> (string \<Rightarrow> string option) \<Rightarrow> string option) \<Rightarrow> vars \<Rightarrow> string \<Rightarrow> string" where
  "resolveText envsubst d text =
     (if \<not> contains text ''${'' then text
      else case envsubst text (map_of d) of None \<Rightarrow> text | Some out \<Rightarrow> out)"

text \<open>
  The loop invariant, per variable: \<open>V\<close> is the set of values declared so far, \<open>kn\<close> the known value and
  \<open>cf\<close> whether the variable is marked conflicting.
\<close>

definition varState :: "string set \<Rightarrow> string option \<Rightarrow> bool \<Rightarrow> bool" where
  "varState V kn cf = (if cf then kn = None \<and> (\<exists>v w. v \<noteq> w \<and> v \<in> V \<and> w \<in> V) else V = set_option kn)"

definition depInv :: "(string \<times> string) set \<Rightarrow> vars \<times> string list \<Rightarrow> bool" where
  "depInv P s \<longleftrightarrow> gok (fst s) \<and> (\<forall>k. varState (P `` {k}) (map_of (fst s) k) (k \<in> set (snd s)))"

lemma varState_Some: "varState V kn cf \<Longrightarrow> kn = Some v \<longleftrightarrow> V = {v}"
  by (cases kn) (auto simp: varState_def split: if_splits)

lemma varState_insert:
  assumes "varState V kn cf"
  shows "cf \<Longrightarrow> varState (insert b V) kn cf"
    and "\<not> cf \<Longrightarrow> kn = Some w \<Longrightarrow> w \<noteq> b \<Longrightarrow> varState (insert b V) None True"
    and "\<not> cf \<Longrightarrow> kn = None \<or> kn = Some b \<Longrightarrow> varState (insert b V) (Some b) False"
  using assms by (auto simp: varState_def)

lemma depInv_step:
  assumes "depInv P s"
  shows "depInv (insert kv P) (depEntry kv s)"
proof -
  obtain a b where kv: "kv = (a, b)" by force
  obtain u c where s: "s = (u, c)" by force
  have ok: "gok u" and st: "varState (P `` {k}) (map_of u k) (k \<in> set c)" for k
    using assms by (simp_all add: depInv_def s)
  have at: "insert (a, b) P `` {a} = insert b (P `` {a})" and off: "k \<noteq> a \<Longrightarrow> insert (a, b) P `` {k} = P `` {k}" for k
    by auto
  have "varState (insert kv P `` {k}) (map_of (fst (depEntry kv s)) k) (k \<in> set (snd (depEntry kv s)))" for k
  proof (cases "k = a")
    case True
    consider (cf) "a \<in> set c" | (new) w where "a \<notin> set c" "map_of u a = Some w" "w \<noteq> b"
      | (same) "a \<notin> set c" "map_of u a = None \<or> map_of u a = Some b" by (cases "map_of u a") auto
    then show ?thesis
      by cases (use varState_insert[OF st[of a]] ok in
        \<open>auto simp: True at kv s depEntry_def map_of_gput map_of_gdel\<close>)
  next
    case False
    then show ?thesis using st[of k] ok by (simp add: off kv s depEntry_def map_of_gput map_of_gdel)
  qed
  moreover have "gok (fst (depEntry kv s))" using ok by (simp add: kv s depEntry_def gok_gput gok_gdel)
  ultimately show ?thesis by (simp add: depInv_def)
qed

lemma depInv_fold: "depInv P s \<Longrightarrow> depInv (P \<union> set kvs) (fold depEntry kvs s)"
proof (induction kvs arbitrary: P s)
  case (Cons kv kvs)
  then show ?case using Cons.IH[OF depInv_step[OF Cons.prems, of kv]] by simp
qed simp

text \<open>
  Discovered inline substitutions are unambiguous and independent of the order in which
  Kustomizations are visited: a variable is known with a value exactly when some Kustomization declares
  it and all that declare it agree on that value.
\<close>

theorem dependency_substitutions_agree:
  "map_of (newDependencySubstitutions kss) k = Some v \<longleftrightarrow>
     {w. \<exists>vs. Some vs \<in> set kss \<and> (k, w) \<in> set vs} = {v}"
proof -
  let ?kvs = "concat (map (\<lambda>ks. case ks of None \<Rightarrow> [] | Some vs \<Rightarrow> vs) kss)"
  have "depInv ({} \<union> set ?kvs) (fold depEntry ?kvs ([], []))"
    by (rule depInv_fold) (simp add: depInv_def varState_def gok_def)
  then have "map_of (newDependencySubstitutions kss) k = Some v \<longleftrightarrow> set ?kvs `` {k} = {v}"
    unfolding depInv_def newDependencySubstitutions_def Un_empty_left by (intro varState_Some) blast
  moreover have "set ?kvs `` {k} = {w. \<exists>vs. Some vs \<in> set kss \<and> (k, w) \<in> set vs}"
    by (auto split: option.splits)
  ultimately show ?thesis by simp
qed

end
