(* ===== verification/SsrfGuard.thy ===== *)
theory SsrfGuard
  imports Prelude "HOL-Library.Word"
begin

text \<open>
  The egress guard of \<^verbatim>\<open>pkg/source/ssrfguard/ssrfguard.go\<close>: which resolved addresses must not be dialed.

  Addresses are those of \<^verbatim>\<open>net/netip\<close>: the zero value, an IPv4 address, or an IPv6 address with a zone
  (empty when there is none). The predicates of that package are written as its documentation and source
  give them, on the bytes of the address. The theorems compare the guard's bit tests with address blocks
  given by a base and a prefix length.
\<close>

unbundle bit_operations_syntax

section \<open>Addresses\<close>

datatype Addr = NoAddr | V4 "32 word" | V6 "128 word" string

datatype Prefix = Prefix4 "32 word" nat | Prefix6 "128 word" nat

definition v4byte :: "nat \<Rightarrow> 32 word \<Rightarrow> 8 word" where
  "v4byte i a = ucast (drop_bit (8 * (3 - i)) a)"

definition v6byte :: "nat \<Rightarrow> 128 word \<Rightarrow> 8 word" where
  "v6byte i a = ucast (drop_bit (8 * (15 - i)) a)"

definition v6first16 :: "128 word \<Rightarrow> 16 word" where
  "v6first16 a = ucast (drop_bit 112 a)"

definition addrFrom4 :: "8 word \<Rightarrow> 8 word \<Rightarrow> 8 word \<Rightarrow> 8 word \<Rightarrow> Addr" where
  "addrFrom4 b0 b1 b2 b3 = V4 (push_bit 24 (ucast b0) OR push_bit 16 (ucast b1) OR push_bit 8 (ucast b2) OR ucast b3)"

fun unmap :: "Addr \<Rightarrow> Addr" where
  "unmap (V6 a z) = (if drop_bit 32 a = 0xffff then V4 (ucast a) else V6 a z)"
| "unmap a = a"

fun isLoopback :: "Addr \<Rightarrow> bool" where
  "isLoopback (V4 a) = (v4byte 0 a = 127)"
| "isLoopback (V6 a z) = (a = 1)"
| "isLoopback NoAddr = False"

fun isPrivate :: "Addr \<Rightarrow> bool" where
  "isPrivate (V4 a) = (v4byte 0 a = 10 \<or> v4byte 0 a = 172 \<and> v4byte 1 a AND 0xf0 = 16 \<or>
     v4byte 0 a = 192 \<and> v4byte 1 a = 168)"
| "isPrivate (V6 a z) = (v6byte 0 a AND 0xfe = 0xfc)"
| "isPrivate NoAddr = False"

fun isLinkLocalUnicast :: "Addr \<Rightarrow> bool" where
  "isLinkLocalUnicast (V4 a) = (v4byte 0 a = 169 \<and> v4byte 1 a = 254)"
| "isLinkLocalUnicast (V6 a z) = (v6first16 a AND 0xffc0 = 0xfe80)"
| "isLinkLocalUnicast NoAddr = False"

fun isLinkLocalMulticast :: "Addr \<Rightarrow> bool" where
  "isLinkLocalMulticast (V4 a) = (v4byte 0 a = 224 \<and> v4byte 1 a = 0 \<and> v4byte 2 a = 0)"
| "isLinkLocalMulticast (V6 a z) = (v6first16 a AND 0xff0f = 0xff02)"
| "isLinkLocalMulticast NoAddr = False"

fun isMulticast :: "Addr \<Rightarrow> bool" where
  "isMulticast (V4 a) = (v4byte 0 a AND 0xf0 = 0xe0)"
| "isMulticast (V6 a z) = (v6byte 0 a = 0xff)"
| "isMulticast NoAddr = False"

definition isUnspecified :: "Addr \<Rightarrow> bool" where
  "isUnspecified a \<longleftrightarrow> a = V4 0 \<or> a = V6 0 []"

text \<open>\<^verbatim>\<open>Prefix.Contains\<close>: never across address families, and never for an address with a zone.\<close>

fun containsAddr :: "Prefix \<Rightarrow> Addr \<Rightarrow> bool" where
  "containsAddr (Prefix4 p n) (V4 a) = (drop_bit (32 - n) (a XOR p) = 0)"
| "containsAddr (Prefix6 p n) (V6 a z) = (z = [] \<and> (a XOR p) AND NOT (mask (128 - n)) = 0)"
| "containsAddr p a = False"

section \<open>The guard\<close>

definition cgnat :: Prefix where "cgnat = Prefix4 0x64400000 10"
definition ietfProto :: Prefix where "ietfProto = Prefix4 0xc0000000 24"
definition benchmark :: Prefix where "benchmark = Prefix4 0xc6120000 15"
definition nat64 :: Prefix where "nat64 = Prefix6 0x0064ff9b000000000000000000000000 96"
definition sixToFour :: Prefix where "sixToFour = Prefix6 0x20020000000000000000000000000000 16"
definition teredo :: Prefix where "teredo = Prefix6 0x20010000000000000000000000000000 32"
definition broadcastV4 :: Addr where "broadcastV4 = addrFrom4 255 255 255 255"

lemmas prefix_defs = cgnat_def ietfProto_def benchmark_def nat64_def sixToFour_def teredo_def broadcastV4_def

definition isV4Compatible :: "128 word \<Rightarrow> bool" where
  "isV4Compatible a \<longleftrightarrow> list_all (\<lambda>i. v6byte i a = 0) [0..<12] \<and>
     v6byte 12 a OR v6byte 13 a OR v6byte 14 a OR v6byte 15 a \<noteq> 0"

text \<open>The cases of the switch of \<^verbatim>\<open>blocked\<close>, on the unmapped address.\<close>

definition blockedDirect :: "Addr \<Rightarrow> bool" where
  "blockedDirect a \<longleftrightarrow>
     a = NoAddr \<or> isLoopback a \<or> isPrivate a \<or> isLinkLocalUnicast a \<or> isLinkLocalMulticast a \<or>
     isMulticast a \<or> isUnspecified a \<or> a = broadcastV4 \<or> (case a of V4 w \<Rightarrow> v4byte 0 w = 0 | _ \<Rightarrow> False) \<or>
     containsAddr cgnat a \<or> containsAddr ietfProto a \<or> containsAddr benchmark a"

fun addrRank :: "Addr \<Rightarrow> nat" where
  "addrRank (V6 a z) = 1"
| "addrRank a = 0"

lemma addrRank_unmap: "addrRank (unmap a) \<le> addrRank a"
  by (cases a) auto

function blocked :: "Addr \<Rightarrow> bool" and embeddedV4Blocked :: "Addr \<Rightarrow> bool" where
  "blocked a0 = (let a = unmap a0 in if blockedDirect a then True else embeddedV4Blocked a)"
| "embeddedV4Blocked NoAddr = False"
| "embeddedV4Blocked (V4 w) = False"
| "embeddedV4Blocked (V6 b z) =
     (let a = V6 b z
      in if containsAddr nat64 a then blocked (addrFrom4 (v6byte 12 b) (v6byte 13 b) (v6byte 14 b) (v6byte 15 b))
         else if containsAddr sixToFour a then blocked (addrFrom4 (v6byte 2 b) (v6byte 3 b) (v6byte 4 b) (v6byte 5 b))
         else if containsAddr teredo a
         then blocked (addrFrom4 (NOT (v6byte 12 b)) (NOT (v6byte 13 b)) (NOT (v6byte 14 b)) (NOT (v6byte 15 b)))
         else if isV4Compatible b then blocked (addrFrom4 (v6byte 12 b) (v6byte 13 b) (v6byte 14 b) (v6byte 15 b))
         else False)"
  by pat_completeness auto

termination
  by (relation "measure (case_sum (\<lambda>a. 2 * addrRank a + 1) (\<lambda>a. 2 * addrRank a))")
    (auto simp: addrFrom4_def addrRank_unmap less_Suc_eq_le)

declare blocked.simps [simp del] embeddedV4Blocked.simps [simp del]

datatype dialError = BlockedAddress string | BlockedReason string string

text \<open>
  The dial hook: \<open>parse\<close> is \<^verbatim>\<open>netip.ParseAddrPort\<close> (the address, or the text of its error), \<open>restrict\<close> the
  process-wide toggle.
\<close>

definition control :: "(string \<Rightarrow> string + Addr) \<Rightarrow> bool \<Rightarrow> string \<Rightarrow> dialError option" where
  "control parse restrict address =
     (if \<not> restrict then None
      else case parse address of
        Inl e \<Rightarrow> Some (BlockedReason address e)
      | Inr a \<Rightarrow> if blocked a then Some (BlockedAddress address) else None)"

definition blockedErrorText :: "dialError \<Rightarrow> string" where
  "blockedErrorText e = (case e of
     BlockedReason address reason \<Rightarrow>
       if reason \<noteq> [] then ''egress to '' @ address @ '' blocked: '' @ reason
       else ''egress to '' @ address @ '' blocked by --restrict-egress (private/loopback/link-local/metadata address)''
   | BlockedAddress address \<Rightarrow>
       ''egress to '' @ address @ '' blocked by --restrict-egress (private/loopback/link-local/metadata address)'')"

section \<open>Address blocks\<close>

text \<open>Membership of an address, read as a number, in the block with the given base and prefix length.\<close>

definition cidr :: "nat \<Rightarrow> nat \<times> nat \<Rightarrow> nat \<Rightarrow> bool" where
  "cidr bits blk n \<longleftrightarrow> n div 2 ^ (bits - snd blk) = fst blk div 2 ^ (bits - snd blk)"

definition dotted :: "nat \<Rightarrow> nat \<Rightarrow> nat \<Rightarrow> nat \<Rightarrow> nat" where
  "dotted a b c d = ((a * 256 + b) * 256 + c) * 256 + d"

definition reservedV4 :: "nat \<Rightarrow> bool" where
  "reservedV4 n \<longleftrightarrow> list_ex (\<lambda>blk. cidr 32 blk n)
     [(dotted 0 0 0 0, 8), (dotted 10 0 0 0, 8), (dotted 100 64 0 0, 10), (dotted 127 0 0 0, 8),
      (dotted 169 254 0 0, 16), (dotted 172 16 0 0, 12), (dotted 192 0 0 0, 24), (dotted 192 168 0 0, 16),
      (dotted 198 18 0 0, 15), (dotted 224 0 0 0, 4), (dotted 255 255 255 255, 32)]"

definition reservedV6 :: "nat \<Rightarrow> bool" where
  "reservedV6 n \<longleftrightarrow> list_ex (\<lambda>blk. cidr 128 blk n)
     [(0, 128), (1, 128), (0xfc * 2 ^ 120, 7), (0xfe80 * 2 ^ 112, 10), (0xff * 2 ^ 120, 8)]"

text \<open>The IPv4 address a transition address carries: NAT64, 6to4, Teredo (complemented), IPv4-compatible.\<close>

definition carriedV4 :: "nat \<Rightarrow> nat option" where
  "carriedV4 n =
     (if cidr 128 (0x64ff9b * 2 ^ 96, 96) n then Some (n mod 2 ^ 32)
      else if cidr 128 (0x2002 * 2 ^ 112, 16) n then Some (n div 2 ^ 80 mod 2 ^ 32)
      else if cidr 128 (0x20010000 * 2 ^ 96, 32) n then Some (2 ^ 32 - 1 - n mod 2 ^ 32)
      else if cidr 128 (0, 96) n then Some n
      else None)"

lemma unat_drop: "unat (drop_bit n w) = unat w div 2 ^ n"
  by (subst unat_drop_bit_eq) (rule drop_bit_eq_div)

lemma unat_and_not_mask: "unat (w AND NOT (mask n)) = unat w div 2 ^ n * 2 ^ n" for w :: "'a::len word"
proof -
  have "w AND NOT (mask n) = push_bit n (drop_bit n w)"
    by (rule bit_eqI) (auto simp: bit_simps)
  moreover have "unat (push_bit n (drop_bit n w)) = take_bit LENGTH('a) (push_bit n (drop_bit n (unat w)))"
    by (simp add: unsigned_push_bit_eq unat_drop_bit_eq)
  moreover have "push_bit n (drop_bit n (unat w)) < 2 ^ LENGTH('a)"
    by (metis (no_types) drop_bit_eq_div div_times_less_eq_dividend order_le_less_trans push_bit_eq_mult unsigned_less)
  ultimately show ?thesis
    by (simp add: take_bit_nat_eq_self drop_bit_eq_div push_bit_eq_mult)
qed

lemma xor_high_eq_0: "(a XOR p) AND NOT (mask n) = 0 \<longleftrightarrow> unat a div 2 ^ n = unat p div 2 ^ n" for a p :: "'a::len word"
proof -
  have "(a XOR p) AND NOT (mask n) = 0 \<longleftrightarrow> a AND NOT (mask n) = p AND NOT (mask n)"
    by (auto simp: bit_eq_iff bit_simps)
  also have "\<dots> \<longleftrightarrow> unat a div 2 ^ n * 2 ^ n = unat p div 2 ^ n * 2 ^ n"
    by (metis unat_and_not_mask unsigned_word_eqI)
  finally show ?thesis by simp
qed

lemma xor_drop_eq_0: "drop_bit n (a XOR p) = 0 \<longleftrightarrow> unat a div 2 ^ n = unat p div 2 ^ n" for a p :: "'a::len word"
proof -
  have "drop_bit n (a XOR p) = 0 \<longleftrightarrow> drop_bit n a = drop_bit n p"
    by (auto simp: bit_eq_iff bit_simps)
  also have "\<dots> \<longleftrightarrow> unat (drop_bit n a) = unat (drop_bit n p)" by (metis unsigned_word_eqI)
  finally show ?thesis by (simp add: unat_drop)
qed

lemma unat_v4byte: "unat (v4byte i a) = unat a div 2 ^ (8 * (3 - i)) mod 256"
  by (simp add: v4byte_def unsigned_ucast_eq unat_drop take_bit_eq_mod)

lemma unat_v6byte: "unat (v6byte i a) = unat a div 2 ^ (8 * (15 - i)) mod 256"
  by (simp add: v6byte_def unsigned_ucast_eq unat_drop take_bit_eq_mod)

lemma unat_v6first16: "unat (v6first16 a) = unat a div 2 ^ 112 mod 2 ^ 16"
  by (simp add: v6first16_def unsigned_ucast_eq unat_drop take_bit_eq_mod)

lemma byte_eq: "(w :: 8 word) = v \<longleftrightarrow> unat w = unat v" and word16_eq: "(w' :: 16 word) = v' \<longleftrightarrow> unat w' = unat v'"
  by (metis unsigned_word_eqI)+

lemma masks: "(0xf0 :: 8 word) = NOT (mask 4)" "(0xfe :: 8 word) = NOT (mask 1)" "(0xffc0 :: 16 word) = NOT (mask 6)"
  by (simp_all add: mask_eq_exp_minus_1)

lemma unat_high: "unat (w AND 0xf0 :: 8 word) = unat w div 16 * 16" "unat (w AND 0xfe :: 8 word) = unat w div 2 * 2"
  "unat (w' AND 0xffc0 :: 16 word) = unat w' div 64 * 64"
  unfolding masks unat_and_not_mask by simp_all

lemma blocked_V4_direct: "blocked (V4 a) = blockedDirect (V4 a)"
  by (simp add: blocked.simps embeddedV4Blocked.simps)

text \<open>The tests on the leading bytes, in terms of the leading sixteen bits.\<close>

lemma top16:
  fixes a :: "32 word"
  defines "q \<equiv> unat a div 2 ^ 16"
  shows "unat (v4byte 0 a) = q div 256" "unat (v4byte 1 a) = q mod 256" "q < 65536"
    "unat a div 2 ^ 24 = q div 256" "unat a div 2 ^ 22 = q div 64" "unat a div 2 ^ 20 = q div 16"
    "unat a div 2 ^ 28 = q div 4096" "unat a div 2 ^ 17 = q div 2"
proof -
  have "unat a < 2 ^ 32" using unsigned_less[of a] by simp
  then show "q < 65536" by (simp add: q_def div_less_iff_less_mult)
  then show "unat (v4byte 0 a) = q div 256"
    by (simp add: unat_v4byte q_def div_mult2_eq[symmetric])
qed (simp_all add: unat_v4byte q_def div_mult2_eq[symmetric])

lemma digits_eq: "m < b \<Longrightarrow> m' < b \<Longrightarrow> b * h + m = b * h' + m' \<longleftrightarrow> h = h' \<and> m = m'" for b h h' m m' :: nat
  by (metis div_mult_self4 div_less add.right_neutral add_left_cancel less_nat_zero_code)

lemma blockedDirect_V4: "blockedDirect (V4 a) = reservedV4 (unat a)"
proof -
  define q where "q = unat a div 2 ^ 16"
  note top = top16[of a, folded q_def]
  have eq: "a = 0 \<longleftrightarrow> unat a = 0" "V4 a = broadcastV4 \<longleftrightarrow> unat a = 4294967295"
    by (simp_all add: broadcastV4_def addrFrom4_def word_unat_eq_iff)
  have sub: "unat a = 0 \<Longrightarrow> q = 0" by (simp add: q_def)
  have res: "reservedV4 (unat a) \<longleftrightarrow> q div 256 = 0 \<or> q div 256 = 10 \<or> q div 64 = 401 \<or> q div 256 = 127 \<or> q = 43518 \<or>
      q div 16 = 2753 \<or> unat a div 2 ^ 8 = 12582912 \<or> q = 49320 \<or> q div 2 = 25353 \<or> q div 4096 = 14 \<or> unat a = 4294967295"
    by (simp add: reservedV4_def cidr_def dotted_def top[simplified] q_def[symmetric, simplified])
  have bits: "unat (v4byte 0 a AND 0xf0) = q div 256 div 16 * 16" "unat (v4byte 1 a AND 0xf0) = q mod 256 div 16 * 16"
    by (simp_all only: unat_high top)
  define h l where "h = q div 256" and "l = q mod 256"
  have hl: "q = 256 * h + l" "l < 256" "q div 256 = h" "q mod 256 = l" by (simp_all add: h_def l_def)
  have "q div 16 = 16 * h + l div 16" "l div 16 < 16" "q div 4096 = h div 16" unfolding hl(1) using hl(2) by simp_all
  moreover have "16 * h + m = 2753 \<longleftrightarrow> h = 172 \<and> m * 16 = 16" if "m < 16" for m
    using digits_eq[of m 16 1 h 172] that by simp
  ultimately have parts: "q div 16 = 2753 \<longleftrightarrow> h = 172 \<and> l div 16 * 16 = 16" "q div 4096 = 14 \<longleftrightarrow> h div 16 * 16 = 224"
    by simp_all
  have two: "q = 43518 \<longleftrightarrow> h = 169 \<and> l = 254" "q = 49320 \<longleftrightarrow> h = 192 \<and> l = 168" 
    unfolding hl(1) using digits_eq[of l 256 254 h 169] digits_eq[of l 256 168 h 192] hl(2) by simp_all
  have bytes: "v4byte 0 a = v \<longleftrightarrow> h = unat v" "v4byte (Suc 0) a = v \<longleftrightarrow> l = unat v"
    "v4byte 0 a AND 0xf0 = v \<longleftrightarrow> h div 16 * 16 = unat v" "v4byte (Suc 0) a AND 0xf0 = v \<longleftrightarrow> l div 16 * 16 = unat v" for v
    unfolding byte_eq using bits top(1,2) hl(3,4) by simp_all
  have "containsAddr cgnat (V4 a) \<longleftrightarrow> unat a div 2 ^ 22 = 401" "containsAddr ietfProto (V4 a) \<longleftrightarrow> unat a div 2 ^ 8 = 12582912"
    "containsAddr benchmark (V4 a) \<longleftrightarrow> unat a div 2 ^ 17 = 25353"
    unfolding prefix_defs(1-3) containsAddr.simps xor_drop_eq_0 by simp_all
  note blocks = this[unfolded top]
  have "blockedDirect (V4 a) \<longleftrightarrow> h = 127 \<or> (h = 10 \<or> h = 172 \<and> l div 16 * 16 = 16 \<or> h = 192 \<and> l = 168) \<or>
      h = 169 \<and> l = 254 \<or> h = 224 \<and> l = 0 \<and> v4byte 2 a = 0 \<or>
      h div 16 * 16 = 224 \<or> unat a = 0 \<or> unat a = 4294967295 \<or> h = 0 \<or> q div 64 = 401 \<or>
      unat a div 2 ^ 8 = 12582912 \<or> q div 2 = 25353"
    by (simp add: blockedDirect_def isUnspecified_def bytes blocks eq)
  moreover have "unat a = 0 \<Longrightarrow> h = 0" "h = 224 \<Longrightarrow> h div 16 * 16 = 224" by (simp_all add: h_def sub)
  ultimately show ?thesis unfolding res parts two hl(3) by argo
qed

lemma bytes_join:
  fixes x :: "128 word"
  shows "push_bit 24 (ucast (ucast (drop_bit (k + 24) x) :: 8 word)) OR push_bit 16 (ucast (ucast (drop_bit (k + 16) x) :: 8 word)) OR
      push_bit 8 (ucast (ucast (drop_bit (k + 8) x) :: 8 word)) OR ucast (ucast (drop_bit k x) :: 8 word) =
    (ucast (drop_bit k x) :: 32 word)"
proof (rule bit_eqI)
  fix n assume "possible_bit TYPE(32 word) n"
  then have n: "n < 32" by (simp add: possible_bit_word)
  then consider "n < 8" | "8 \<le> n" "n < 16" | "16 \<le> n" "n < 24" | "24 \<le> n" by linarith
  then show "bit (push_bit 24 (ucast (ucast (drop_bit (k + 24) x) :: 8 word)) OR push_bit 16 (ucast (ucast (drop_bit (k + 16) x) :: 8 word)) OR
      push_bit 8 (ucast (ucast (drop_bit (k + 8) x) :: 8 word)) OR ucast (ucast (drop_bit k x) :: 8 word) :: 32 word) n =
    bit (ucast (drop_bit k x) :: 32 word) n"
    using n by cases (auto simp: bit_simps)
qed

lemma addrFrom4_low: "addrFrom4 (v6byte 12 b) (v6byte 13 b) (v6byte 14 b) (v6byte 15 b) = V4 (ucast b)"
  using bytes_join[of 0 b] by (simp add: addrFrom4_def v6byte_def)

lemma addrFrom4_mid: "addrFrom4 (v6byte 2 b) (v6byte 3 b) (v6byte 4 b) (v6byte 5 b) = V4 (ucast (drop_bit 80 b))"
  using bytes_join[of 80 b] by (simp add: addrFrom4_def v6byte_def)

lemma addrFrom4_not:
  "addrFrom4 (NOT (v6byte 12 b)) (NOT (v6byte 13 b)) (NOT (v6byte 14 b)) (NOT (v6byte 15 b)) = V4 (NOT (ucast b))"
proof -
  have "NOT (v6byte i b) = v6byte i (NOT b)" if "i < 16" for i
    by (rule bit_eqI) (use that in \<open>auto simp: v6byte_def bit_simps\<close>)
  moreover have "ucast (NOT b) = NOT (ucast b :: 32 word)" by (rule bit_eqI) (auto simp: bit_simps)
  ultimately show ?thesis using addrFrom4_low[of "NOT b"] by simp
qed

lemma unat_low: "unat (ucast b :: 32 word) = unat b mod 2 ^ 32" for b :: "128 word"
  by (simp add: unsigned_ucast_eq take_bit_eq_mod)

lemma unat_not32: "unat (NOT w) = 2 ^ 32 - 1 - unat w" for w :: "32 word"
proof -
  have "NOT w = - 1 - w" by (simp add: not_eq_complement)
  moreover have "unat (- 1 :: 32 word) = 2 ^ 32 - 1"
    by (simp add: unsigned_minus_1_eq_mask mask_eq_exp_minus_1)
  ultimately show ?thesis using unat_sub[OF word_n1_ge[of w]] by simp
qed

lemma top_v6:
  fixes b :: "128 word"
  shows "unat (v6byte 0 b) = unat b div 2 ^ 120" "unat (v6first16 b) = unat b div 2 ^ 112"
proof -
  have "unat b < 2 ^ 128" using unsigned_less[of b] by simp
  then have "unat b div 2 ^ 120 < 256" "unat b div 2 ^ 112 < 2 ^ 16" by (simp_all add: div_less_iff_less_mult)
  then show "unat (v6byte 0 b) = unat b div 2 ^ 120" "unat (v6first16 b) = unat b div 2 ^ 112"
    unfolding unat_v6byte unat_v6first16 by simp_all
qed

lemma linkLocalMulticast_V6: "isLinkLocalMulticast (V6 b z) \<Longrightarrow> isMulticast (V6 b z)"
proof -
  assume "isLinkLocalMulticast (V6 b z)"
  then have "(v6first16 b AND 0xff0f) AND NOT (mask 8) = 0xff02 AND NOT (mask 8)" by simp
  moreover have "(w AND 0xff0f) AND NOT (mask 8) = w AND NOT (mask 8)" for w :: "16 word"
  proof -
    have "(0xff0f :: 16 word) AND NOT (mask 8) = NOT (mask 8)" by (simp add: mask_eq_exp_minus_1)
    then show ?thesis by (simp only: and.assoc)
  qed
  ultimately have "v6first16 b AND NOT (mask 8) = 0xff00" by (simp add: mask_eq_exp_minus_1)
  then have "unat b div 2 ^ 112 div 2 ^ 8 * 2 ^ 8 = unat (0xff00 :: 16 word)"
    by (metis unat_and_not_mask top_v6(2))
  then have "unat b div 2 ^ 120 = 255" by (simp add: div_mult2_eq[symmetric])
  then show ?thesis by (simp add: byte_eq top_v6(1)[simplified])
qed

lemma blockedDirect_V6: "blockedDirect (V6 b []) = reservedV6 (unat b)"
proof -
  have eq: "b = 0 \<longleftrightarrow> unat b = 0" "b = 1 \<longleftrightarrow> unat b = 1" by (simp_all add: word_unat_eq_iff)
  have ula: "isPrivate (V6 b []) \<longleftrightarrow> unat b div 2 ^ 121 = 126"
    unfolding isPrivate.simps byte_eq unat_high top_v6 by (simp add: div_mult2_eq[symmetric])
  have ll: "isLinkLocalUnicast (V6 b []) \<longleftrightarrow> unat b div 2 ^ 118 = 1018"
    unfolding isLinkLocalUnicast.simps word16_eq unat_high top_v6 by (simp add: div_mult2_eq[symmetric])
  have mc: "isMulticast (V6 b []) \<longleftrightarrow> unat b div 2 ^ 120 = 255"
    unfolding isMulticast.simps byte_eq top_v6 by simp
  have "reservedV6 (unat b) \<longleftrightarrow> unat b = 0 \<or> unat b = 1 \<or> unat b div 2 ^ 121 = 126 \<or> unat b div 2 ^ 118 = 1018 \<or> unat b div 2 ^ 120 = 255"
    by (simp add: reservedV6_def cidr_def)
  then show ?thesis
    unfolding blockedDirect_def ula ll mc isLoopback.simps isUnspecified_def
    using linkLocalMulticast_V6[of b "[]", unfolded mc] by (auto simp: eq prefix_defs addrFrom4_def)
qed

lemma v4Compatible_iff: "isV4Compatible b \<longleftrightarrow> unat b div 2 ^ 32 = 0 \<and> unat b \<noteq> 0"
proof -
  have byte: "v6byte i b = 0 \<longleftrightarrow> (\<forall>n < 8. \<not> bit b (8 * (15 - i) + n))" for i
    by (auto simp: bit_eq_iff v6byte_def bit_simps)
  have *: "(\<forall>i < 12. v6byte i b = 0) \<longleftrightarrow> (\<forall>n \<ge> 32. \<not> bit b n)"
  proof
    assume lhs: "\<forall>i < 12. v6byte i b = 0"
    show "\<forall>n \<ge> 32. \<not> bit b n"
    proof (intro allI impI notI)
      fix n assume n: "32 \<le> n" "bit b n"
      then have "n < 128" using bit_imp_le_length by fastforce
      define i where "i = 15 - n div 8"
      have "n div 8 \<ge> 4" "n div 8 \<le> 15" using n(1) \<open>n < 128\<close> by linarith+
      then have i: "i < 12" "15 - i = n div 8" by (auto simp: i_def)
      have "\<not> bit b (8 * (15 - i) + n mod 8)" using lhs i(1) byte by simp
      then show False using n(2) i(2) by simp
    qed
  next
    assume "\<forall>n \<ge> 32. \<not> bit b n"
    then show "\<forall>i < 12. v6byte i b = 0" by (auto simp: byte)
  qed
  have high: "(\<forall>n \<ge> 32. \<not> bit b n) \<longleftrightarrow> unat b div 2 ^ 32 = 0"
  proof -
    have "(\<forall>n \<ge> 32. \<not> bit b n) \<longleftrightarrow> (\<forall>n. \<not> bit b (32 + n))"
      by (metis le_add1 le_add_diff_inverse)
    also have "\<dots> \<longleftrightarrow> drop_bit 32 b = 0" 
    proof -
      have "bit b (32 + n) \<Longrightarrow> n < 128" for n using bit_imp_le_length[of b "32 + n"] by simp
      then show ?thesis by (auto simp: bit_eq_iff[of "drop_bit 32 b"] bit_simps)
    qed
    also have "\<dots> \<longleftrightarrow> unat (drop_bit 32 b) = 0" by (metis unsigned_0 unsigned_word_eqI)
    finally show ?thesis by (simp add: unat_drop)
  qed
  have "list_all (\<lambda>i. v6byte i b = 0) [0..<12] \<longleftrightarrow> (\<forall>i < 12. v6byte i b = 0)"
    by (auto simp: list_all_iff)
  moreover have "v6byte 12 b OR v6byte 13 b OR v6byte 14 b OR v6byte 15 b = 0 \<longleftrightarrow> unat b mod 2 ^ 32 = 0"
  proof
    assume "v6byte 12 b OR v6byte 13 b OR v6byte 14 b OR v6byte 15 b = 0"
    then have "V4 (ucast b) = addrFrom4 0 0 0 0" unfolding addrFrom4_low[symmetric] by (simp add: or_eq_0_iff)
    then have "unat (ucast b :: 32 word) = unat (0 :: 32 word)" by (simp add: addrFrom4_def)
    then show "unat b mod 2 ^ 32 = 0" unfolding unat_low by simp
  next
    assume low: "unat b mod 2 ^ 32 = 0"
    then obtain k where k: "unat b = 2 ^ 32 * k" by (metis mod_0_imp_dvd dvdE)
    have "v6byte i b = 0" if "i \<in> {12, 13, 14, 15}" for i
      using that unfolding byte_eq unat_v6byte k by (elim insertE; simp)
    then show "v6byte 12 b OR v6byte 13 b OR v6byte 14 b OR v6byte 15 b = 0" by simp
  qed
  ultimately show ?thesis unfolding isV4Compatible_def * high
    using div_mult_mod_eq[of "unat b" "2 ^ 32"] by auto
qed

lemma transition_blocks:
  "containsAddr nat64 (V6 b []) \<longleftrightarrow> cidr 128 (0x64ff9b * 2 ^ 96, 96) (unat b)"
  "containsAddr sixToFour (V6 b []) \<longleftrightarrow> cidr 128 (0x2002 * 2 ^ 112, 16) (unat b)"
  "containsAddr teredo (V6 b []) \<longleftrightarrow> cidr 128 (0x20010000 * 2 ^ 96, 32) (unat b)"
  unfolding prefix_defs containsAddr.simps xor_high_eq_0 cidr_def by simp_all

lemma embedded_V6:
  "embeddedV4Blocked (V6 b []) \<or> unat b = 0 \<longleftrightarrow> (\<exists>v. carriedV4 (unat b) = Some v \<and> reservedV4 v)"
proof -
  have low: "blocked (V4 (ucast b)) = reservedV4 (unat b mod 2 ^ 32)"
    and mid: "blocked (V4 (ucast (drop_bit 80 b))) = reservedV4 (unat b div 2 ^ 80 mod 2 ^ 32)"
    and neg: "blocked (V4 (NOT (ucast b))) = reservedV4 (2 ^ 32 - 1 - unat b mod 2 ^ 32)"
    by (simp_all only: blocked_V4_direct blockedDirect_V4 unat_low unat_not32 unat_drop)
  have small: "unat b div 2 ^ 32 = 0 \<Longrightarrow> unat b mod 2 ^ 32 = unat b" by (simp add: div_eq_0_iff)
  have zero: "reservedV4 0" by (simp add: reservedV4_def cidr_def dotted_def)
  have compat: "isV4Compatible b \<longleftrightarrow> cidr 128 (0, 96) (unat b) \<and> unat b \<noteq> 0"
    by (simp add: v4Compatible_iff cidr_def)
  have at0: "unat b = 0 \<Longrightarrow> carriedV4 (unat b) = Some 0" by (simp add: carriedV4_def cidr_def)
  show ?thesis
  proof (cases "unat b = 0")
    case True
    then show ?thesis using at0 zero by simp
  next
    case False
    then show ?thesis
      unfolding embeddedV4Blocked.simps Let_def transition_blocks addrFrom4_low addrFrom4_mid addrFrom4_not
        compat low mid neg carriedV4_def
      using small by (simp add: cidr_def)
  qed
qed

text \<open>
  C35. The egress guard decides membership in address blocks: an IPv4 address is refused exactly when it
  lies in one of the reserved blocks (loopback, private, link-local with the metadata address, carrier-grade
  NAT, protocol assignments, benchmarking, multicast, broadcast, this network), and an IPv6 address without
  a zone exactly when it is an IPv4-mapped form of such an address, lies in a reserved IPv6 block, or is a
  NAT64, 6to4, Teredo or IPv4-compatible address that carries a reserved IPv4 address.
\<close>

theorem egress_guard_exact:
  "(blocked (V4 a) \<longleftrightarrow> reservedV4 (unat a)) \<and>
   (blocked (V6 b []) \<longleftrightarrow>
     (if unat b div 2 ^ 32 = 0xffff then reservedV4 (unat b mod 2 ^ 32)
      else reservedV6 (unat b) \<or> (\<exists>v. carriedV4 (unat b) = Some v \<and> reservedV4 v)))"
proof
  show "blocked (V4 a) \<longleftrightarrow> reservedV4 (unat a)" by (simp only: blocked_V4_direct blockedDirect_V4)
  have mapped: "drop_bit 32 b = 0xffff \<longleftrightarrow> unat b div 2 ^ 32 = 0xffff"
    by (simp add: word_unat_eq_iff unat_drop[simplified])
  have zero: "unat b = 0 \<Longrightarrow> reservedV6 (unat b)" by (simp add: reservedV6_def cidr_def)
  show "blocked (V6 b []) \<longleftrightarrow>
     (if unat b div 2 ^ 32 = 0xffff then reservedV4 (unat b mod 2 ^ 32)
      else reservedV6 (unat b) \<or> (\<exists>v. carriedV4 (unat b) = Some v \<and> reservedV4 v))"
  proof (cases "drop_bit 32 b = 0xffff")
    case True
    then have "blocked (V6 b []) = blockedDirect (V4 (ucast b))"
      by (simp add: blocked.simps[of "V6 b []"] embeddedV4Blocked.simps)
    then show ?thesis using True mapped by (simp only: blockedDirect_V4 unat_low if_True refl)
  next
    case False
    then have "blocked (V6 b []) \<longleftrightarrow> reservedV6 (unat b) \<or> embeddedV4Blocked (V6 b [])"
      by (simp add: blocked.simps[of "V6 b []"] blockedDirect_V6)
    also have "\<dots> \<longleftrightarrow> reservedV6 (unat b) \<or> (\<exists>v. carriedV4 (unat b) = Some v \<and> reservedV4 v)"
      unfolding embedded_V6[symmetric] using zero by blast
    finally show ?thesis using False mapped by (simp only: if_False)
  qed
qed

text \<open>
  An IPv6 zone hides the address from every \<^verbatim>\<open>Prefix.Contains\<close> test and from \<^verbatim>\<open>IsUnspecified\<close>: the NAT64
  form of the metadata address and the unspecified address are refused without a zone and pass with one.
\<close>

lemma zoned_address_passes:
  "blocked (V6 0x0064ff9b0000000000000000a9fea9fe []) \<and> \<not> blocked (V6 0x0064ff9b0000000000000000a9fea9fe ''eth0'') \<and>
   blocked (V6 0 []) \<and> \<not> blocked (V6 0 ''eth0'')"
  by (simp add: blocked.simps embeddedV4Blocked.simps blockedDirect_def isUnspecified_def prefix_defs
      addrFrom4_def v6byte_def v4byte_def v6first16_def isV4Compatible_def upt_rec mask_eq_exp_minus_1)

end
