(* ===== verification/Paths.thy ===== *)
theory Paths
  imports Prelude
begin

text \<open>
  Slash-separated paths: what the sources use of Go's \<^verbatim>\<open>path\<close>, \<^verbatim>\<open>path/filepath\<close> (on Unix) and \<^verbatim>\<open>io/fs\<close>
  packages, the archive and containment checks of \<^verbatim>\<open>pkg/source/safepath\<close>, and the claim prefixes of
  \<^verbatim>\<open>internal/claimpath\<close>. Strings are byte strings, so \<^verbatim>\<open>utf8.ValidString\<close> is a predicate on bytes.

  A canonical relative path is the text \<open>pathOf cs\<close> of a list of plain components (\<open>plain\<close>: not empty, not
  a dot or two dots, no slash); the lemmas reduce the string operations to operations on that list.
\<close>

section \<open>The standard library\<close>

fun utf8Bytes :: "nat list \<Rightarrow> bool" where
  "utf8Bytes [] = True"
| "utf8Bytes (a # bs) =
     (if a < 0x80 then utf8Bytes bs
      else case bs of
        [] \<Rightarrow> False
      | b # cs \<Rightarrow>
          if 0xc2 \<le> a \<and> a \<le> 0xdf then 0x80 \<le> b \<and> b \<le> 0xbf \<and> utf8Bytes cs
          else case cs of
            [] \<Rightarrow> False
          | c # ds \<Rightarrow>
              if 0xe0 \<le> a \<and> a \<le> 0xef
              then (if a = 0xe0 then 0xa0 else 0x80) \<le> b \<and> b \<le> (if a = 0xed then 0x9f else 0xbf) \<and>
                   0x80 \<le> c \<and> c \<le> 0xbf \<and> utf8Bytes ds
              else case ds of
                [] \<Rightarrow> False
              | d # es \<Rightarrow>
                  0xf0 \<le> a \<and> a \<le> 0xf4 \<and> (if a = 0xf0 then 0x90 else 0x80) \<le> b \<and> b \<le> (if a = 0xf4 then 0x8f else 0xbf) \<and>
                  0x80 \<le> c \<and> c \<le> 0xbf \<and> 0x80 \<le> d \<and> d \<le> 0xbf \<and> utf8Bytes es)"

definition validString :: "string \<Rightarrow> bool" where
  "validString s = utf8Bytes (map of_char s)"

definition validPath :: "string \<Rightarrow> bool" where
  "validPath name \<longleftrightarrow> validString name \<and>
     (name = ''.'' \<or> list_all (\<lambda>e. e \<noteq> [] \<and> e \<noteq> ''.'' \<and> e \<noteq> ''..'') (splitOn CHR ''/'' name))"

definition isAbs :: "string \<Rightarrow> bool" where
  "isAbs p = hasPrefix p ''/''"

definition cleanStep :: "bool \<Rightarrow> string list \<Rightarrow> string \<Rightarrow> string list" where
  "cleanStep rooted stack c =
     (if c = [] \<or> c = ''.'' then stack
      else if c = ''..''
      then (if stack \<noteq> [] \<and> hd stack \<noteq> ''..'' then tl stack else if rooted then stack else ''..'' # stack)
      else c # stack)"

definition cleanParts :: "string \<Rightarrow> string list" where
  "cleanParts p = rev (foldl (cleanStep (isAbs p)) [] (splitOn CHR ''/'' p))"

definition pathOf :: "string list \<Rightarrow> string" where
  "pathOf cs = (if cs = [] then ''.'' else joinWith ''/'' cs)"

definition pathClean :: "string \<Rightarrow> string" where
  "pathClean p = (if p = [] then ''.'' else if isAbs p then ''/'' @ joinWith ''/'' (cleanParts p) else pathOf (cleanParts p))"

text \<open>\<^verbatim>\<open>path.Split\<close>: the part up to and including the last slash, and the rest.\<close>

definition splitDir :: "string \<Rightarrow> string" where
  "splitDir p = rev (dropWhile (\<lambda>c. c \<noteq> CHR ''/'') (rev p))"

definition splitFile :: "string \<Rightarrow> string" where
  "splitFile p = rev (takeWhile (\<lambda>c. c \<noteq> CHR ''/'') (rev p))"

definition pathDir :: "string \<Rightarrow> string" where
  "pathDir p = pathClean (splitDir p)"

definition pathBase :: "string \<Rightarrow> string" where
  "pathBase p =
     (if p = [] then ''.''
      else let q = rev (dropWhile (\<lambda>c. c = CHR ''/'') (rev p)) in if splitFile q = [] then ''/'' else splitFile q)"

definition pathJoin :: "string list \<Rightarrow> string" where
  "pathJoin es = (let rest = dropWhile (\<lambda>e. e = []) es in if rest = [] then [] else pathClean (joinWith ''/'' rest))"

fun dropCommon :: "string list \<Rightarrow> string list \<Rightarrow> string list \<times> string list" where
  "dropCommon (a # as) (b # bs) = (if a = b then dropCommon as bs else (a # as, b # bs))"
| "dropCommon as bs = (as, bs)"

text \<open>\<^verbatim>\<open>filepath.Rel\<close> on Unix, \<open>None\<close> for its error.\<close>

definition filepathRel :: "string \<Rightarrow> string \<Rightarrow> string option" where
  "filepathRel basepath targpath =
     (let base = pathClean basepath; targ = pathClean targpath
      in if targ = base then Some ''.''
         else if isAbs base \<noteq> isAbs targ then None
         else case dropCommon (cleanParts basepath) (if targ = ''.'' then [targ] else cleanParts targpath) of (bs, ts) \<Rightarrow>
           if bs \<noteq> [] \<and> ts \<noteq> [] \<and> hd bs = ''..'' then None
           else Some (joinWith ''/'' (replicate (length bs) ''..'' @ ts)))"

section \<open>Plain components\<close>

definition plain :: "string \<Rightarrow> bool" where
  "plain c \<longleftrightarrow> c \<noteq> [] \<and> c \<noteq> ''.'' \<and> c \<noteq> ''..'' \<and> CHR ''/'' \<notin> set c"

definition canonical :: "string \<Rightarrow> bool" where
  "canonical p \<longleftrightarrow> (\<exists>cs. list_all plain cs \<and> p = pathOf cs)"

lemma plainD: "plain c \<Longrightarrow> CHR ''/'' \<notin> set c" "plain c \<Longrightarrow> c \<noteq> []" "plain c \<Longrightarrow> c \<noteq> ''.''" "plain c \<Longrightarrow> c \<noteq> ''..''"
  unfolding plain_def by iprover+

lemma splitOn_pathOf:
  assumes "list_all plain cs" and "cs \<noteq> []"
  shows "splitOn CHR ''/'' (pathOf cs) = cs"
proof -
  have "CHR ''/'' \<notin> set c" if "c \<in> set cs" for c
    using assms(1) that by (intro plainD) (simp add: list_all_iff)
  then show ?thesis using splitOn_joinWith[OF assms(2)] assms(2) unfolding pathOf_def by metis
qed

lemma pathOf_eq_dot:
  assumes "list_all plain cs"
  shows "pathOf cs = ''.'' \<longleftrightarrow> cs = []"
proof
  assume dot: "pathOf cs = ''.''"
  show "cs = []"
  proof (rule ccontr)
    assume "cs \<noteq> []"
    then have "cs = splitOn CHR ''/'' ''.''" using splitOn_pathOf[OF assms] dot by metis
    then have "cs = [''.'']" by simp
    then show False using assms plainD(3)[of "''.''"] by simp
  qed
qed (simp add: pathOf_def)

lemma pathOf_inject:
  assumes "list_all plain cs" and "list_all plain ds" and "pathOf cs = pathOf ds"
  shows "cs = ds"
proof (cases "cs = [] \<or> ds = []")
  case True
  then show ?thesis using assms(3) pathOf_eq_dot[OF assms(1)] pathOf_eq_dot[OF assms(2)] by metis
next
  case False
  then show ?thesis using splitOn_pathOf[OF assms(1)] splitOn_pathOf[OF assms(2)] assms(3) by metis
qed

lemma validPath_canonical: "validPath p \<Longrightarrow> canonical p"
proof -
  assume "validPath p"
  then consider "p = ''.''" | "list_all plain (splitOn CHR ''/'' p)"
    by (auto simp: validPath_def plain_def list_all_iff dest: splitOn_parts)
  then show ?thesis
  proof cases
    case 1
    then show ?thesis by (auto simp: canonical_def pathOf_def intro: exI[of _ "[]"])
  next
    case 2
    then show ?thesis by (auto simp: canonical_def pathOf_def intro!: exI[of _ "splitOn CHR ''/'' p"])
  qed
qed

lemma not_abs_pathOf: "list_all plain cs \<Longrightarrow> \<not> isAbs (pathOf cs)"
proof (cases cs)
  case (Cons c cs')
  assume "list_all plain cs"
  then have "c \<noteq> []" "hd c \<noteq> CHR ''/''" using Cons by (auto simp: plain_def) (metis hd_in_set)
  then show ?thesis using Cons by (cases c; cases cs') (auto simp: isAbs_def hasPrefix_def pathOf_def)
qed (simp add: pathOf_def isAbs_def hasPrefix_def)

lemma foldl_cleanStep_plain: "list_all plain cs \<Longrightarrow> foldl (cleanStep r) stack cs = rev cs @ stack"
  by (induction cs arbitrary: stack) (auto simp: cleanStep_def plain_def)

lemma cleanParts_pathOf: "list_all plain cs \<Longrightarrow> cleanParts (pathOf cs) = cs"
proof (cases "cs = []")
  case True
  then show ?thesis by (simp add: cleanParts_def pathOf_def cleanStep_def)
next
  case False
  assume "list_all plain cs"
  then show ?thesis using False by (simp add: cleanParts_def splitOn_pathOf foldl_cleanStep_plain)
qed

lemma pathOf_nonempty: "list_all plain cs \<Longrightarrow> pathOf cs \<noteq> []"
  using splitOn_pathOf[of cs] by (cases "cs = []") (auto simp: pathOf_def plain_def)

lemma pathClean_pathOf [simp]: "list_all plain cs \<Longrightarrow> pathClean (pathOf cs) = pathOf cs"
  by (simp add: pathClean_def pathOf_nonempty not_abs_pathOf cleanParts_pathOf)

lemma pathOf_snoc: "pathOf (cs @ [c]) = (if cs = [] then c else pathOf cs @ ''/'' @ c)"
proof (induction cs)
  case (Cons a cs)
  then show ?case by (cases cs) (auto simp: pathOf_def)
qed (simp add: pathOf_def)

lemma dropWhile_sep: "x \<notin> set c \<Longrightarrow> dropWhile (\<lambda>y. y \<noteq> x) (c @ x # d) = x # d" "x \<notin> set c \<Longrightarrow> dropWhile (\<lambda>y. y \<noteq> x) c = []"
  by (induction c) auto

lemma takeWhile_sep: "x \<notin> set c \<Longrightarrow> takeWhile (\<lambda>y. y \<noteq> x) (c @ x # d) = c" "x \<notin> set c \<Longrightarrow> takeWhile (\<lambda>y. y \<noteq> x) c = c"
  by (induction c) auto

lemma split_sep:
  assumes "CHR ''/'' \<notin> set c"
  shows "splitDir (d @ ''/'' @ c) = d @ ''/''" "splitDir c = []" "splitFile (d @ ''/'' @ c) = c" "splitFile c = c"
  using assms dropWhile_sep(1)[of "CHR ''/''" "rev c" "rev d"] dropWhile_sep(2)[of "CHR ''/''" "rev c"] takeWhile_sep(1)[of "CHR ''/''" "rev c" "rev d"]
    takeWhile_sep(2)[of "CHR ''/''" "rev c"]
  by (simp_all add: splitDir_def splitFile_def del: takeWhile_eq_all_conv)

lemma splitOn_trailing: "splitOn c (s @ [c]) = splitOn c s @ [[]]"
proof (induction s)
  case (Cons x s)
  then show ?case by (cases "splitOn c s") (auto split: list.splits)
qed simp

lemma pathClean_trailing:
  assumes "list_all plain cs" and "cs \<noteq> []"
  shows "pathClean (pathOf cs @ ''/'') = pathOf cs"
proof -
  have ne: "pathOf cs \<noteq> []" by (rule pathOf_nonempty[OF assms(1)])
  then have abs: "\<not> isAbs (pathOf cs @ ''/'')" using not_abs_pathOf[OF assms(1)]
    by (cases "pathOf cs") (simp_all add: isAbs_def hasPrefix_def)
  have "cleanParts (pathOf cs @ ''/'') = cs"
    using abs by (simp add: cleanParts_def splitOn_trailing splitOn_pathOf[OF assms] foldl_cleanStep_plain[OF assms(1)] cleanStep_def)
  then show ?thesis using abs by (simp add: pathClean_def)
qed

lemma list_all_plain_snoc: "list_all plain (cs @ [c]) \<longleftrightarrow> list_all plain cs \<and> plain c"
  by simp

lemma pathDir_pathOf: "list_all plain cs \<Longrightarrow> pathDir (pathOf cs) = pathOf (butlast cs)"
proof (cases cs rule: rev_cases)
  case Nil
  then show ?thesis by (simp add: pathDir_def splitDir_def pathOf_def pathClean_def)
next
  case (snoc ds c)
  assume "list_all plain cs"
  then have ok: "list_all plain ds" "CHR ''/'' \<notin> set c" using snoc plainD(1) by simp_all
  show ?thesis
  proof (cases "ds = []")
    case True
    then have "pathOf cs = c" using snoc by (simp add: pathOf_def)
    then show ?thesis using True snoc split_sep(2)[OF ok(2)] by (simp add: pathDir_def pathClean_def pathOf_def)
  next
    case False
    then have "pathOf cs = pathOf ds @ ''/'' @ c" using snoc pathOf_snoc[of ds c] by simp
    then have "pathDir (pathOf cs) = pathClean (pathOf ds @ ''/'')"
      unfolding pathDir_def using split_sep(1)[OF ok(2), of "pathOf ds"] by metis
    then show ?thesis using pathClean_trailing[OF ok(1) False] snoc by simp
  qed
qed

lemma pathBase_plain_end:
  assumes "plain c" and "p = c \<or> p = d @ ''/'' @ c"
  shows "pathBase p = c"
proof -
  have c: "c \<noteq> []" "CHR ''/'' \<notin> set c" using plainD[OF assms(1)] by iprover+
  have "hd (rev c) \<noteq> CHR ''/''" by (metis c hd_in_set rev_is_Nil_conv set_rev)
  moreover have "rev c \<noteq> []" using c(1) by simp
  ultimately have strip: "rev (dropWhile (\<lambda>c. c = CHR ''/'') (rev p)) = p"
    using assms(2) by (cases "rev c") (auto simp: rev_eq_Cons_iff)
  have "splitFile p = c" using assms(2) split_sep(3)[OF c(2), of d] split_sep(4)[OF c(2)] by metis
  moreover have "p \<noteq> []" using assms(2) c(1) by auto
  ultimately show ?thesis using strip c(1) by (simp add: pathBase_def)
qed

lemma pathBase_pathOf: "list_all plain (cs @ [c]) \<Longrightarrow> pathBase (pathOf (cs @ [c])) = c"
  by (rule pathBase_plain_end[where d = "pathOf cs"]) (simp_all add: pathOf_snoc)

lemma pathBase_dot [simp]: "pathBase ''.'' = ''.''" and pathDir_dot [simp]: "pathDir ''.'' = ''.''"
  by (simp_all add: pathBase_def splitFile_def pathDir_def splitDir_def pathClean_def)

section \<open>Archive names and containment\<close>

function dropDotSlash :: "string \<Rightarrow> string" where
  "dropDotSlash name = (if hasPrefix name ''./'' then dropDotSlash (drop 2 name) else name)"
  by pat_completeness auto
termination
proof (relation "measure length")
  show "hasPrefix name ''./'' \<Longrightarrow> (drop 2 name, name) \<in> measure length" for name
    by (cases name) (simp_all add: hasPrefix_def)
qed simp

declare dropDotSlash.simps [simp del]

text \<open>\<^verbatim>\<open>ArchiveName\<close>: \<open>None\<close> is the error wrapping \<^verbatim>\<open>fs.ErrInvalid\<close>.\<close>

definition archiveName :: "string \<Rightarrow> string option" where
  "archiveName name =
     (if name = [] \<or> CHR 0x00 \<in> set name \<or> CHR 0x5C \<in> set name then None
      else if ''..'' \<in> set (splitOn CHR ''/'' name) then None
      else let n = dropDotSlash name;
               drive = 2 \<le> length n \<and> n ! 1 = CHR '':'' \<and>
                 (charIn CHR ''a'' CHR ''z'' (n ! 0) \<or> charIn CHR ''A'' CHR ''Z'' (n ! 0))
           in if hasPrefix n ''/'' \<or> drive then None else Some (pathClean n))"

definition escaped :: "string \<Rightarrow> bool" where
  "escaped rel \<longleftrightarrow> rel = ''..'' \<or> hasPrefix rel ''../''"

definition containsPath :: "string \<Rightarrow> string \<Rightarrow> bool" where
  "containsPath root target = (case filepathRel root target of None \<Rightarrow> False | Some rel \<Rightarrow> \<not> escaped rel)"

text \<open>\<^verbatim>\<open>claimpath.Groups\<close>: the calls of \<open>yield\<close>, made until it returns false.\<close>

fun lastSlash :: "string \<Rightarrow> nat \<Rightarrow> nat" where
  "lastSlash s 0 = 0"
| "lastSlash s (Suc n) = (if s ! n = CHR ''/'' then Suc n else lastSlash s n)"

lemma lastSlash_le: "lastSlash s n \<le> n"
  by (induction n) auto

function groupsFrom :: "(string \<Rightarrow> 'a list) \<Rightarrow> string \<Rightarrow> (nat \<Rightarrow> 'a list \<Rightarrow> bool) \<Rightarrow> nat \<Rightarrow> (nat \<times> 'a list) list" where
  "groupsFrom groups coordinate yield endp =
     (let group = groups (take endp coordinate);
          rest = (if endp = 0 then [] else groupsFrom groups coordinate yield (lastSlash coordinate (endp - 1)))
      in if group = [] then rest
         else (endp, group) # (if yield endp group then rest else []))"
  by pat_completeness auto
termination
proof (relation "measure (\<lambda>(g, c, y, n). n)")
  show "endp \<noteq> 0 \<Longrightarrow> ((groups, coordinate, yield, lastSlash coordinate (endp - 1)), (groups, coordinate, yield, endp)) \<in>
      measure (\<lambda>(g, c, y, n). n)" for groups :: "string \<Rightarrow> 'a list" and coordinate yield endp
    using lastSlash_le[of coordinate "endp - 1"] by simp
qed simp

declare groupsFrom.simps [simp del]

definition claimGroups :: "(string \<Rightarrow> 'a list) \<Rightarrow> string \<Rightarrow> (nat \<Rightarrow> 'a list \<Rightarrow> bool) \<Rightarrow> (nat \<times> 'a list) list" where
  "claimGroups groups coordinate yield = groupsFrom groups coordinate yield (length coordinate)"

definition named :: "string list \<Rightarrow> string list" where
  "named cs = filter (\<lambda>c. c \<noteq> [] \<and> c \<noteq> ''.'') cs"

lemma foldl_cleanStep_named:
  "''..'' \<notin> set cs \<Longrightarrow> foldl (cleanStep r) stack cs = rev (named cs) @ stack"
  by (induction cs arbitrary: stack) (auto simp: cleanStep_def named_def)

lemma named_plain: "''..'' \<notin> set (splitOn CHR ''/'' s) \<Longrightarrow> list_all plain (named (splitOn CHR ''/'' s))"
  unfolding list_all_iff named_def plain_def using splitOn_parts[of _ "CHR ''/''" s] by fastforce

lemma dropDotSlash_parts:
  "named (splitOn CHR ''/'' (dropDotSlash s)) = named (splitOn CHR ''/'' s) \<and>
   set (splitOn CHR ''/'' (dropDotSlash s)) \<subseteq> set (splitOn CHR ''/'' s)"
proof (induction s rule: dropDotSlash.induct)
  case (1 s)
  show ?case
  proof (cases "hasPrefix s ''./''")
    case True
    then have s: "s = ''.'' @ CHR ''/'' # drop 2 s"
      by (metis append_take_drop_id hasPrefix_def append_Cons append_Nil length_Cons list.size(3) numeral_2_eq_2)
    have "splitOn CHR ''/'' s = ''.'' # splitOn CHR ''/'' (drop 2 s)"
      by (subst s, rule splitOn_append_sep) simp
    then show ?thesis using 1[OF True] True by (auto simp: dropDotSlash.simps[of s] named_def)
  qed (simp add: dropDotSlash.simps[of s])
qed



lemma cleanParts_abs_plain: "isAbs p \<Longrightarrow> list_all plain (cleanParts p)"
proof -
  have step: "list_all plain stack \<Longrightarrow> CHR ''/'' \<notin> set c \<Longrightarrow> list_all plain (cleanStep True stack c)" for stack c
    by (cases stack) (auto simp: cleanStep_def plain_def)
  have "list_all plain stack \<Longrightarrow> (\<And>c. c \<in> set cs \<Longrightarrow> CHR ''/'' \<notin> set c) \<Longrightarrow> list_all plain (foldl (cleanStep True) stack cs)"
    for stack cs by (induction cs arbitrary: stack) (simp_all add: step)
  moreover assume "isAbs p"
  ultimately show ?thesis by (simp add: cleanParts_def splitOn_parts)
qed

lemma dropCommon_prefix: "dropCommon as bs = (as', bs') \<Longrightarrow> (as' = [] \<longleftrightarrow> prefix as bs) \<and> set as' \<subseteq> set as \<and> set bs' \<subseteq> set bs"
  by (induction as bs rule: dropCommon.induct) (auto split: if_splits)

lemma dropCommon_Nil: "dropCommon as bs = ([], []) \<Longrightarrow> as = bs"
  by (induction as bs rule: dropCommon.induct) (auto split: if_splits)

lemma escaped_head: "(\<And>c. c \<in> set cs \<Longrightarrow> CHR ''/'' \<notin> set c) \<Longrightarrow> cs \<noteq> [] \<Longrightarrow> escaped (joinWith ''/'' cs) \<longleftrightarrow> hd cs = ''..''"
proof -
  assume parts: "\<And>c. c \<in> set cs \<Longrightarrow> CHR ''/'' \<notin> set c" and ne: "cs \<noteq> []"
  have "hd (splitOn CHR ''/'' r) = ''..'' \<longleftrightarrow> escaped r" for r
  proof
    assume "hd (splitOn CHR ''/'' r) = ''..''"
    then obtain ps where "splitOn CHR ''/'' r = ''..'' # ps" using splitOn_nonempty[of "CHR ''/''" r] by (metis list.collapse)
    then have "r = joinWith ''/'' (''..'' # ps)" using joinWith_splitOn[of "CHR ''/''" r] by simp
    then show "escaped r" by (cases ps) (auto simp: escaped_def hasPrefix_def)
  next
    assume "escaped r"
    then consider "r = ''..''" | "r = ''..'' @ CHR ''/'' # drop 3 r"
      by (auto simp: escaped_def hasPrefix_def) (metis append_Cons append_Nil append_take_drop_id numeral_3_eq_3)
    then show "hd (splitOn CHR ''/'' r) = ''..''"
    proof cases
      case 2
      show ?thesis by (subst 2, subst splitOn_append_sep) simp_all
    qed simp
  qed
  then show ?thesis using splitOn_joinWith[OF ne parts] by metis
qed

lemma isAbs_pathClean: "isAbs (pathClean p) = isAbs p"
proof (cases "isAbs p")
  case True
  then show ?thesis by (cases p) (auto simp: pathClean_def isAbs_def hasPrefix_def)
next
  case False
  let ?ok = "\<lambda>c :: string. c \<noteq> [] \<and> CHR ''/'' \<notin> set c"
  have step: "list_all ?ok stack \<Longrightarrow> CHR ''/'' \<notin> set c \<Longrightarrow> list_all ?ok (cleanStep False stack c)" for stack c
    by (cases stack) (auto simp: cleanStep_def)
  have "list_all ?ok stack \<Longrightarrow> (\<And>c. c \<in> set cs \<Longrightarrow> CHR ''/'' \<notin> set c) \<Longrightarrow> list_all ?ok (foldl (cleanStep False) stack cs)"
    for stack cs by (induction cs arbitrary: stack) (simp_all add: step)
  then have parts: "list_all ?ok (cleanParts p)"
    using False by (simp add: cleanParts_def splitOn_parts)
  have "\<not> isAbs (pathOf (cleanParts p))"
  proof (cases "cleanParts p")
    case (Cons c cs)
    then have "c \<noteq> []" "hd c \<noteq> CHR ''/''" using parts by auto (metis hd_in_set)
    then show ?thesis using Cons by (cases c; cases cs) (auto simp: isAbs_def hasPrefix_def pathOf_def)
  qed (simp add: pathOf_def isAbs_def hasPrefix_def)
  then show ?thesis using False by (simp add: pathClean_def) (simp add: isAbs_def hasPrefix_def)
qed

lemma pathClean_abs_eq: "isAbs p \<Longrightarrow> isAbs q \<Longrightarrow> pathClean p = pathClean q \<longleftrightarrow> cleanParts p = cleanParts q"
proof -
  assume abs: "isAbs p" "isAbs q"
  then have "pathClean p = ''/'' @ joinWith ''/'' (cleanParts p)" "pathClean q = ''/'' @ joinWith ''/'' (cleanParts q)"
    by (auto simp: pathClean_def isAbs_def hasPrefix_def)
  moreover have "joinWith ''/'' cs = joinWith ''/'' ds \<longleftrightarrow> cs = ds" if "list_all plain cs" "list_all plain ds" for cs ds
    using that pathOf_inject[of cs ds] pathOf_nonempty[of cs] pathOf_nonempty[of ds]
    by (cases "cs = []"; cases "ds = []") (auto simp: pathOf_def)
  ultimately show ?thesis using cleanParts_abs_plain abs by simp
qed

text \<open>
  C37. For an absolute root \<open>Contains\<close> decides lexical containment by whole components: the target is inside
  exactly when it is absolute and its cleaned components extend those of the root (so a sibling whose name
  merely starts with the root's name is outside, and parent components cannot lead out of the root).
\<close>

theorem containsPath_iff:
  assumes "isAbs root"
  shows "containsPath root target \<longleftrightarrow> isAbs target \<and> prefix (cleanParts root) (cleanParts target)"
proof (cases "isAbs target")
  case False
  have "pathClean target \<noteq> pathClean root" using False assms isAbs_pathClean by metis
  then show ?thesis using False assms by (simp add: containsPath_def filepathRel_def Let_def isAbs_pathClean)
next
  case abs: True
  show ?thesis
  proof (cases "pathClean target = pathClean root")
    case True
    then have "cleanParts target = cleanParts root" using pathClean_abs_eq[OF abs assms] by blast
    then show ?thesis using True abs by (simp add: containsPath_def filepathRel_def escaped_def hasPrefix_def)
  next
    case False
    obtain bs ts where drop: "dropCommon (cleanParts root) (cleanParts target) = (bs, ts)" by force
    note dc = dropCommon_prefix[OF drop]
    have dot: "pathClean target \<noteq> ''.''" using isAbs_pathClean[of target] abs by (auto simp: isAbs_def hasPrefix_def)
    have plain: "list_all plain (cleanParts root)" "list_all plain (cleanParts target)" using cleanParts_abs_plain assms abs by auto
    then have up: "c \<in> set bs \<or> c \<in> set ts \<Longrightarrow> c \<noteq> ''..'' \<and> CHR ''/'' \<notin> set c" for c
      using dc by (auto simp: list_all_iff plain_def)
    have "\<not> (bs \<noteq> [] \<and> ts \<noteq> [] \<and> hd bs = ''..'')" using up hd_in_set[of bs] by metis
    then have rel: "filepathRel root target = Some (joinWith ''/'' (replicate (length bs) ''..'' @ ts))"
      using False drop dot assms abs by (simp add: filepathRel_def Let_def isAbs_pathClean)
    have "\<not> (bs = [] \<and> ts = [])"
      using drop False pathClean_abs_eq[OF abs assms] dropCommon_Nil by metis
    then have ne: "replicate (length bs) ''..'' @ ts \<noteq> []" by auto
    have "escaped (joinWith ''/'' (replicate (length bs) ''..'' @ ts)) \<longleftrightarrow> hd (replicate (length bs) ''..'' @ ts) = ''..''"
      by (rule escaped_head[OF _ ne]) (use up in auto)
    also have "\<dots> \<longleftrightarrow> bs \<noteq> []" using ne up hd_in_set[of ts] by (cases bs) auto
    finally show ?thesis using rel dc abs by (simp add: containsPath_def)
  qed
qed

theorem containsPath_iff_witness:
  "isAbs ''/base/root'' \<and> (containsPath ''/base/root'' ''/base/root/../rootx/a'' \<longleftrightarrow>
     isAbs ''/base/root/../rootx/a'' \<and> prefix (cleanParts ''/base/root'') (cleanParts ''/base/root/../rootx/a''))"
  using containsPath_iff[of "''/base/root''" "''/base/root/../rootx/a''"] by (simp add: isAbs_def hasPrefix_def)

section \<open>Claim prefixes\<close>

lemma lastSlash_spec:
  "n \<le> length s \<Longrightarrow>
     (lastSlash s n = 0 \<or> s ! (lastSlash s n - 1) = CHR ''/'') \<and> (\<forall>m. lastSlash s n < m \<longrightarrow> m \<le> n \<longrightarrow> s ! (m - 1) \<noteq> CHR ''/'')"
  by (induction n) (auto simp: le_Suc_eq)

definition claimEnd :: "string \<Rightarrow> nat \<Rightarrow> nat \<Rightarrow> bool" where
  "claimEnd s n e \<longleftrightarrow> e = n \<or> e < n \<and> (e = 0 \<or> s ! (e - 1) = CHR ''/'')"

lemma claimEnd_next:
  assumes "0 < n" and "n \<le> length s"
  shows "claimEnd s n e \<longleftrightarrow> e = n \<or> claimEnd s (lastSlash s (n - 1)) e"
proof -
  let ?m = "lastSlash s (n - 1)"
  have m: "?m \<le> n - 1" by (rule lastSlash_le)
  have "?m = 0 \<or> s ! (?m - 1) = CHR ''/''" "?m < e \<Longrightarrow> e \<le> n - 1 \<Longrightarrow> s ! (e - 1) \<noteq> CHR ''/''"
    using lastSlash_spec[of "n - 1" s] assms(2) by auto
  then show ?thesis using m assms(1) unfolding claimEnd_def by (cases "e < ?m"; cases "e = ?m"; cases "e < n") auto
qed

lemma groupsFrom_spec:
  "n \<le> length s \<Longrightarrow>
     sorted_wrt (>) (map fst (groupsFrom groups s (\<lambda>e g. True) n)) \<and>
     ((e, g) \<in> set (groupsFrom groups s (\<lambda>e g. True) n) \<longleftrightarrow> claimEnd s n e \<and> g = groups (take e s) \<and> g \<noteq> [])"
proof (induction n arbitrary: e g rule: less_induct)
  case (less n)
  let ?G = "groupsFrom groups s (\<lambda>e g. True)" and ?m = "lastSlash s (n - 1)"
  show ?case
  proof (cases "n = 0")
    case True
    then show ?thesis by (cases "e = 0") (auto simp: groupsFrom.simps[of _ _ _ 0] claimEnd_def Let_def)
  next
    case False
    have m: "?m < n" using lastSlash_le[of s "n - 1"] False by linarith
    note IH = less.IH[OF m] 
    have le: "?m \<le> length s" using m less.prems by simp
    have below: "x \<in> set (map fst (?G ?m)) \<Longrightarrow> x < n" for x
      using IH[OF le] m by (force simp: claimEnd_def)
    have unfold: "?G n = (if groups (take n s) = [] then ?G ?m else (n, groups (take n s)) # ?G ?m)"
      using False by (simp add: groupsFrom.simps[of _ _ _ n] Let_def)
    show ?thesis
      unfolding unfold using IH[OF le, of e g] below claimEnd_next[of n s e] False less.prems by auto
  qed
qed

text \<open>
  A claim query visits exactly the coordinate itself and its slash-terminated prefixes (the empty prefix
  included) that have a nonempty group, each once, from the longest to the shortest.
\<close>

theorem claimGroups_prefixes:
  "sorted_wrt (>) (map fst (claimGroups groups s (\<lambda>e g. True))) \<and>
   ((e, g) \<in> set (claimGroups groups s (\<lambda>e g. True)) \<longleftrightarrow>
     e \<le> length s \<and> (e = length s \<or> e = 0 \<or> s ! (e - 1) = CHR ''/'') \<and> g = groups (take e s) \<and> g \<noteq> [])"
  using groupsFrom_spec[of "length s" s groups e g] by (auto simp: claimGroups_def claimEnd_def)

end
