(* ===== verification/TreeFS.thy ===== *)
theory TreeFS
  imports Paths "HOL-Library.Word"
begin

text \<open>
  The in-memory filesystems of \<^verbatim>\<open>pkg/tree\<close>: \<^verbatim>\<open>tree.go\<close> (views, lookup, link resolution, reads),
  \<^verbatim>\<open>builder.go\<close> (private construction overlays) and \<^verbatim>\<open>file.go\<close> (open handles).

  Nodes live in a heap (a list indexed by address) because directory entries are pointers to nodes that
  the builder keeps changing; a view maps paths to addresses. A foreign filesystem (any \<^verbatim>\<open>fs.FS\<close>) is a
  record of its read operations, which the package requires to stay read-only for the lifetime of the
  tree. \<^verbatim>\<open>lookup\<close> memoizes foreign metadata in a builder; its value is \<open>lookup\<close> and its effect on the view
  is \<open>remember\<close>. Names come from \<^verbatim>\<open>path.Dir\<close> chains, which end at the root for relative paths only; the
  chain of a path is \<open>dirChain\<close>, cut where the source would not terminate. \<^verbatim>\<open>WalkRaw\<close> is not modelled.
\<close>

unbundle bit_operations_syntax

section \<open>Modes and errors\<close>

type_synonym FileMode = "32 word"

definition ModeDir :: FileMode where "ModeDir = 0x80000000"
definition ModeSymlink :: FileMode where "ModeSymlink = 0x08000000"
definition ModeType :: FileMode where "ModeType = 0x8f280000"
definition defaultDirectoryMode :: FileMode where "defaultDirectoryMode = 493"
definition symbolicLinkMode :: FileMode where "symbolicLinkMode = 511"
definition maxSymbolicLinkDepth :: nat where "maxSymbolicLinkDepth = 8"

datatype fsError =
  ErrInvalid | ErrNotExist | ErrClosed | ErrEOF | ErrEscape | ErrLoop | ErrConflict | ErrSealed
| ErrOther string | PathError string string fsError | NilDereference

fun isError :: "fsError \<Rightarrow> fsError \<Rightarrow> bool" where
  "isError e (PathError op p inner) = (e = PathError op p inner \<or> isError e inner)"
| "isError e x = (e = x)"

section \<open>Nodes and views\<close>

record fileInfo =
  iMode :: FileMode
  iSize :: int
  iModTime :: int

datatype dirEntry = NodeEntry nat | ForeignEntry string FileMode

record fsys =
  fsLstat :: "string \<Rightarrow> fsError + fileInfo"
  fsStat :: "string \<Rightarrow> fsError + fileInfo"
  fsReadLink :: "string \<Rightarrow> fsError + string"
  fsReadDir :: "string \<Rightarrow> fsError + dirEntry list"
  fsReadFile :: "string \<Rightarrow> fsError + string"

record foreignNode =
  fsource :: fsys
  fpath :: string
  finfo :: fileInfo
  fupper :: bool
  fmount :: string

record node =
  nname :: string
  nmode :: FileMode
  ndata :: string
  ntarget :: string
  nchildren :: "dirEntry list option"
  nforeign :: "foreignNode option"

type_synonym heap = "node list"

record foreignInput =
  inLower :: "fsys option"
  memo :: "(string, node) gomap option"
  mounts :: "(string, fsys) gomap"

datatype view = View (nodes: "(string, nat) gomap") (lower: "view option") (removed: "string list")
  (input: "foreignInput option")

definition plainNode :: "string \<Rightarrow> FileMode \<Rightarrow> node" where
  "plainNode name mode =
     \<lparr>nname = name, nmode = mode, ndata = [], ntarget = [], nchildren = None, nforeign = None\<rparr>"

definition isDir :: "node \<Rightarrow> bool" where
  "isDir n \<longleftrightarrow> nmode n AND ModeDir \<noteq> 0"

definition isLink :: "node \<Rightarrow> bool" where
  "isLink n \<longleftrightarrow> nmode n AND ModeSymlink \<noteq> 0"

definition modTime :: "node \<Rightarrow> int option" where
  "modTime n = map_option (iModTime \<circ> finfo) (nforeign n)"

definition nodeSize :: "node \<Rightarrow> int" where
  "nodeSize n = (case nforeign n of Some f \<Rightarrow> iSize (finfo f)
     | None \<Rightarrow> if isLink n then int (length (ntarget n)) else int (length (ndata n)))"

text \<open>A node read through \<^verbatim>\<open>fs.FileInfo\<close>; the zero time is 0.\<close>

definition nodeInfo :: "node \<Rightarrow> fileInfo" where
  "nodeInfo n = \<lparr>iMode = nmode n, iSize = nodeSize n, iModTime = (case modTime n of None \<Rightarrow> 0 | Some t \<Rightarrow> t)\<rparr>"

definition childrenOf :: "node \<Rightarrow> dirEntry list" where
  "childrenOf n = (case nchildren n of None \<Rightarrow> [] | Some es \<Rightarrow> es)"

fun entryName :: "heap \<Rightarrow> dirEntry \<Rightarrow> string" where
  "entryName h (NodeEntry a) = nname (h ! a)"
| "entryName h (ForeignEntry name mode) = name"

text \<open>\<^verbatim>\<open>slices.BinarySearchFunc\<close> with \<open>compareEntry\<close>.\<close>

definition searchEntry :: "heap \<Rightarrow> dirEntry list \<Rightarrow> string \<Rightarrow> nat \<times> bool" where
  "searchEntry h es name =
     (let i = searchFrom 0 (length es) (\<lambda>k. \<not> cmp (entryName h (es ! k)) name < 0)
      in (i, i < length es \<and> cmp (entryName h (es ! i)) name = 0))"

section \<open>Lookup\<close>

function dirChain :: "string \<Rightarrow> string list" where
  "dirChain p = p # (if p = ''.'' \<or> pathDir p \<noteq> ''.'' \<and> length p \<le> length (pathDir p) then [] else dirChain (pathDir p))"
  by pat_completeness auto
termination
  by (relation "measure (\<lambda>p. if p = ''.'' then 0 else Suc (length p))") auto

declare dirChain.simps [simp del]

definition masked :: "view \<Rightarrow> string \<Rightarrow> bool" where
  "masked t name = list_ex (\<lambda>p. p \<in> set (removed t)) (dirChain name)"

fun firstMount :: "(string, fsys) gomap \<Rightarrow> string list \<Rightarrow> (string \<times> fsys) option" where
  "firstMount ms [] = None"
| "firstMount ms (pre # ps) = (case map_of ms pre of Some f \<Rightarrow> Some (pre, f) | None \<Rightarrow> firstMount ms ps)"

definition mountedInput :: "foreignInput \<Rightarrow> string \<Rightarrow> (string \<times> fsys) option" where
  "mountedInput inp name = firstMount (mounts inp) (dirChain (pathDir name))"

definition readForeignNode :: "fsys \<Rightarrow> string \<Rightarrow> string \<Rightarrow> string \<Rightarrow> fsError + node" where
  "readForeignNode f name rel mount = (case fsLstat f rel of
     Inl e \<Rightarrow> Inl e
   | Inr info \<Rightarrow>
       let n = (plainNode (pathBase name) (iMode info))
             \<lparr>nforeign := Some \<lparr>fsource = f, fpath = rel, finfo = info, fupper = False, fmount = mount\<rparr>\<rparr>
       in if isLink n
          then (case fsReadLink f rel of Inl e \<Rightarrow> Inl e | Inr target \<Rightarrow> Inr (n\<lparr>ntarget := target\<rparr>))
          else Inr n)"

fun lookup :: "heap \<Rightarrow> view \<Rightarrow> string \<Rightarrow> fsError + node" where
  "lookup h (View ns low rm inp) name = (case map_of ns name of
     Some a \<Rightarrow> Inr (h ! a)
   | None \<Rightarrow>
       if low = None \<and> inp = None then Inl ErrNotExist
       else if masked (View ns low rm inp) name then Inl ErrNotExist
       else case Option.bind inp (\<lambda>i. mountedInput i name) of
         Some (pre, f) \<Rightarrow> readForeignNode f name (trimPrefix name (pre @ ''/'')) pre
       | None \<Rightarrow> (case low of
           Some l \<Rightarrow> lookup h l name
         | None \<Rightarrow> (case Option.bind inp inLower of
             None \<Rightarrow> Inl ErrNotExist
           | Some f \<Rightarrow> (case Option.bind (Option.bind inp memo) (\<lambda>m. map_of m name) of
               Some n \<Rightarrow> Inr n
             | None \<Rightarrow> readForeignNode f name name []))))"

definition setMemo :: "(string, node) gomap \<Rightarrow> view \<Rightarrow> view" where
  "setMemo m t = View (nodes t) (lower t) (removed t) (map_option (\<lambda>i. i\<lparr>memo := Some m\<rparr>) (input t))"

fun remember :: "heap \<Rightarrow> view \<Rightarrow> string \<Rightarrow> view" where
  "remember h (View ns low rm inp) name =
     (let t = View ns low rm inp
      in if map_of ns name \<noteq> None \<or> low = None \<and> inp = None \<or> masked t name \<or>
            Option.bind inp (\<lambda>i. mountedInput i name) \<noteq> None then t
         else case low of
           Some l \<Rightarrow> View ns (Some (remember h l name)) rm inp
         | None \<Rightarrow> (case (Option.bind inp inLower, Option.bind inp memo) of
             (Some f, Some m) \<Rightarrow>
               (case (map_of m name, readForeignNode f name name []) of
                 (None, Inr n) \<Rightarrow> setMemo (gput name n m) t
               | _ \<Rightarrow> t)
           | _ \<Rightarrow> t))"

section \<open>Link resolution\<close>

fun cut :: "string \<Rightarrow> string \<times> string \<times> bool" where
  "cut [] = ([], [], False)"
| "cut (c # s) = (if c = CHR ''/'' then ([], s, True) else case cut s of (part, rest, slash) \<Rightarrow> (c # part, rest, slash))"

record pathResolution =
  rview :: view
  current :: string
  remaining :: string
  rnode :: node
  hops :: nat

definition followLink :: "heap \<Rightarrow> string \<Rightarrow> bool \<Rightarrow> pathResolution \<Rightarrow> fsError option \<times> pathResolution" where
  "followLink h rest slash r =
     (if isAbs (ntarget (rnode r)) then (Some ErrEscape, r)
      else let r = r\<lparr>hops := hops r + 1\<rparr>
           in if hops r > maxSymbolicLinkDepth then (Some ErrLoop, r)
              else let r = r\<lparr>remaining := ntarget (rnode r) @ (if slash then ''/'' @ rest else [])\<rparr>
                   in if ntarget (rnode r) = [] then (Some ErrNotExist, r)
                      else case lookup h (rview r) (current r) of
                        Inl e \<Rightarrow> (Some e, r)
                      | Inr n \<Rightarrow> (None, r\<lparr>rnode := n, rview := remember h (rview r) (current r)\<rparr>))"

definition advance :: "heap \<Rightarrow> string \<Rightarrow> string \<Rightarrow> bool \<Rightarrow> bool \<Rightarrow> pathResolution \<Rightarrow> fsError option \<times> pathResolution" where
  "advance h part rest slash follow r =
     (let dest = (if current r \<noteq> ''.'' then current r @ ''/'' @ part else part)
      in case lookup h (rview r) dest of
           Inl e \<Rightarrow> (Some e, r)
         | Inr n \<Rightarrow>
             let r = r\<lparr>rnode := n, rview := remember h (rview r) dest\<rparr>
             in if isLink n \<and> (follow \<or> slash) then followLink h rest slash r
                else if slash \<and> \<not> isDir n then (Some ErrInvalid, r)
                else (None, r\<lparr>current := dest\<rparr>))"

lemma cut_rest: "cut s = (part, rest, slash) \<Longrightarrow> s \<noteq> [] \<Longrightarrow> length rest < length s"
proof (induction s arbitrary: part rest slash)
  case (Cons c s)
  show ?case
  proof (cases "c = CHR ''/''")
    case False
    obtain p' r' s' where cut: "cut s = (p', r', s')" by (cases "cut s")
    then have "rest = r'" using Cons.prems(1) False by simp
    then show ?thesis using Cons.IH[OF cut] cut by (cases s) auto
  qed (use Cons in simp)
qed simp

lemma advance_progress:
  "advance h part rest slash follow r = (None, r') \<Longrightarrow>
     hops r < hops r' \<and> hops r' \<le> maxSymbolicLinkDepth \<or> hops r' = hops r \<and> remaining r' = remaining r"
  by (auto simp: advance_def followLink_def Let_def split: sum.splits if_splits)

function resolveLoop :: "heap \<Rightarrow> bool \<Rightarrow> pathResolution \<Rightarrow> (fsError + string \<times> node) \<times> view" where
  "resolveLoop h follow r =
     (if remaining r = [] then (Inr (current r, rnode r), rview r)
      else case cut (remaining r) of (part, rest, slash) \<Rightarrow>
        let r = r\<lparr>remaining := rest\<rparr>
        in if part = [] \<or> part = ''.'' then resolveLoop h follow r
           else if part = ''..''
           then (if current r = ''.'' then (Inl ErrEscape, rview r)
                 else let up = pathDir (current r)
                      in case lookup h (rview r) up of
                           Inl e \<Rightarrow> (Inl e, rview r)
                         | Inr n \<Rightarrow> resolveLoop h follow
                             (r\<lparr>current := up, rnode := n, rview := remember h (rview r) up\<rparr>))
           else case advance h part rest slash follow r of
                  (Some e, r') \<Rightarrow> (Inl e, rview r')
                | (None, r') \<Rightarrow> resolveLoop h follow r')"
  by pat_completeness auto
termination
  by (relation "measures [\<lambda>(h, f, r). maxSymbolicLinkDepth - hops r, \<lambda>(h, f, r). length (remaining r)]")
    (auto dest: cut_rest[OF sym] dest!: advance_progress[OF sym])

declare resolveLoop.simps [simp del]

definition startResolution :: "heap \<Rightarrow> bool \<Rightarrow> view \<Rightarrow> string \<Rightarrow> (fsError + string \<times> node) \<times> view" where
  "startResolution h follow t name = (case lookup h t ''.'' of
     Inl e \<Rightarrow> (Inl e, t)
   | Inr n \<Rightarrow> resolveLoop h follow
       \<lparr>rview = remember h t ''.'', current = ''.'', remaining = name, rnode = n, hops = 0\<rparr>)"

definition resolve :: "heap \<Rightarrow> view \<Rightarrow> string \<Rightarrow> bool \<Rightarrow> (fsError + string \<times> node) \<times> view" where
  "resolve h t name follow =
     (if CHR 0x00 \<in> set name \<or> name = [] then (Inl ErrInvalid, t)
      else if isAbs name then (Inl ErrEscape, t)
      else
        let direct = (if validPath name
              then Option.bind (map_of (nodes t) name) (\<lambda>a. if \<not> follow \<or> \<not> isLink (h ! a) then Some (h ! a) else None)
              else None)
        in case direct of
             Some n \<Rightarrow> (Inr (name, n), t)
           | None \<Rightarrow>
               if validPath name \<and> (lower t \<noteq> None \<or> input t = None)
               then let t' = remember h t name
                    in case lookup h t name of
                         Inr n \<Rightarrow> if \<not> follow \<or> \<not> isLink n then (Inr (name, n), t') else startResolution h follow t' name
                       | Inl e \<Rightarrow> if isError ErrNotExist e then startResolution h follow t' name else (Inl e, t')
               else startResolution h follow t name)"

definition resolvePath :: "heap \<Rightarrow> view \<Rightarrow> string \<Rightarrow> fsError + string" where
  "resolvePath h t name = (case fst (resolve h t name True) of
     Inl e \<Rightarrow> Inl (PathError ''resolve'' name e)
   | Inr (p, _) \<Rightarrow> Inr p)"

section \<open>Reads\<close>

definition readNode :: "heap \<Rightarrow> view \<Rightarrow> string \<Rightarrow> string \<Rightarrow> bool \<Rightarrow> (fsError + node) \<times> view" where
  "readNode h t op name follow =
     (if \<not> validPath name then (Inl (PathError op name ErrInvalid), t)
      else case resolve h t name follow of
        (Inl e, t') \<Rightarrow> (Inl (PathError op name e), t')
      | (Inr (p, n), t') \<Rightarrow> (Inr (if p \<noteq> name then n\<lparr>nname := pathBase name\<rparr> else n), t'))"

definition setCachedChildren :: "string \<Rightarrow> dirEntry list \<Rightarrow> view \<Rightarrow> view" where
  "setCachedChildren p es t = (case Option.bind (input t) memo of
     None \<Rightarrow> t
   | Some m \<Rightarrow> (case map_of m p of None \<Rightarrow> t | Some n \<Rightarrow> setMemo (gput p (n\<lparr>nchildren := Some es\<rparr>) m) t))"

text \<open>The entries of an upper directory over those of its foreign source.\<close>

definition mergeEntries :: "heap \<Rightarrow> view \<Rightarrow> foreignNode \<Rightarrow> dirEntry list \<Rightarrow> dirEntry list \<Rightarrow> dirEntry list" where
  "mergeEntries h t f es children =
     (let kept = filter (\<lambda>e. \<not> (removed t \<noteq> [] \<and> masked t (pathJoin [fmount f, fpath f, entryName h e])) \<and>
                             \<not> snd (searchEntry h children (entryName h e))) es
      in sortFunc (\<lambda>a b. cmp (entryName h a) (entryName h b)) (kept @ children))"

definition ownEntries :: "heap \<Rightarrow> view \<Rightarrow> foreignNode \<Rightarrow> node \<Rightarrow> (fsError + dirEntry list) \<times> view" where
  "ownEntries h t f n =
     (let cached = (if fmount f = []
            then Option.bind (Option.bind (Option.bind (input t) memo) (\<lambda>m. map_of m (fpath f))) nchildren
            else None)
      in case (case cached of Some es \<Rightarrow> Inr es | None \<Rightarrow> fsReadDir (fsource f) (fpath f)) of
           Inl e \<Rightarrow> (Inl e, t)
         | Inr es \<Rightarrow>
             (Inr (if \<not> fupper f then es else mergeEntries h t f es (childrenOf n)),
              if fmount f = [] then setCachedChildren (fpath f) es t else t))"

fun entries :: "heap \<Rightarrow> view \<Rightarrow> node \<Rightarrow> (fsError + dirEntry list) \<times> view" where
  "entries h (View ns low rm inp) n =
     (let t = View ns low rm inp
      in case nforeign n of
           None \<Rightarrow> (Inr (childrenOf n), t)
         | Some f \<Rightarrow>
             if \<not> fupper f \<and> nchildren n \<noteq> None then (Inr (childrenOf n), t)
             else case low of
               Some l \<Rightarrow>
                 if map_of ns (pathJoin [fmount f, fpath f]) = None
                 then (case entries h l n of (res, l') \<Rightarrow> (res, View ns (Some l') rm inp))
                 else ownEntries h t f n
             | None \<Rightarrow> ownEntries h t f n)"

definition readFile :: "heap \<Rightarrow> view \<Rightarrow> string \<Rightarrow> (fsError + string) \<times> view" where
  "readFile h t name = (case readNode h t ''readfile'' name True of
     (Inl e, t') \<Rightarrow> (Inl e, t')
   | (Inr n, t') \<Rightarrow>
       if isDir n then (Inl (PathError ''readfile'' name ErrInvalid), t')
       else case nforeign n of
         Some f \<Rightarrow> (fsReadFile (fsource f) (fpath f), t')
       | None \<Rightarrow> (Inr (ndata n), t'))"

definition readDir :: "heap \<Rightarrow> view \<Rightarrow> string \<Rightarrow> (fsError + dirEntry list) \<times> view" where
  "readDir h t name = (case readNode h t ''readdir'' name True of
     (Inl e, t') \<Rightarrow> (Inl e, t')
   | (Inr n, t') \<Rightarrow> if \<not> isDir n then (Inl (PathError ''readdir'' name ErrInvalid), t') else entries h t' n)"

definition stat :: "heap \<Rightarrow> view \<Rightarrow> string \<Rightarrow> (fsError + node) \<times> view" where
  "stat h t name = readNode h t ''stat'' name True"

definition lstat :: "heap \<Rightarrow> view \<Rightarrow> string \<Rightarrow> (fsError + node) \<times> view" where
  "lstat h t name = readNode h t ''lstat'' name False"

definition readLink :: "heap \<Rightarrow> view \<Rightarrow> string \<Rightarrow> (fsError + string) \<times> view" where
  "readLink h t name = (case readNode h t ''readlink'' name False of
     (Inl e, t') \<Rightarrow> (Inl e, t')
   | (Inr n, t') \<Rightarrow> (if \<not> isLink n then Inl (PathError ''readlink'' name ErrInvalid) else Inr (ntarget n), t'))"

section \<open>Open handles\<close>

record fileHandle =
  hnode :: node
  hname :: string
  hpos :: nat
  hoffset :: nat
  hclosed :: bool

datatype opened = OwnFile fileHandle | ForeignFile fsys string

definition openFile :: "heap \<Rightarrow> view \<Rightarrow> string \<Rightarrow> (fsError + opened) \<times> view" where
  "openFile h t name = (case readNode h t ''open'' name True of
     (Inl e, t') \<Rightarrow> (Inl e, t')
   | (Inr n, t') \<Rightarrow>
       let handle = (\<lambda>n. OwnFile \<lparr>hnode = n, hname = name, hpos = 0, hoffset = 0, hclosed = False\<rparr>)
       in case nforeign n of
            None \<Rightarrow> (Inr (handle n), t')
          | Some f \<Rightarrow>
              if \<not> isDir n then (Inr (ForeignFile (fsource f) (fpath f)), t')
              else case entries h t' n of
                (Inl e, t'') \<Rightarrow> (Inl e, t'')
              | (Inr es, t'') \<Rightarrow> (Inr (handle (n\<lparr>nchildren := Some es, nforeign := None\<rparr>)), t''))"

definition fileStat :: "fileHandle \<Rightarrow> fsError + node" where
  "fileStat f = (if hclosed f then Inl (PathError ''stat'' (hname f) ErrClosed) else Inr (hnode f))"

text \<open>\<^verbatim>\<open>Read\<close> into a buffer of \<open>k\<close> bytes, with the contract of \<^verbatim>\<open>bytes.Reader.Read\<close>.\<close>

definition fileRead :: "nat \<Rightarrow> fileHandle \<Rightarrow> (fsError + string) \<times> fileHandle" where
  "fileRead k f =
     (if hclosed f then (Inl (PathError ''read'' (hname f) ErrClosed), f)
      else if isDir (hnode f) then (Inl (PathError ''read'' (hname f) ErrInvalid), f)
      else if length (ndata (hnode f)) \<le> hpos f then (Inl ErrEOF, f)
      else let b = take k (drop (hpos f) (ndata (hnode f))) in (Inr b, f\<lparr>hpos := hpos f + length b\<rparr>))"

definition fileReadDir :: "int \<Rightarrow> fileHandle \<Rightarrow> (fsError + dirEntry list) \<times> fileHandle" where
  "fileReadDir n f =
     (if hclosed f then (Inl (PathError ''readdir'' (hname f) ErrClosed), f)
      else if \<not> isDir (hnode f) then (Inl (PathError ''readdir'' (hname f) ErrInvalid), f)
      else let es = drop (hoffset f) (childrenOf (hnode f))
           in if n > 0 \<and> es = [] then (Inl ErrEOF, f)
              else let es = (if n > 0 then take (nat n) es else es)
                   in (Inr es, f\<lparr>hoffset := hoffset f + length es\<rparr>))"

definition fileClose :: "fileHandle \<Rightarrow> fsError option \<times> fileHandle" where
  "fileClose f = (if hclosed f then (Some (PathError ''close'' (hname f) ErrClosed), f) else (None, f\<lparr>hclosed := True\<rparr>))"

section \<open>Construction\<close>

record builder =
  bheap :: heap
  bview :: view
  sealed :: bool

text \<open>A tree as a filesystem: its own read methods.\<close>

definition treeFS :: "heap \<Rightarrow> view \<Rightarrow> fsys" where
  "treeFS h t =
     \<lparr>fsLstat = \<lambda>p. map_sum id nodeInfo (fst (lstat h t p)), fsStat = \<lambda>p. map_sum id nodeInfo (fst (stat h t p)),
      fsReadLink = \<lambda>p. fst (readLink h t p), fsReadDir = \<lambda>p. fst (readDir h t p), fsReadFile = \<lambda>p. fst (readFile h t p)\<rparr>"

datatype lowerFS = NoLower | NilTree | TreeLower view | OtherFS fsys

definition newBuilder :: "heap \<Rightarrow> lowerFS \<Rightarrow> builder" where
  "newBuilder h low = (case low of
     TreeLower t \<Rightarrow>
       \<lparr>bheap = h, bview = View [] (Some t) []
         (if input t = None then None else Some \<lparr>inLower = Some (treeFS h t), memo = Some [], mounts = []\<rparr>),
        sealed = False\<rparr>
   | OtherFS f \<Rightarrow>
       \<lparr>bheap = h, bview = View [] None [] (Some \<lparr>inLower = Some f, memo = Some [], mounts = []\<rparr>), sealed = False\<rparr>
   | _ \<Rightarrow>
       \<lparr>bheap = h @ [plainNode ''.'' (ModeDir OR defaultDirectoryMode)], bview = View [(''.'', length h)] None [] None,
        sealed = False\<rparr>)"

definition normalize :: "builder \<Rightarrow> string \<Rightarrow> string \<Rightarrow> fsError + string" where
  "normalize b op name =
     (if sealed b then Inl (PathError op name ErrSealed)
      else let p = pathClean name
           in if name = [] \<or> CHR 0x00 \<in> set name \<or> \<not> validPath p then Inl (PathError op name ErrInvalid) else Inr p)"

definition copyDirectory :: "view \<Rightarrow> string \<Rightarrow> node \<Rightarrow> node option" where
  "copyDirectory t name low = (case nforeign low of
     None \<Rightarrow> Some low
   | Some f \<Rightarrow>
       if fmount f \<noteq> []
       then Some (low\<lparr>nforeign := Some (f\<lparr>finfo := nodeInfo low, fupper := True\<rparr>), nchildren := None\<rparr>)
       else map_option (\<lambda>src. low\<lparr>nforeign := Some \<lparr>fsource = src, fpath = name, finfo = nodeInfo low, fupper = True, fmount = []\<rparr>,
                                  nchildren := None\<rparr>) (Option.bind (input t) inLower))"

definition setNodes :: "(string, nat) gomap \<Rightarrow> view \<Rightarrow> view" where
  "setNodes ns t = View ns (lower t) (removed t) (input t)"

definition insertChild :: "heap \<Rightarrow> nat \<Rightarrow> dirEntry list \<Rightarrow> dirEntry list" where
  "insertChild h a es =
     (case searchEntry h es (nname (h ! a)) of
        (i, True) \<Rightarrow> es[i := NodeEntry a]
      | (i, False) \<Rightarrow> take i es @ [NodeEntry a] @ drop i es)"

text \<open>
  \<^verbatim>\<open>directory\<close> and \<^verbatim>\<open>put\<close> call each other up to the root; the list is the chain of the parents that are
  left, with the path in question first for \<open>directory\<close> and after it for \<open>put\<close>. Nodes are handed over by
  address.
\<close>

definition madeDirectory :: "builder \<Rightarrow> string \<Rightarrow> fsError + node" where
  "madeDirectory b name = (case lookup (bheap b) (bview b) name of
     Inr low \<Rightarrow>
       if \<not> isDir low then Inl ErrConflict
       else (case copyDirectory (bview b) name low of None \<Rightarrow> Inl NilDereference | Some n \<Rightarrow> Inr n)
   | Inl e \<Rightarrow>
       if isError ErrNotExist e then Inr (plainNode (pathBase name) (ModeDir OR defaultDirectoryMode)) else Inl e)"

definition alloc :: "node \<Rightarrow> builder \<Rightarrow> builder" where
  "alloc n b = b\<lparr>bheap := bheap b @ [n]\<rparr>"

definition linkChild :: "nat \<Rightarrow> nat \<Rightarrow> builder \<Rightarrow> builder" where
  "linkChild par a b =
     (let pn = bheap b ! par
      in b\<lparr>bheap := (bheap b)[par := pn\<lparr>nchildren := Some (insertChild (bheap b) a (childrenOf pn))\<rparr>]\<rparr>)"

definition bindNode :: "string \<Rightarrow> nat \<Rightarrow> builder \<Rightarrow> builder" where
  "bindNode name a b = b\<lparr>bview := setNodes (gput name a (nodes (bview b))) (bview b)\<rparr>"

function directory :: "string list \<Rightarrow> builder \<Rightarrow> builder \<times> (fsError + nat)"
  and put :: "string \<Rightarrow> string list \<Rightarrow> nat \<Rightarrow> builder \<Rightarrow> builder \<times> fsError option" where
  "directory [] b = (b, Inl NilDereference)"
| "directory (name # parents) b =
     (case map_of (nodes (bview b)) name of
        Some a \<Rightarrow> (b, if \<not> isDir (bheap b ! a) then Inl ErrConflict else Inr a)
      | None \<Rightarrow>
          let b' = b\<lparr>bview := remember (bheap b) (bview b) name\<rparr>
          in case madeDirectory b name of
               Inl e \<Rightarrow> (b', Inl e)
             | Inr n \<Rightarrow> (case put name parents (length (bheap b)) (alloc n b') of
                 (b'', Some e) \<Rightarrow> (b'', Inl e)
               | (b'', None) \<Rightarrow> (b'', Inr (length (bheap b)))))"
| "put name parents a b =
     (if name = ''.'' then (bindNode name a b, None)
      else case directory parents b of
        (b', Inl e) \<Rightarrow> (b', Some e)
      | (b', Inr par) \<Rightarrow> (bindNode name a (linkChild par a b'), None))"
  by pat_completeness auto
termination
  by (relation "measure (case_sum (\<lambda>(ps, b). 2 * length ps) (\<lambda>(n, ps, a, b). 2 * length ps + 1))") auto

definition putPath :: "string \<Rightarrow> node \<Rightarrow> builder \<Rightarrow> builder \<times> fsError option" where
  "putPath name n b = put name (tl (dirChain name)) (length (bheap b)) (alloc n b)"

definition recall :: "string \<Rightarrow> builder \<Rightarrow> builder" where
  "recall name b = b\<lparr>bview := remember (bheap b) (bview b) name\<rparr>"

definition wrapError :: "string \<Rightarrow> string \<Rightarrow> builder \<times> fsError option \<Rightarrow> builder \<times> fsError option" where
  "wrapError op name r = (fst r, map_option (PathError op name) (snd r))"

definition addFile :: "string \<Rightarrow> string \<Rightarrow> FileMode \<Rightarrow> builder \<Rightarrow> builder \<times> fsError option" where
  "addFile name content mode b = (case normalize b ''addfile'' name of
     Inl e \<Rightarrow> (b, Some e)
   | Inr p \<Rightarrow>
       if p = ''.'' \<or> mode AND ModeType \<noteq> 0 then (b, Some (PathError ''addfile'' name ErrInvalid))
       else case (case lookup (bheap b) (bview b) p of
                    Inr n \<Rightarrow> if nmode n AND ModeType \<noteq> 0 then Some (PathError ''addfile'' name ErrConflict) else None
                  | Inl e \<Rightarrow> if \<not> isError ErrNotExist e then Some e else None) of
         Some e \<Rightarrow> (recall p b, Some e)
       | None \<Rightarrow> wrapError ''addfile'' name (putPath p ((plainNode (pathBase p) mode)\<lparr>ndata := content\<rparr>) (recall p b)))"

definition addSymlink :: "string \<Rightarrow> string \<Rightarrow> builder \<Rightarrow> builder \<times> fsError option" where
  "addSymlink name target b = (case normalize b ''addsymlink'' name of
     Inl e \<Rightarrow> (b, Some e)
   | Inr p \<Rightarrow>
       if p = ''.'' \<or> CHR 0x00 \<in> set target then (b, Some (PathError ''addsymlink'' name ErrInvalid))
       else case (case lookup (bheap b) (bview b) p of
                    Inr n \<Rightarrow> if \<not> isLink n then Some (PathError ''addsymlink'' name ErrConflict) else None
                  | Inl e \<Rightarrow> if \<not> isError ErrNotExist e then Some e else None) of
         Some e \<Rightarrow> (recall p b, Some e)
       | None \<Rightarrow> wrapError ''addsymlink'' name
           (putPath p ((plainNode (pathBase p) (ModeSymlink OR symbolicLinkMode))\<lparr>ntarget := target\<rparr>) (recall p b)))"

definition under :: "string \<Rightarrow> string \<Rightarrow> bool" where
  "under p key \<longleftrightarrow> p = ''.'' \<or> key = p \<or> hasPrefix key (p @ ''/'')"

definition maskPath :: "string \<Rightarrow> builder \<Rightarrow> builder" where
  "maskPath p b = b\<lparr>bview := View (filter (\<lambda>(k, a). \<not> under p k) (nodes (bview b))) (lower (bview b))
     (p # removed (bview b)) (input (bview b))\<rparr>"

definition unlinkChild :: "nat \<Rightarrow> string \<Rightarrow> builder \<Rightarrow> builder" where
  "unlinkChild par c b =
     (let pn = bheap b ! par
      in case searchEntry (bheap b) (childrenOf pn) c of
           (i, True) \<Rightarrow> b\<lparr>bheap := (bheap b)[par := pn\<lparr>nchildren := Some (take i (childrenOf pn) @ drop (i + 1) (childrenOf pn))\<rparr>]\<rparr>
         | (i, False) \<Rightarrow> b)"

definition removeAll :: "string \<Rightarrow> builder \<Rightarrow> builder \<times> fsError option" where
  "removeAll name b = (case normalize b ''removeall'' name of
     Inl e \<Rightarrow> (b, Some e)
   | Inr p \<Rightarrow>
       let b = maskPath p b
       in if p = ''.'' then (bindNode ''.'' (length (bheap b)) (alloc (plainNode ''.'' (ModeDir OR defaultDirectoryMode)) b), None)
          else
            let parentPath = pathDir p
            in case lookup (bheap b) (bview b) parentPath of
                 Inl e \<Rightarrow> if isError ErrNotExist e then (b, None) else (b, Some e)
               | Inr n \<Rightarrow>
                   if \<not> isDir n then (recall parentPath b, None)
                   else case directory (dirChain parentPath) (recall parentPath b) of
                     (b', Inl e) \<Rightarrow> (b', Some (PathError ''removeall'' name e))
                   | (b', Inr par) \<Rightarrow> (unlinkChild par (pathBase p) b', None))"

definition build :: "builder \<Rightarrow> builder \<times> (fsError + view)" where
  "build b =
     (if sealed b then (b, Inl (PathError ''build'' ''.'' ErrSealed))
      else let t = bview b
           in (b\<lparr>sealed := True, bview := View [] None [] None\<rparr>,
               Inr (View (nodes t) (lower t) (removed t) (map_option (\<lambda>i. i\<lparr>memo := None\<rparr>) (input t)))))"

definition mount :: "string \<Rightarrow> fsys \<Rightarrow> builder \<Rightarrow> builder \<times> fsError option" where
  "mount name f b = (case normalize b ''mount'' name of
     Inl e \<Rightarrow> (b, Some e)
   | Inr p \<Rightarrow> (case fsStat f ''.'' of
       Inl e \<Rightarrow> (b, Some e)
     | Inr info \<Rightarrow>
         (case putPath p ((plainNode (pathBase p) (iMode info))
             \<lparr>nforeign := Some \<lparr>fsource = f, fpath = ''.'', finfo = info, fupper = True, fmount = p\<rparr>\<rparr>) b of
            (b', Some e) \<Rightarrow> (b', Some e)
          | (b', None) \<Rightarrow>
              let t = bview b';
                  inp = (case input t of None \<Rightarrow> \<lparr>inLower = None, memo = None, mounts = []\<rparr> | Some i \<Rightarrow> i)
              in (b'\<lparr>bview := View (filter (\<lambda>(k, a). \<not> (k \<noteq> p \<and> (p = ''.'' \<or> hasPrefix k (p @ ''/'')))) (nodes t))
                        (lower t) (removed t) (Some (inp\<lparr>mounts := gput p f (mounts inp)\<rparr>))\<rparr>, None))))"

section \<open>Confinement of link resolution\<close>

text \<open>Trees and overlays without foreign inputs.\<close>

fun inMemory :: "view \<Rightarrow> bool" where
  "inMemory (View ns low rm inp) = (inp = None \<and> (case low of None \<Rightarrow> True | Some l \<Rightarrow> inMemory l))"

lemma inMemory_input: "inMemory t \<Longrightarrow> input t = None"
  by (cases t) auto

lemma remember_inMemory [simp]: "inMemory t \<Longrightarrow> remember h t name = t"
  by (induction h t name rule: remember.induct) (auto simp: Let_def split: option.splits)

lemma lookup_inMemory_error: "inMemory t \<Longrightarrow> lookup h t name = Inl e \<Longrightarrow> e = ErrNotExist"
  by (induction h t name rule: lookup.induct) (auto split: option.splits if_splits)

lemma cut_part: "cut s = (part, rest, slash) \<Longrightarrow> CHR ''/'' \<notin> set part"
  by (induction s arbitrary: part rest slash) (auto split: if_splits prod.splits)

definition linkFree :: "heap \<Rightarrow> view \<Rightarrow> string list \<Rightarrow> bool" where
  "linkFree h t cs \<longleftrightarrow> (\<forall>ds n. prefix ds cs \<longrightarrow> lookup h t (pathOf ds) = Inr n \<longrightarrow> \<not> isLink n)"

lemma linkFree_snoc:
  "linkFree h t (cs @ [c]) \<longleftrightarrow> linkFree h t cs \<and> (\<forall>n. lookup h t (pathOf (cs @ [c])) = Inr n \<longrightarrow> \<not> isLink n)"
  by (auto simp: linkFree_def)

lemma linkFree_butlast: "linkFree h t cs \<Longrightarrow> linkFree h t (butlast cs)"
  by (cases cs rule: rev_cases) (auto simp: linkFree_snoc)

definition located :: "heap \<Rightarrow> view \<Rightarrow> bool \<Rightarrow> pathResolution \<Rightarrow> bool" where
  "located h t follow r \<longleftrightarrow> rview r = t \<and> (\<exists>cs. list_all plain cs \<and> current r = pathOf cs \<and>
     lookup h t (current r) = Inr (rnode r) \<and> (follow \<longrightarrow> linkFree h t cs))"

lemma followLink_located:
  assumes mem: "inMemory t" and view: "rview r = t" and ok: "list_all plain cs" "current r = pathOf cs" "follow \<longrightarrow> linkFree h t cs"
    and fl: "followLink h rest slash r = (None, r')"
  shows "located h t follow r'"
  using fl mem view ok unfolding followLink_def located_def Let_def
  by (auto split: if_splits sum.splits)

lemma advance_located:
  assumes mem: "inMemory t" and loc: "located h t follow r" and part: "plain part"
    and adv: "advance h part rest slash follow r = (None, r')"
  shows "located h t follow r'"
proof -
  obtain cs where cs: "list_all plain cs" "current r = pathOf cs" "follow \<longrightarrow> linkFree h t cs" and view: "rview r = t"
    using loc by (auto simp: located_def)
  let ?dest = "if current r \<noteq> ''.'' then current r @ ''/'' @ part else part"
  have dest: "?dest = pathOf (cs @ [part])"
    using cs pathOf_eq_dot[OF cs(1)] by (simp add: pathOf_snoc)
  obtain n where n: "lookup h t ?dest = Inr n" using adv view by (auto simp: advance_def Let_def split: sum.splits)
  show ?thesis
  proof (cases "isLink n \<and> (follow \<or> slash)")
    case True
    then have "followLink h rest slash (r\<lparr>rnode := n, rview := t\<rparr>) = (None, r')"
      using adv n view mem unfolding advance_def Let_def by simp
    then show ?thesis by (rule followLink_located[OF mem, rotated -1]) (use cs in simp_all)
  next
    case False
    then have r': "r' = r\<lparr>rnode := n, rview := t, current := ?dest\<rparr>"
      using adv n view mem unfolding advance_def Let_def by (auto split: if_splits)
    have "list_all plain (cs @ [part])" using cs(1) part by simp
    moreover have "follow \<longrightarrow> linkFree h t (cs @ [part])"
      using cs(3) False n unfolding linkFree_snoc dest by auto
    ultimately show ?thesis unfolding located_def r' using dest n by (auto intro!: exI[of _ "cs @ [part]"])
  qed
qed

lemma resolveLoop_located:
  assumes "inMemory t" and "located h t follow r" and "resolveLoop h follow r = (Inr (p, n), t')"
  shows "canonical p \<and> lookup h t p = Inr n \<and> (follow \<longrightarrow> \<not> isLink n) \<and> t' = t"
  using assms
proof (induction h follow r rule: resolveLoop.induct)
  case (1 h follow r)
  obtain cs where cs: "list_all plain cs" "current r = pathOf cs" "lookup h t (current r) = Inr (rnode r)"
      "follow \<longrightarrow> linkFree h t cs" and view: "rview r = t"
    using "1.prems"(2) by (auto simp: located_def)
  note mem = "1.prems"(1) and run = "1.prems"(3)
  show ?case
  proof (cases "remaining r = []")
    case True
    then have "p = current r" "n = rnode r" "t' = t" using run view by (simp_all add: resolveLoop.simps[of h follow r])
    moreover have "follow \<longrightarrow> \<not> isLink (rnode r)" using cs unfolding linkFree_def by auto
    ultimately show ?thesis using cs by (auto simp: canonical_def)
  next
    case False
    obtain part rest slash where cut: "cut (remaining r) = (part, rest, slash)" by (cases "cut (remaining r)")
    let ?r = "r\<lparr>remaining := rest\<rparr>"
    have loc: "located h t follow ?r" using "1.prems"(2) by (auto simp: located_def)
    note unfold = run[unfolded resolveLoop.simps[of h follow r] cut prod.case Let_def]
    consider (skip) "part = [] \<or> part = ''.''" | (up) "part = ''..''" | (down) "plain part"
      using cut_part[OF cut] unfolding plain_def by blast
    then show ?thesis
    proof cases
      case skip
      then have "resolveLoop h follow ?r = (Inr (p, n), t')" using unfold False by simp
      then show ?thesis using "1.IH"(1)[OF False cut[symmetric] refl refl skip mem loc] by simp
    next
      case up
      have "part \<noteq> []" "part \<noteq> ''.''" using up by simp_all
      then obtain m where m: "current r \<noteq> ''.''" "lookup h t (pathDir (current r)) = Inr m"
          "resolveLoop h follow (?r\<lparr>current := pathDir (current r), rnode := m, rview := t\<rparr>) = (Inr (p, n), t')"
        using unfold False up view mem by (auto split: if_splits sum.splits)
      have loc': "located h t follow (?r\<lparr>current := pathDir (current r), rnode := m, rview := t\<rparr>)"
        unfolding located_def using m(2) cs pathDir_pathOf[OF cs(1)] linkFree_butlast[of h t cs]
        by (auto intro!: exI[of _ "butlast cs"] simp: list_all_iff dest: in_set_butlastD)
      show ?thesis
        using "1.IH"(2)[OF False cut[symmetric] refl refl _ up _ refl, of m] m loc' mem view up by simp
    next
      case down
      note pl = plainD[OF down]
      obtain r' where adv: "advance h part rest slash follow ?r = (None, r')" and go: "resolveLoop h follow r' = (Inr (p, n), t')"
        using unfold False pl by (auto split: prod.splits option.splits)
      have loc': "located h t follow r'"
        by (rule advance_located[OF mem loc down adv])
      show ?thesis
        using "1.IH"(3)[OF False cut[symmetric] refl refl _ _ adv[symmetric] refl mem loc' go] pl by simp
    qed
  qed
qed

lemma startResolution_located:
  assumes "inMemory t" and "\<And>root. lookup h t ''.'' = Inr root \<Longrightarrow> \<not> isLink root"
    and "startResolution h follow t name = (Inr (p, n), t')"
  shows "canonical p \<and> lookup h t p = Inr n \<and> (follow \<longrightarrow> \<not> isLink n) \<and> t' = t"
proof -
  obtain root where root: "lookup h t ''.'' = Inr root"
    using assms(3) by (auto simp: startResolution_def split: sum.splits)
  have "linkFree h t []" using assms(2) by (auto simp: linkFree_def pathOf_def)
  then have loc: "located h t follow \<lparr>rview = t, current = ''.'', remaining = name, rnode = root, hops = 0\<rparr>"
    using root by (auto simp: located_def pathOf_def intro!: exI[of _ "[]"])
  show ?thesis
    by (rule resolveLoop_located[OF assms(1) loc]) (use assms(1,3) root in \<open>simp add: startResolution_def\<close>)
qed

text \<open>
  C24. Link resolution is confined: on a tree or overlay without foreign inputs whose root is not a link, a
  resolved path is canonical and relative (no empty, dot or parent component), it is the path of the node
  returned, the node is not a link when links are followed, and resolving changes nothing.
\<close>

theorem resolve_confined:
  assumes "inMemory t" and "\<And>root. lookup h t ''.'' = Inr root \<Longrightarrow> \<not> isLink root"
    and "resolve h t name follow = (Inr (p, n), t')"
  shows "canonical p \<and> lookup h t p = Inr n \<and> (follow \<longrightarrow> \<not> isLink n) \<and> t' = t"
proof -
  obtain ns low rm where t: "t = View ns low rm None" using assms(1) inMemory_input[of t] by (cases t) simp
  have direct: "lookup h t name = Inr (h ! a)" if "map_of (nodes t) name = Some a" for a using that by (simp add: t)
  have ok: "\<not> (CHR 0x00 \<in> set name \<or> name = [])" "\<not> isAbs name"
    using assms(3) by (auto simp: resolve_def split: if_splits)
  define d where "d = (if validPath name
      then Option.bind (map_of (nodes t) name) (\<lambda>a. if \<not> follow \<or> \<not> isLink (h ! a) then Some (h ! a) else None) else None)"
  note run = assms(3)[unfolded resolve_def Let_def d_def[symmetric] remember_inMemory[OF assms(1)]]
  consider (hit) "validPath name" "p = name" "lookup h t name = Inr n" "follow \<longrightarrow> \<not> isLink n" "t' = t"
    | (walk) "startResolution h follow t name = (Inr (p, n), t')"
  proof (cases d)
    case (Some m)
    then obtain a where a: "validPath name" "map_of (nodes t) name = Some a" "\<not> follow \<or> \<not> isLink (h ! a)" "m = h ! a"
      by (auto simp: d_def bind_eq_Some_conv split: if_splits)
    then show ?thesis using that(1) run ok Some direct by simp
  next
    case None
    show ?thesis
    proof (cases "validPath name \<and> (lower t \<noteq> None \<or> input t = None)")
      case True
      then show ?thesis
        using run ok None that by (cases "lookup h t name") (auto split: if_splits)
    next
      case False
      then have "startResolution h follow t name = (Inr (p, n), t')" using run ok None by (simp only: if_False option.case)
      then show ?thesis by (rule that(2))
    qed
  qed
  then show ?thesis
  proof cases
    case hit
    then show ?thesis using validPath_canonical by blast
  next
    case walk
    then show ?thesis using startResolution_located[OF assms(1,2)] by blast
  qed
qed

text \<open>A small tree: a file in a directory, a link to the directory, a link to itself and one to an absolute path.\<close>

definition exHeap :: heap where
  "exHeap =
     [(plainNode ''.'' ModeDir)\<lparr>nchildren := Some [NodeEntry 4, NodeEntry 1, NodeEntry 3, NodeEntry 5]\<rparr>,
      (plainNode ''dir'' ModeDir)\<lparr>nchildren := Some [NodeEntry 2]\<rparr>, (plainNode ''f'' 420)\<lparr>ndata := ''data''\<rparr>,
      (plainNode ''link'' ModeSymlink)\<lparr>ntarget := ''./dir''\<rparr>, (plainNode ''abs'' ModeSymlink)\<lparr>ntarget := ''/etc''\<rparr>,
      (plainNode ''self'' ModeSymlink)\<lparr>ntarget := ''self''\<rparr>]"

definition exTree :: view where
  "exTree = View [(''.'', 0), (''abs'', 4), (''dir'', 1), (''dir/f'', 2), (''link'', 3), (''self'', 5)] None [] None"

theorem resolve_confined_witness:
  "\<exists>n t'. resolve exHeap exTree ''link/../link/f'' True = (Inr (''dir/f'', n), t') \<and> canonical ''dir/f'' \<and>
     lookup exHeap exTree ''dir/f'' = Inr n"
proof -
  have "map_sum id fst (fst (resolve exHeap exTree ''link/../link/f'' True)) = Inr ''dir/f''" by code_simp
  then obtain n t' where run: "resolve exHeap exTree ''link/../link/f'' True = (Inr (''dir/f'', n), t')"
    by (cases "resolve exHeap exTree ''link/../link/f'' True"; cases "fst (resolve exHeap exTree ''link/../link/f'' True)") auto
  have "inMemory exTree" by (simp add: exTree_def)
  moreover have "\<not> isLink root" if "lookup exHeap exTree ''.'' = Inr root" for root
    using that by (auto simp: exTree_def exHeap_def plainNode_def isLink_def ModeDir_def ModeSymlink_def)
  ultimately show ?thesis using resolve_confined[OF _ _ run] run by blast
qed

section \<open>Link errors\<close>

lemma cut_plain: "CHR ''/'' \<notin> set c \<Longrightarrow> cut c = (c, [], False)"
  by (induction c) auto

lemma cut_slash: "CHR ''/'' \<notin> set c \<Longrightarrow> cut (c @ CHR ''/'' # s) = (c, s, True)"
  by (induction c) auto

text \<open>One plain component: the loop steps into the directory or hands over to \<open>followLink\<close>.\<close>

lemma resolveLoop_step:
  assumes "remaining r \<noteq> []" and "cut (remaining r) = (part, rest, slash)" and "plain part"
  shows "resolveLoop h follow r = (case advance h part rest slash follow (r\<lparr>remaining := rest\<rparr>) of
      (Some e, r') \<Rightarrow> (Inl e, rview r') | (None, r') \<Rightarrow> resolveLoop h follow r')"
  using assms(1,2) plainD[OF assms(3)] by (simp add: resolveLoop.simps[of h follow r])

definition dirsTo :: "heap \<Rightarrow> view \<Rightarrow> string list \<Rightarrow> bool" where
  "dirsTo h t cs \<longleftrightarrow> (\<forall>i \<le> length cs. \<exists>n. lookup h t (pathOf (take i cs)) = Inr n \<and> isDir n \<and> \<not> isLink n)"

lemma dirsTo_at: "dirsTo h t (base @ c # cs) \<Longrightarrow> \<exists>n. lookup h t (pathOf (base @ [c])) = Inr n \<and> isDir n \<and> \<not> isLink n"
  unfolding dirsTo_def by (drule spec[of _ "Suc (length base)"]) simp

lemma child_path: "list_all plain base \<Longrightarrow> (if pathOf base \<noteq> ''.'' then pathOf base @ ''/'' @ c else c) = pathOf (base @ [c])"
  using pathOf_eq_dot[of base] by (simp add: pathOf_snoc)

lemma advance_at:
  assumes "inMemory t" and "rview r = t" and "current r = pathOf base" and "list_all plain base"
    and "lookup h t (pathOf (base @ [c])) = Inr n"
  shows "advance h c rest slash follow r =
    (if isLink n \<and> (follow \<or> slash) then followLink h rest slash (r\<lparr>rnode := n\<rparr>)
     else if slash \<and> \<not> isDir n then (Some ErrInvalid, r\<lparr>rnode := n\<rparr>)
     else (None, r\<lparr>rnode := n, current := pathOf (base @ [c])\<rparr>))"
proof -
  have "r\<lparr>rnode := n, rview := t\<rparr> = r\<lparr>rnode := n\<rparr>" using assms(2) by simp
  then show ?thesis
    unfolding advance_def assms(2,3) child_path[OF assms(4)] assms(5) Let_def sum.case remember_inMemory[OF assms(1)]
    by (simp only:)
qed

lemma walk_dirs:
  assumes "inMemory t" and "dirsTo h t (base @ cs)" and "list_all plain (base @ cs @ [c])"
    and "rview r = t" and "current r = pathOf base" and "remaining r = joinWith ''/'' (cs @ [c])"
  shows "\<exists>n. resolveLoop h follow r =
    resolveLoop h follow (r\<lparr>rnode := n, current := pathOf (base @ cs), remaining := c\<rparr>)"
  using assms
proof (induction cs arbitrary: base r)
  case Nil
  then have "r = r\<lparr>rnode := rnode r, current := pathOf base, remaining := c\<rparr>" by simp
  then show ?case by (metis append_Nil2)
next
  case (Cons d cs)
  have d: "plain d" "list_all plain base" using Cons.prems(3) by simp_all
  have rem: "remaining r = d @ CHR ''/'' # joinWith ''/'' (cs @ [c])"
    using Cons.prems(6) by (cases cs) simp_all
  note cut = cut_slash[OF plainD(1)[OF d(1)], of "joinWith ''/'' (cs @ [c])"]
  obtain m where m: "lookup h t (pathOf (base @ [d])) = Inr m" "isDir m" "\<not> isLink m"
    using dirsTo_at[OF Cons.prems(2)] by blast
  let ?r = "r\<lparr>remaining := joinWith ''/'' (cs @ [c]), rnode := m, current := pathOf (base @ [d])\<rparr>"
  have "advance h d (joinWith ''/'' (cs @ [c])) True follow (r\<lparr>remaining := joinWith ''/'' (cs @ [c])\<rparr>) = (None, ?r)"
    using m advance_at[OF Cons.prems(1) _ _ d(2) m(1), of "r\<lparr>remaining := joinWith ''/'' (cs @ [c])\<rparr>"] Cons.prems(4,5) by simp
  then have "resolveLoop h follow r = resolveLoop h follow ?r"
    using resolveLoop_step[of r d _ True] rem cut d(1) by simp
  moreover obtain n where "resolveLoop h follow ?r =
      resolveLoop h follow (?r\<lparr>rnode := n, current := pathOf ((base @ [d]) @ cs), remaining := c\<rparr>)"
    using Cons.IH[of "base @ [d]" ?r] Cons.prems by auto
  ultimately show ?case by (intro exI[of _ n]) simp
qed

lemma resolveLoop_link_error:
  assumes mem: "inMemory t" and dir: "lookup h t (pathOf cs) = Inr dirNode" and link: "lookup h t (pathOf (cs @ [c])) = Inr n" "isLink n"
    and pl: "list_all plain cs" "plain c" and tgt: "isAbs (ntarget n) \<or> ntarget n = c"
    and r: "rview r = t" "current r = pathOf cs" "remaining r = c" "hops r \<le> maxSymbolicLinkDepth"
  shows "fst (resolveLoop h True r) = Inl (if isAbs (ntarget n) then ErrEscape else ErrLoop)"
  using r
proof (induction "maxSymbolicLinkDepth - hops r" arbitrary: r)
  case (0 r)
  then have full: "hops r = maxSymbolicLinkDepth" by simp
  have "fst (advance h c [] False True (r\<lparr>remaining := []\<rparr>)) = Some (if isAbs (ntarget n) then ErrEscape else ErrLoop)"
    using 0 full link advance_at[OF mem _ _ pl(1) link(1), of "r\<lparr>remaining := []\<rparr>"] by (simp add: followLink_def Let_def)
  then show ?case
    using resolveLoop_step[of r c "[]" False h True] 0 cut_plain[OF plainD(1)[OF pl(2)]] plainD(2)[OF pl(2)] pl(2)
    by (auto split: prod.splits option.splits)
next
  case (Suc k r)
  note step = resolveLoop_step[of r c "[]" False h True]
  have cut: "cut (remaining r) = (c, [], False)" "remaining r \<noteq> []"
    using Suc.prems cut_plain[OF plainD(1)[OF pl(2)]] plainD(2)[OF pl(2)] by simp_all
  show ?case
  proof (cases "isAbs (ntarget n)")
    case True
    then have "fst (advance h c [] False True (r\<lparr>remaining := []\<rparr>)) = Some ErrEscape"
      using Suc.prems link advance_at[OF mem _ _ pl(1) link(1), of "r\<lparr>remaining := []\<rparr>"] by (simp add: followLink_def Let_def)
    then show ?thesis using step cut pl(2) True by (auto split: prod.splits option.splits)
  next
    case False
    then have c: "ntarget n = c" using tgt by simp
    let ?r = "r\<lparr>remaining := c, rnode := dirNode, hops := hops r + 1\<rparr>"
    have "advance h c [] False True (r\<lparr>remaining := []\<rparr>) = (None, ?r)"
      using Suc.prems Suc.hyps(2) link mem dir advance_at[OF mem _ _ pl(1) link(1), of "r\<lparr>remaining := []\<rparr>"] False c
        plainD(2)[OF pl(2)] by (simp add: followLink_def Let_def)
    then have "resolveLoop h True r = resolveLoop h True ?r" using step cut pl(2) by simp
    moreover have "fst (resolveLoop h True ?r) = Inl (if isAbs (ntarget n) then ErrEscape else ErrLoop)"
      by (rule Suc.hyps(1)) (use Suc.prems Suc.hyps(2) in simp_all)
    ultimately show ?thesis by simp
  qed
qed



end
