(* ===== verification/TreeIndex.thy ===== *)
theory TreeIndex
  imports TreeFS
begin

text \<open>
  Correctness of the construction overlays of \<^verbatim>\<open>pkg/tree/builder.go\<close> over in-memory trees: the directory
  indexes that \<^verbatim>\<open>directory\<close>, \<^verbatim>\<open>put\<close>, \<^verbatim>\<open>AddFile\<close>, \<^verbatim>\<open>AddSymlink\<close> and \<^verbatim>\<open>RemoveAll\<close> maintain list exactly what a
  lookup finds, and the lower tree is never changed.

  \<open>addrOf\<close> is the address a lookup ends at; it does not depend on the heap. \<open>treeInv\<close> is the invariant; its
  first argument names the one path a directory may still list although it is gone, which happens between
  the two halves of \<^verbatim>\<open>RemoveAll\<close>. \<open>keeps\<close> is the frame condition: what an operation leaves alone.
\<close>

section \<open>Addresses\<close>

fun addrOf :: "view \<Rightarrow> string \<Rightarrow> nat option" where
  "addrOf (View ns low rm inp) name = (case map_of ns name of
     Some a \<Rightarrow> Some a
   | None \<Rightarrow> (case low of None \<Rightarrow> None
       | Some l \<Rightarrow> if masked (View ns low rm inp) name then None else addrOf l name))"

lemma lookup_addrOf:
  "inMemory t \<Longrightarrow> lookup h t name = (case addrOf t name of Some a \<Rightarrow> Inr (h ! a) | None \<Rightarrow> Inl ErrNotExist)"
  by (induction h t name rule: lookup.induct) (auto split: option.splits)

lemma masked_removed: "masked (View ns low rm inp) p = masked (View ns' low' rm inp') p"
  by (simp add: masked_def)

lemma dirChain_root [simp]: "dirChain ''.'' = [''.'']"
  by (subst dirChain.simps) simp

lemma dirChain_snoc:
  assumes "list_all plain (cs @ [c])"
  shows "dirChain (pathOf (cs @ [c])) = pathOf (cs @ [c]) # dirChain (pathOf cs)"
proof -
  have plain: "list_all plain cs" "plain c" using assms by simp_all
  have dir: "pathDir (pathOf (cs @ [c])) = pathOf cs" using pathDir_pathOf[OF assms] by simp
  have "pathOf (cs @ [c]) \<noteq> ''.''" using pathOf_eq_dot[OF assms] by simp
  moreover have "pathOf cs \<noteq> ''.'' \<Longrightarrow> length (pathOf cs) < length (pathOf (cs @ [c]))"
    by (simp add: pathOf_snoc pathOf_eq_dot[OF plain(1)])
  ultimately show ?thesis by (subst dirChain.simps) (auto simp: dir)
qed

lemma masked_pathOf:
  "list_all plain cs \<Longrightarrow> masked t (pathOf cs) \<longleftrightarrow> (\<exists>ds. prefix ds cs \<and> pathOf ds \<in> set (removed t))"
proof (induction cs rule: rev_induct)
  case Nil
  then show ?case by (simp add: masked_def pathOf_def)
next
  case (snoc c cs)
  then have "masked t (pathOf (cs @ [c])) \<longleftrightarrow> pathOf (cs @ [c]) \<in> set (removed t) \<or> masked t (pathOf cs)"
    by (simp add: masked_def dirChain_snoc)
  then show ?case using snoc by (auto simp: prefix_snoc)
qed

lemma addrOf_put:
  "gok (nodes t) \<Longrightarrow> addrOf (setNodes (gput p a (nodes t)) t) q = (if q = p then Some a else addrOf t q)"
  by (cases t) (simp add: setNodes_def map_of_gput masked_removed[of _ _ _ _ q "nodes t"] masked_def split: option.splits)

section \<open>The invariant\<close>

definition baseName :: "string list \<Rightarrow> string" where
  "baseName cs = (if cs = [] then ''.'' else last cs)"

text \<open>The entries of a directory at address \<open>a\<close> are exactly the visible children of the path \<open>cs\<close>, sorted.\<close>

definition listsChildren :: "string list option \<Rightarrow> heap \<Rightarrow> view \<Rightarrow> string list \<Rightarrow> nat \<Rightarrow> bool" where
  "listsChildren X h t cs a \<longleftrightarrow> (\<exists>xs. childrenOf (h ! a) = map NodeEntry xs \<and>
     sorted_wrt (<) (map (\<lambda>x. nname (h ! x)) xs) \<and>
     (\<forall>x \<in> set xs. x < length h \<and> plain (nname (h ! x)) \<and>
        (addrOf t (pathOf (cs @ [nname (h ! x)])) = Some x \<or> X = Some (cs @ [nname (h ! x)]))) \<and>
     (\<forall>c x. plain c \<longrightarrow> addrOf t (pathOf (cs @ [c])) = Some x \<longrightarrow> x \<in> set xs))"

definition treeInv :: "string list option \<Rightarrow> heap \<Rightarrow> view \<Rightarrow> bool" where
  "treeInv X h t \<longleftrightarrow> inMemory t \<and> gok (nodes t) \<and>
     (\<forall>p a. addrOf t p = Some a \<longrightarrow> (\<exists>cs. list_all plain cs \<and> p = pathOf cs \<and> a < length h \<and> nname (h ! a) = baseName cs \<and>
        nforeign (h ! a) = None)) \<and>
     (\<forall>p q a. addrOf t p = Some a \<longrightarrow> addrOf t q = Some a \<longrightarrow> p = q) \<and>
     (\<forall>cs c a. list_all plain (cs @ [c]) \<longrightarrow> addrOf t (pathOf (cs @ [c])) = Some a \<longrightarrow>
        (\<exists>d. addrOf t (pathOf cs) = Some d \<and> isDir (h ! d))) \<and>
     (\<forall>cs a. list_all plain cs \<longrightarrow> addrOf t (pathOf cs) = Some a \<longrightarrow> isDir (h ! a) \<longrightarrow> listsChildren X h t cs a)"

lemma treeInvD:
  assumes "treeInv X h t"
  shows "inMemory t" "gok (nodes t)"
    "addrOf t p = Some a \<Longrightarrow> \<exists>cs. list_all plain cs \<and> p = pathOf cs \<and> a < length h \<and> nname (h ! a) = baseName cs \<and> nforeign (h ! a) = None"
    "addrOf t p = Some a \<Longrightarrow> addrOf t q = Some a \<Longrightarrow> p = q"
    "list_all plain (cs @ [c]) \<Longrightarrow> addrOf t (pathOf (cs @ [c])) = Some a \<Longrightarrow> \<exists>d. addrOf t (pathOf cs) = Some d \<and> isDir (h ! d)"
    "list_all plain cs \<Longrightarrow> addrOf t (pathOf cs) = Some a \<Longrightarrow> isDir (h ! a) \<Longrightarrow> listsChildren X h t cs a"
  using assms unfolding treeInv_def by blast+

lemma treeInv_at:
  assumes "treeInv X h t" and "list_all plain cs" and "addrOf t (pathOf cs) = Some a"
  shows "a < length h" "nname (h ! a) = baseName cs" "nforeign (h ! a) = None"
proof -
  obtain ds where ds: "list_all plain ds" "pathOf cs = pathOf ds" "a < length h" "nname (h ! a) = baseName ds" "nforeign (h ! a) = None"
    using treeInvD(3)[OF assms(1,3)] by blast
  have "ds = cs" using pathOf_inject[OF assms(2) ds(1,2)] by simp
  with ds show "a < length h" "nname (h ! a) = baseName cs" "nforeign (h ! a) = None" by auto
qed

text \<open>The invariant reads the heap only at the addresses of the view and its entries, and only names, modes and children.\<close>

definition sameCore :: "node \<Rightarrow> node \<Rightarrow> bool" where
  "sameCore n m \<longleftrightarrow> nname n = nname m \<and> nmode n = nmode m \<and> ndata n = ndata m \<and> ntarget n = ntarget m \<and> nforeign n = nforeign m"

lemma sameCore_refl [simp]: "sameCore n n" and sameCore_children [simp]: "sameCore (n\<lparr>nchildren := es\<rparr>) n"
  by (simp_all add: sameCore_def)

lemma sameCore_isDir: "sameCore n m \<Longrightarrow> isDir n = isDir m"
  by (simp add: sameCore_def isDir_def)

lemma listsChildrenE:
  assumes "listsChildren X h t cs a"
  obtains xs where "childrenOf (h ! a) = map NodeEntry xs" "sorted_wrt (<) (map (\<lambda>x. nname (h ! x)) xs)"
    "\<forall>x \<in> set xs. x < length h \<and> plain (nname (h ! x)) \<and>
       (addrOf t (pathOf (cs @ [nname (h ! x)])) = Some x \<or> X = Some (cs @ [nname (h ! x)]))"
    "\<forall>c x. plain c \<longrightarrow> addrOf t (pathOf (cs @ [c])) = Some x \<longrightarrow> x \<in> set xs"
  using assms unfolding listsChildren_def by blast

lemma listsChildren_frame:
  assumes l: "listsChildren X h t cs a" and ch: "childrenOf (h' ! a') = childrenOf (h ! a)"
    and len: "length h \<le> length h'" and names: "\<forall>x < length h. nname (h' ! x) = nname (h ! x)"
    and same: "\<forall>c. plain c \<longrightarrow> addrOf t' (pathOf (cs @ [c])) = addrOf t (pathOf (cs @ [c]))"
  shows "listsChildren X h' t' cs a'"
proof -
  obtain xs where xs: "childrenOf (h ! a) = map NodeEntry xs" "sorted_wrt (<) (map (\<lambda>x. nname (h ! x)) xs)"
    "\<forall>x \<in> set xs. x < length h \<and> plain (nname (h ! x)) \<and>
       (addrOf t (pathOf (cs @ [nname (h ! x)])) = Some x \<or> X = Some (cs @ [nname (h ! x)]))"
    "\<forall>c x. plain c \<longrightarrow> addrOf t (pathOf (cs @ [c])) = Some x \<longrightarrow> x \<in> set xs"
    using l by (rule listsChildrenE)
  have eq: "nname (h' ! x) = nname (h ! x)" if "x \<in> set xs" for x using names xs(3) that by blast
  then have map: "map (\<lambda>x. nname (h' ! x)) xs = map (\<lambda>x. nname (h ! x)) xs" by simp
  show ?thesis
    unfolding listsChildren_def
  proof (intro exI[of _ xs] conjI)
    show "childrenOf (h' ! a') = map NodeEntry xs" using ch xs(1) by simp
    show "sorted_wrt (<) (map (\<lambda>x. nname (h' ! x)) xs)" using xs(2) by (simp only: map)
    show "\<forall>x \<in> set xs. x < length h' \<and> plain (nname (h' ! x)) \<and>
       (addrOf t' (pathOf (cs @ [nname (h' ! x)])) = Some x \<or> X = Some (cs @ [nname (h' ! x)]))"
      using xs(3) eq same len by fastforce
    show "\<forall>c x. plain c \<longrightarrow> addrOf t' (pathOf (cs @ [c])) = Some x \<longrightarrow> x \<in> set xs" using xs(4) same by metis
  qed
qed

text \<open>Another heap with the same nodes up to the children of directories that are listed anew.\<close>

lemma treeInv_heap:
  assumes inv: "treeInv X h t" and len: "length h \<le> length h'"
    and core: "\<forall>x < length h. sameCore (h' ! x) (h ! x)"
    and lists: "\<forall>cs a. list_all plain cs \<longrightarrow> addrOf t (pathOf cs) = Some a \<longrightarrow> isDir (h ! a) \<longrightarrow> listsChildren X h' t cs a"
  shows "treeInv X h' t"
proof -
  have dir: "isDir (h' ! x) = isDir (h ! x)" if "x < length h" for x using core that sameCore_isDir by blast
  show ?thesis
    unfolding treeInv_def
  proof (intro conjI allI impI)
    fix p a assume a: "addrOf t p = Some a"
    obtain cs where cs: "list_all plain cs" "p = pathOf cs" "a < length h" "nname (h ! a) = baseName cs" "nforeign (h ! a) = None"
      using treeInvD(3)[OF inv a] by blast
    then have "sameCore (h' ! a) (h ! a)" using core by blast
    then show "\<exists>cs. list_all plain cs \<and> p = pathOf cs \<and> a < length h' \<and> nname (h' ! a) = baseName cs \<and> nforeign (h' ! a) = None"
      using cs len by (intro exI[of _ cs]) (simp add: sameCore_def)
  next
    fix cs c a assume "list_all plain (cs @ [c])" "addrOf t (pathOf (cs @ [c])) = Some a"
    then obtain d where d: "addrOf t (pathOf cs) = Some d" "isDir (h ! d)" using treeInvD(5)[OF inv] by blast
    have "d < length h" using treeInvD(3)[OF inv d(1)] by blast
    then show "\<exists>d. addrOf t (pathOf cs) = Some d \<and> isDir (h' ! d)" using d dir by blast
  next
    fix cs a assume a: "list_all plain cs" "addrOf t (pathOf cs) = Some a" "isDir (h' ! a)"
    have "a < length h" using treeInv_at(1)[OF inv a(1,2)] .
    then show "listsChildren X h' t cs a" using lists a dir by blast
  qed (use inv in \<open>simp_all add: treeInvD(1,2) treeInvD(4)[OF inv]\<close>)
qed

lemma treeInv_alloc: "treeInv X h t \<Longrightarrow> treeInv X (h @ ns) t"
proof -
  assume inv: "treeInv X h t"
  have nth: "(h @ ns) ! a = h ! a" if "a < length h" for a using that by (simp add: nth_append)
  show ?thesis
  proof (rule treeInv_heap[OF inv])
    show "\<forall>cs a. list_all plain cs \<longrightarrow> addrOf t (pathOf cs) = Some a \<longrightarrow> isDir (h ! a) \<longrightarrow> listsChildren X (h @ ns) t cs a"
    proof (intro allI impI)
      fix cs a assume a: "list_all plain cs" "addrOf t (pathOf cs) = Some a" "isDir (h ! a)"
      have "a < length h" using treeInv_at(1)[OF inv a(1,2)] .
      then show "listsChildren X (h @ ns) t cs a"
        using listsChildren_frame[OF treeInvD(6)[OF inv a], of "h @ ns" a t] nth by simp
    qed
  qed (simp_all add: nth)
qed

section \<open>Directory entries\<close>

text \<open>Where the binary search stops in a sorted directory.\<close>

lemma searchEntry_sorted:
  assumes sorted: "sorted_wrt (<) (map (\<lambda>x. nname (h ! x)) xs)"
  shows "\<exists>i \<le> length xs. searchEntry h (map NodeEntry xs) c = (i, c \<in> (\<lambda>x. nname (h ! x)) ` set xs) \<and>
    (\<forall>x \<in> set (take i xs). nname (h ! x) < c) \<and> (\<forall>x \<in> set (drop i xs). c \<le> nname (h ! x)) \<and>
    (c \<in> (\<lambda>x. nname (h ! x)) ` set xs \<longrightarrow> i < length xs \<and> nname (h ! (xs ! i)) = c)"
proof -
  let ?nm = "\<lambda>x. nname (h ! x)" and ?es = "map NodeEntry xs"
  define f where "f = (\<lambda>k. \<not> cmp (entryName h (?es ! k)) c < 0)"
  define i where "i = searchFrom 0 (length ?es) f"
  have f: "f k \<longleftrightarrow> c \<le> ?nm (xs ! k)" if "k < length xs" for k using that by (auto simp: f_def)
  have mono: "?nm (xs ! a) \<le> ?nm (xs ! b)" if "a \<le> b" "b < length xs" for a b
    using sorted that by (cases "a = b") (auto simp: sorted_wrt_iff_nth_less intro!: less_imp_le)
  have up: "f b" if "a \<le> b" "b < length ?es" "f a" for a b
    using mono[OF that(1)] that f[of a] f[of b] by simp
  have at: "i \<le> length ?es \<and> (\<forall>a < i. \<not> f a) \<and> (\<forall>a. i \<le> a \<longrightarrow> a < length ?es \<longrightarrow> f a)"
    unfolding i_def by (rule searchFrom_least) (use up in auto)
  have left: "\<forall>x \<in> set (take i xs). ?nm x < c"
    using at f by (fastforce simp: in_set_conv_nth)
  have right: "\<forall>x \<in> set (drop i xs). c \<le> ?nm x"
    using at f by (auto simp: in_set_conv_nth)
  have found: "i < length xs \<and> ?nm (xs ! i) = c \<longleftrightarrow> c \<in> ?nm ` set xs"
  proof
    assume "c \<in> ?nm ` set xs"
    then obtain k where k: "k < length xs" "c = ?nm (xs ! k)" by (auto simp: in_set_conv_nth)
    have "\<not> k < i" using at k f[of k] by auto
    then have "i \<le> k" by simp
    then have "?nm (xs ! i) \<le> c" "i < length xs" using mono[of i k] k by simp_all
    moreover have "c \<le> ?nm (xs ! i)" using at f[of i] \<open>i < length xs\<close> by auto
    ultimately show "i < length xs \<and> ?nm (xs ! i) = c" by simp
  qed auto
  have "searchEntry h ?es c = (i, c \<in> ?nm ` set xs)"
    unfolding searchEntry_def Let_def f_def[symmetric] i_def[symmetric] using found by auto
  then show ?thesis using at left right found by (intro exI[of _ i]) auto
qed

lemma sorted_wrt_split:
  "sorted_wrt (<) (map f xs) \<Longrightarrow> sorted_wrt (<) (map f (take i xs)) \<and> sorted_wrt (<) (map f (drop i xs))"
  by (simp add: sorted_wrt_take sorted_wrt_drop take_map[symmetric] drop_map[symmetric])

lemma insertChild_sorted:
  assumes sorted: "sorted_wrt (<) (map (\<lambda>x. nname (h ! x)) xs)"
  shows "\<exists>ys. insertChild h a (map NodeEntry xs) = map NodeEntry ys \<and> sorted_wrt (<) (map (\<lambda>x. nname (h ! x)) ys) \<and>
    set ys = insert a {x \<in> set xs. nname (h ! x) \<noteq> nname (h ! a)}"
proof -
  let ?nm = "\<lambda>x. nname (h ! x)" and ?c = "nname (h ! a)"
  obtain i where i: "i \<le> length xs" "searchEntry h (map NodeEntry xs) ?c = (i, ?c \<in> ?nm ` set xs)"
      "\<forall>x \<in> set (take i xs). ?nm x < ?c" "\<forall>x \<in> set (drop i xs). ?c \<le> ?nm x"
      "?c \<in> ?nm ` set xs \<longrightarrow> i < length xs \<and> ?nm (xs ! i) = ?c"
    using searchEntry_sorted[OF sorted, of ?c] by blast
  have parts: "sorted_wrt (<) (map ?nm (take i xs))" "sorted_wrt (<) (map ?nm (drop i xs))"
    using sorted_wrt_split[OF sorted] by blast+
  have set: "set xs = set (take i xs) \<union> set (drop i xs)" by (metis append_take_drop_id set_append)
  show ?thesis
  proof (cases "?c \<in> ?nm ` set xs")
    case True
    then have at: "i < length xs" "?nm (xs ! i) = ?c" using i(5) by blast+
    have drop: "drop i xs = xs ! i # drop (Suc i) xs" using at(1) by (simp add: Cons_nth_drop_Suc)
    have less: "\<forall>x \<in> set (drop (Suc i) xs). ?c < ?nm x" using parts(2) drop at(2) by simp
    let ?ys = "take i xs @ a # drop (Suc i) xs"
    have "insertChild h a (map NodeEntry xs) = map NodeEntry ?ys"
      using True i(1,2) at(1) by (simp add: insertChild_def upd_conv_take_nth_drop take_map drop_map)
    moreover have "sorted_wrt (<) (map ?nm ?ys)"
      using parts drop i(3) less by (auto simp: sorted_wrt_append dest: less_trans)
    moreover have "set ?ys = insert a {x \<in> set xs. ?nm x \<noteq> ?c}"
      using set drop i(3) less at(2) by auto
    ultimately show ?thesis by blast
  next
    case False
    have less: "\<forall>x \<in> set (drop i xs). ?c < ?nm x" using i(4) False set by (metis UnI2 imageI order_le_less)
    have miss: "\<forall>x \<in> set (take i xs) \<union> set (drop i xs). ?nm x \<noteq> ?c" using False set by (metis imageI)
    let ?ys = "take i xs @ a # drop i xs"
    have "insertChild h a (map NodeEntry xs) = map NodeEntry ?ys"
      using False i(2) by (simp add: insertChild_def take_map drop_map)
    moreover have "sorted_wrt (<) (map ?nm ?ys)"
      using parts i(3) less by (auto simp: sorted_wrt_append dest: less_trans)
    moreover have "set ?ys = insert a {x \<in> set xs. ?nm x \<noteq> ?c}"
      using set miss by auto
    ultimately show ?thesis by blast
  qed
qed

lemma unlinkChild_sorted:
  assumes sorted: "sorted_wrt (<) (map (\<lambda>x. nname (bheap b ! x)) xs)" and ch: "childrenOf (bheap b ! par) = map NodeEntry xs"
    and par: "par < length (bheap b)"
  shows "\<exists>ys h. unlinkChild par c b = b\<lparr>bheap := h\<rparr> \<and> length h = length (bheap b) \<and> childrenOf (h ! par) = map NodeEntry ys \<and>
    (\<forall>x < length (bheap b). sameCore (h ! x) (bheap b ! x) \<and> (x \<noteq> par \<longrightarrow> h ! x = bheap b ! x)) \<and>
    sorted_wrt (<) (map (\<lambda>x. nname (bheap b ! x)) ys) \<and> set ys = {x \<in> set xs. nname (bheap b ! x) \<noteq> c}"
proof -
  let ?h = "bheap b" let ?nm = "\<lambda>x. nname (?h ! x)"
  obtain i where i: "i \<le> length xs" "searchEntry ?h (map NodeEntry xs) c = (i, c \<in> ?nm ` set xs)"
      "\<forall>x \<in> set (take i xs). ?nm x < c" "\<forall>x \<in> set (drop i xs). c \<le> ?nm x"
      "c \<in> ?nm ` set xs \<longrightarrow> i < length xs \<and> ?nm (xs ! i) = c"
    using searchEntry_sorted[OF sorted, of c] by blast
  have parts: "sorted_wrt (<) (map ?nm (take i xs))" "sorted_wrt (<) (map ?nm (drop i xs))"
    using sorted_wrt_split[OF sorted] by blast+
  have set: "set xs = set (take i xs) \<union> set (drop i xs)" by (metis append_take_drop_id set_append)
  show ?thesis
  proof (cases "c \<in> ?nm ` set xs")
    case True
    then have at: "i < length xs" "?nm (xs ! i) = c" using i(5) by blast+
    have drop: "drop i xs = xs ! i # drop (Suc i) xs" using at(1) by (simp add: Cons_nth_drop_Suc)
    have less: "\<forall>x \<in> set (drop (Suc i) xs). c < ?nm x" using parts(2) drop at(2) by simp
    let ?ys = "take i xs @ drop (Suc i) xs"
    let ?k = "?h[par := (?h ! par)\<lparr>nchildren := Some (map NodeEntry ?ys)\<rparr>]"
    have "unlinkChild par c b = b\<lparr>bheap := ?k\<rparr>"
      using True i(2) ch by (simp add: unlinkChild_def Let_def take_map drop_map)
    moreover have "sorted_wrt (<) (map ?nm ?ys)"
      using parts drop i(3) less by (auto simp: sorted_wrt_append dest: less_trans)
    moreover have "set ?ys = {x \<in> set xs. ?nm x \<noteq> c}"
      using set drop i(3) less at(2) by auto
    moreover have "childrenOf (?k ! par) = map NodeEntry ?ys" using par by (simp add: childrenOf_def)
    moreover have "\<forall>x < length ?h. sameCore (?k ! x) (?h ! x) \<and> (x \<noteq> par \<longrightarrow> ?k ! x = ?h ! x)"
      using par by (auto simp: nth_list_update sameCore_def)
    ultimately show ?thesis by (intro exI[of _ ?ys] exI[of _ ?k]) simp
  next
    case False
    then have "unlinkChild par c b = b\<lparr>bheap := ?h\<rparr>" using i(2) ch by (simp add: unlinkChild_def Let_def)
    moreover have "set xs = {x \<in> set xs. ?nm x \<noteq> c}" using False by auto
    ultimately show ?thesis using sorted ch by (intro exI[of _ xs] exI[of _ ?h]) simp
  qed
qed

section \<open>Binding a path\<close>

text \<open>
  One link of the chain that \<open>put\<close> builds: the node at a fresh address \<open>a\<close> becomes the entry \<open>c\<close> of the
  directory at \<open>par\<close> and the path is bound to it.
\<close>

definition bound :: "string \<Rightarrow> nat \<Rightarrow> view \<Rightarrow> view" where
  "bound p a t = setNodes (gput p a (nodes t)) t"

definition linked :: "nat \<Rightarrow> nat \<Rightarrow> heap \<Rightarrow> heap" where
  "linked par a h = h[par := (h ! par)\<lparr>nchildren := Some (insertChild h a (childrenOf (h ! par)))\<rparr>]"

lemma bindNode_linkChild: "bindNode p a (linkChild par a b) = b\<lparr>bheap := linked par a (bheap b), bview := bound p a (bview b)\<rparr>"
  by (simp add: bindNode_def linkChild_def linked_def bound_def Let_def)

lemma bound_simps [simp]: "lower (bound p a t) = lower t" "removed (bound p a t) = removed t" "input (bound p a t) = input t"
    "nodes (bound p a t) = gput p a (nodes t)"
  by (simp_all add: bound_def setNodes_def)

lemma inMemory_bound [simp]: "inMemory (bound p a t) = inMemory t"
  by (cases t) (simp add: bound_def setNodes_def)

lemma addrOf_bound: "gok (nodes t) \<Longrightarrow> addrOf (bound p a t) q = (if q = p then Some a else addrOf t q)"
  unfolding bound_def by (rule addrOf_put)

lemma linked_length [simp]: "length (linked par a h) = length h"
  by (simp add: linked_def)

lemma linked_nth: "x < length h \<Longrightarrow> x \<noteq> par \<Longrightarrow> linked par a h ! x = h ! x"
  by (simp add: linked_def)

lemma linked_core: "x < length h \<Longrightarrow> sameCore (linked par a h ! x) (h ! x)"
  by (cases "x = par") (simp_all add: linked_def)

lemma linked_names: "x < length h \<Longrightarrow> nname (linked par a h ! x) = nname (h ! x) \<and> isDir (linked par a h ! x) = isDir (h ! x)
    \<and> nforeign (linked par a h ! x) = nforeign (h ! x)"
  using linked_core[of x h par a] by (simp add: sameCore_def isDir_def)

lemma path_snoc_eq: "list_all plain (cs @ [c]) \<Longrightarrow> list_all plain (ds @ [d]) \<Longrightarrow>
    pathOf (ds @ [d]) = pathOf (cs @ [c]) \<longleftrightarrow> ds = cs \<and> d = c"
  using pathOf_inject[of "ds @ [d]" "cs @ [c]"] by auto

lemma attach_parent_lists:
  assumes inv: "treeInv X h t" and pl: "list_all plain (cs @ [c])" and par: "addrOf t (pathOf cs) = Some par" "isDir (h ! par)"
    and a: "a < length h" "nname (h ! a) = c"
  shows "listsChildren X (linked par a h) (bound (pathOf (cs @ [c])) a t) cs par"
proof -
  let ?A = "addrOf (bound (pathOf (cs @ [c])) a t)"
  have plcs: "list_all plain cs" and c: "plain c" using pl by simp_all
  have len: "par < length h" using treeInv_at(1)[OF inv plcs par(1)] .
  obtain xs where xs: "childrenOf (h ! par) = map NodeEntry xs" "sorted_wrt (<) (map (\<lambda>x. nname (h ! x)) xs)"
    "\<forall>x \<in> set xs. x < length h \<and> plain (nname (h ! x)) \<and>
       (addrOf t (pathOf (cs @ [nname (h ! x)])) = Some x \<or> X = Some (cs @ [nname (h ! x)]))"
    "\<forall>c x. plain c \<longrightarrow> addrOf t (pathOf (cs @ [c])) = Some x \<longrightarrow> x \<in> set xs"
    by (rule listsChildrenE[OF treeInvD(6)[OF inv plcs par]])
  obtain ys where ys: "insertChild h a (map NodeEntry xs) = map NodeEntry ys" "sorted_wrt (<) (map (\<lambda>x. nname (h ! x)) ys)"
      "set ys = insert a {x \<in> set xs. nname (h ! x) \<noteq> c}"
    using insertChild_sorted[OF xs(2), of a] a(2) by blast
  have A: "?A (pathOf (cs @ [d])) = (if d = c then Some a else addrOf t (pathOf (cs @ [d])))" if "plain d" for d
    using path_snoc_eq[OF pl, of cs d] that pl by (simp add: addrOf_bound[OF treeInvD(2)[OF inv]])
  have bounds: "\<forall>x \<in> set ys. x < length h" using ys(3) xs(3) a(1) by auto
  have map: "map (\<lambda>x. nname (linked par a h ! x)) ys = map (\<lambda>x. nname (h ! x)) ys"
    using bounds linked_names by simp
  show ?thesis
    unfolding listsChildren_def
  proof (intro exI[of _ ys] conjI)
    show "childrenOf (linked par a h ! par) = map NodeEntry ys" using len xs(1) ys(1) by (simp add: linked_def childrenOf_def)
    show "sorted_wrt (<) (map (\<lambda>x. nname (linked par a h ! x)) ys)" using ys(2) by (simp only: map)
    show "\<forall>x \<in> set ys. x < length (linked par a h) \<and> plain (nname (linked par a h ! x)) \<and>
       (?A (pathOf (cs @ [nname (linked par a h ! x)])) = Some x \<or> X = Some (cs @ [nname (linked par a h ! x)]))"
    proof
      fix x assume x: "x \<in> set ys"
      then have n: "x < length h" "nname (linked par a h ! x) = nname (h ! x)" using bounds linked_names by simp_all
      show "x < length (linked par a h) \<and> plain (nname (linked par a h ! x)) \<and>
         (?A (pathOf (cs @ [nname (linked par a h ! x)])) = Some x \<or> X = Some (cs @ [nname (linked par a h ! x)]))"
      proof (cases "x = a")
        case True
        then show ?thesis using n a c A by simp
      next
        case False
        then have "x \<in> set xs" "nname (h ! x) \<noteq> c" using x ys(3) by auto
        then show ?thesis using n xs(3) A by simp
      qed
    qed
    show "\<forall>d x. plain d \<longrightarrow> ?A (pathOf (cs @ [d])) = Some x \<longrightarrow> x \<in> set ys"
    proof (intro allI impI)
      fix d x assume d: "plain d" "?A (pathOf (cs @ [d])) = Some x"
      show "x \<in> set ys"
      proof (cases "d = c")
        case True
        then show ?thesis using d A ys(3) by simp
      next
        case False
        then have x: "addrOf t (pathOf (cs @ [d])) = Some x" using d A by simp
        then have "x \<in> set xs" using xs(4) d(1) by blast
        moreover have "nname (h ! x) = d" using treeInv_at(2)[OF inv _ x] plcs d(1) by (simp add: baseName_def)
        ultimately show ?thesis using ys(3) False by simp
      qed
    qed
  qed
qed

text \<open>What the node to be bound has to be: fresh, and a directory that lists what is visible below it, or nothing is.\<close>

definition readyNode :: "string list option \<Rightarrow> heap \<Rightarrow> view \<Rightarrow> string list \<Rightarrow> nat \<Rightarrow> bool" where
  "readyNode X h t cs a \<longleftrightarrow> a < length h \<and> nname (h ! a) = baseName cs \<and> nforeign (h ! a) = None \<and> (\<forall>q. addrOf t q \<noteq> Some a) \<and>
     (if isDir (h ! a) then listsChildren X h t cs a else \<forall>c. plain c \<longrightarrow> addrOf t (pathOf (cs @ [c])) = None)"

lemma treeInv_attach:
  assumes inv: "treeInv X h t" and pl: "list_all plain (cs @ [c])" and par: "addrOf t (pathOf cs) = Some par" "isDir (h ! par)"
    and ready: "readyNode X h t (cs @ [c]) a"
  shows "treeInv X (linked par a h) (bound (pathOf (cs @ [c])) a t)"
proof -
  let ?p = "pathOf (cs @ [c])" and ?h = "linked par a h"
  let ?t = "bound ?p a t"
  have A: "addrOf ?t q = (if q = ?p then Some a else addrOf t q)" for q by (rule addrOf_bound[OF treeInvD(2)[OF inv]])
  have a: "a < length h" "nname (h ! a) = c" "nforeign (h ! a) = None" "\<And>q. addrOf t q \<noteq> Some a"
    using ready by (auto simp: readyNode_def baseName_def)
  have plcs: "list_all plain cs" using pl by simp
  have apar: "a \<noteq> par" using a(4) par(1) by blast
  note names = linked_names[of _ h par a]
  have child: "addrOf ?t (pathOf (ds @ [d])) = addrOf t (pathOf (ds @ [d]))" if "ds \<noteq> cs" "list_all plain ds" "plain d" for ds d
    using that path_snoc_eq[OF pl, of ds d] by (simp add: A)
  show ?thesis
    unfolding treeInv_def
  proof (intro conjI allI impI)
    show "inMemory ?t" "gok (nodes ?t)" using inv by (simp_all add: treeInvD gok_gput)
    fix q x assume x: "addrOf ?t q = Some x"
    show "\<exists>cs. list_all plain cs \<and> q = pathOf cs \<and> x < length ?h \<and> nname (?h ! x) = baseName cs \<and> nforeign (?h ! x) = None"
    proof (cases "q = ?p")
      case True
      then show ?thesis using x A a names pl by (intro exI[of _ "cs @ [c]"]) (simp add: baseName_def)
    next
      case False
      then have "addrOf t q = Some x" using x A by simp
      from treeInvD(3)[OF inv this] show ?thesis using names by auto
    qed
    fix r assume "addrOf ?t r = Some x"
    then show "q = r" using x treeInvD(4)[OF inv, of q x r] a(4) unfolding A by (auto split: if_splits)
  next
    fix ds d x assume d: "list_all plain (ds @ [d])" "addrOf ?t (pathOf (ds @ [d])) = Some x"
    show "\<exists>y. addrOf ?t (pathOf ds) = Some y \<and> isDir (?h ! y)"
    proof (cases "pathOf ds = ?p")
      case True
      then have ds: "ds = cs @ [c]" using pathOf_inject[of ds "cs @ [c]"] d(1) pl by simp
      then have "addrOf t (pathOf (ds @ [d])) = Some x" using child[of ds d] d by simp
      then have "isDir (h ! a)" using ready d(1) unfolding readyNode_def ds by (auto split: if_splits)
      then show ?thesis using True A a(1) names by simp
    next
      case False
      have "\<exists>y. addrOf t (pathOf ds) = Some y \<and> isDir (h ! y)"
      proof (cases "pathOf (ds @ [d]) = ?p")
        case True
        then have "ds = cs" using path_snoc_eq[OF pl d(1)] by simp
        then show ?thesis using par by blast
      next
        case False
        then show ?thesis using treeInvD(5)[OF inv d(1)] d(2) A by simp
      qed
      then obtain y where y: "addrOf t (pathOf ds) = Some y" "isDir (h ! y)" by blast
      have "y < length h" using treeInvD(3)[OF inv y(1)] by blast
      then show ?thesis using False A y names by auto
    qed
  next
    fix ds x assume x: "list_all plain ds" "addrOf ?t (pathOf ds) = Some x" "isDir (?h ! x)"
    consider (new) "ds = cs @ [c]" "x = a" | (parent) "ds = cs" "x = par" | (other) "pathOf ds \<noteq> ?p" "ds \<noteq> cs" "addrOf t (pathOf ds) = Some x"
      using pathOf_inject[OF x(1) pl] x(2) A par(1) by (cases "pathOf ds = ?p"; cases "ds = cs") auto
    then show "listsChildren X ?h ?t ds x"
    proof cases
      case new
      then have l: "listsChildren X h t (cs @ [c]) a" using ready x(3) a(1) names by (auto simp: readyNode_def)
      have same: "\<forall>d. plain d \<longrightarrow> addrOf ?t (pathOf ((cs @ [c]) @ [d])) = addrOf t (pathOf ((cs @ [c]) @ [d]))"
        using child[of "cs @ [c]"] pl by simp
      show ?thesis
        unfolding new by (rule listsChildren_frame[OF l _ _ _ same]) (use a(1) apar names linked_nth in simp_all)
    next
      case parent
      then show ?thesis using attach_parent_lists[OF inv pl par a(1,2)] by simp
    next
      case other
      have len: "x < length h" and "x \<noteq> par"
        using treeInv_at(1)[OF inv x(1) other(3)] treeInvD(4)[OF inv other(3), of "pathOf cs"] par(1) pathOf_inject[OF x(1) plcs] other(2) by auto
      then have same: "?h ! x = h ! x" by (rule linked_nth)
      have l: "listsChildren X h t ds x" using treeInvD(6)[OF inv x(1) other(3)] x(3) same by simp
      have eq: "\<forall>d. plain d \<longrightarrow> addrOf ?t (pathOf (ds @ [d])) = addrOf t (pathOf (ds @ [d]))" using child other(2) x(1) by blast
      show ?thesis by (rule listsChildren_frame[OF l _ _ _ eq]) (use same names in simp_all)
    qed
  qed
qed

lemma treeInv_attach_root:
  assumes inv: "treeInv X h t" and ready: "readyNode X h t [] a" and dir: "isDir (h ! a)"
  shows "treeInv X h (bound ''.'' a t)"
proof -
  let ?t = "bound ''.'' a t"
  have A: "addrOf ?t q = (if q = ''.'' then Some a else addrOf t q)" for q by (rule addrOf_bound[OF treeInvD(2)[OF inv]])
  have a: "a < length h" "nname (h ! a) = baseName []" "nforeign (h ! a) = None" "\<And>q. addrOf t q \<noteq> Some a"
    using ready by (auto simp: readyNode_def)
  have root: "pathOf ds = ''.'' \<longleftrightarrow> ds = []" if "list_all plain ds" for ds using pathOf_eq_dot[OF that] .
  have child: "addrOf ?t (pathOf (ds @ [d])) = addrOf t (pathOf (ds @ [d]))" if "list_all plain (ds @ [d])" for ds d
    using root[OF that] by (simp add: A)
  have dot: "pathOf [] = ''.''" using root[of "[]"] by simp
  show ?thesis
    unfolding treeInv_def
  proof (intro conjI allI impI)
    show "inMemory ?t" "gok (nodes ?t)" using inv by (simp_all add: treeInvD gok_gput)
    fix q x assume x: "addrOf ?t q = Some x"
    show "\<exists>cs. list_all plain cs \<and> q = pathOf cs \<and> x < length h \<and> nname (h ! x) = baseName cs \<and> nforeign (h ! x) = None"
    proof (cases "q = ''.''")
      case True
      then show ?thesis using x A a dot by (intro exI[of _ "[]"]) simp
    next
      case False
      then show ?thesis using x A treeInvD(3)[OF inv, of q x] by simp
    qed
    fix r assume "addrOf ?t r = Some x"
    then show "q = r" using x treeInvD(4)[OF inv, of q x r] a(4) unfolding A by (auto split: if_splits)
  next
    fix ds d x assume d: "list_all plain (ds @ [d])" "addrOf ?t (pathOf (ds @ [d])) = Some x"
    then have "addrOf t (pathOf (ds @ [d])) = Some x" by (simp only: child)
    from treeInvD(5)[OF inv d(1) this] show "\<exists>y. addrOf ?t (pathOf ds) = Some y \<and> isDir (h ! y)"
      using dir A by (cases "pathOf ds = ''.''") simp_all
  next
    fix ds x assume x: "list_all plain ds" "addrOf ?t (pathOf ds) = Some x" "isDir (h ! x)"
    have eq: "\<forall>d. plain d \<longrightarrow> addrOf ?t (pathOf (ds @ [d])) = addrOf t (pathOf (ds @ [d]))" using child x(1) by simp
    have l: "listsChildren X h t ds x"
      using x A root[OF x(1)] ready treeInvD(6)[OF inv x(1)] by (cases "ds = []") (auto simp: readyNode_def)
    show "listsChildren X h ?t ds x" by (rule listsChildren_frame[OF l _ _ _ eq]) simp_all
  qed
qed

section \<open>Contents and frames\<close>

text \<open>What a path holds, apart from the index of a directory: mode, data and link target.\<close>

type_synonym nodeCore = "FileMode \<times> string \<times> string"

definition core :: "node \<Rightarrow> nodeCore" where
  "core n = (nmode n, ndata n, ntarget n)"

definition dirCore :: nodeCore where
  "dirCore = (ModeDir OR defaultDirectoryMode, [], [])"

definition contents :: "heap \<Rightarrow> view \<Rightarrow> string list \<Rightarrow> nodeCore option" where
  "contents h t cs = map_option (\<lambda>a. core (h ! a)) (addrOf t (pathOf cs))"

lemma sameCore_core: "sameCore n m \<Longrightarrow> core n = core m"
  by (simp add: sameCore_def core_def)

lemma core_children [simp]: "core (n\<lparr>nchildren := es\<rparr>) = core n"
  by (simp add: core_def)

text \<open>Nodes outside the upper layer stay as they are; nodes of the upper layer change their index only.\<close>

definition keeps :: "heap \<Rightarrow> view \<Rightarrow> heap \<Rightarrow> view \<Rightarrow> bool" where
  "keeps h t h' t' \<longleftrightarrow> lower t' = lower t \<and> removed t' = removed t \<and> length h \<le> length h' \<and>
     (\<forall>x < length h. sameCore (h' ! x) (h ! x) \<and> (x \<notin> ran (map_of (nodes t)) \<longrightarrow> h' ! x = h ! x)) \<and>
     (\<forall>q x. addrOf t' q = Some x \<longrightarrow> addrOf t q = Some x \<or> length h \<le> x) \<and>
     (\<forall>x \<in> ran (map_of (nodes t')). x \<in> ran (map_of (nodes t)) \<or> length h \<le> x)"

lemma keepsD:
  assumes "keeps h t h' t'"
  shows "lower t' = lower t" "removed t' = removed t" "length h \<le> length h'" "x < length h \<Longrightarrow> sameCore (h' ! x) (h ! x)"
    "x < length h \<Longrightarrow> x \<notin> ran (map_of (nodes t)) \<Longrightarrow> h' ! x = h ! x"
    "addrOf t' q = Some x \<Longrightarrow> addrOf t q = Some x \<or> length h \<le> x"
    "x \<in> ran (map_of (nodes t')) \<Longrightarrow> x \<in> ran (map_of (nodes t)) \<or> length h \<le> x"
  using assms unfolding keeps_def by blast+

lemma sameCore_trans: "sameCore a b \<Longrightarrow> sameCore b c \<Longrightarrow> sameCore a c"
  by (simp add: sameCore_def)

lemma keeps_alloc: "keeps h t (h @ ns) t"
  by (auto simp: keeps_def nth_append)

lemma keeps_trans:
  assumes k: "keeps h t h1 t1" and l: "keeps h1 t1 h2 t2"
  shows "keeps h t h2 t2"
  unfolding keeps_def
proof (intro conjI allI impI ballI)
  fix x assume x: "x < length h"
  then have x1: "x < length h1" using keepsD(3)[OF k] by simp
  show "sameCore (h2 ! x) (h ! x)" using sameCore_trans[OF keepsD(4)[OF l x1] keepsD(4)[OF k x]] .
  assume out: "x \<notin> ran (map_of (nodes t))"
  then have "x \<notin> ran (map_of (nodes t1))" using keepsD(7)[OF k, of x] x by auto
  then show "h2 ! x = h ! x" using keepsD(5)[OF k x out] keepsD(5)[OF l x1] by simp
next
  fix q x assume "addrOf t2 q = Some x"
  then show "addrOf t q = Some x \<or> length h \<le> x" using keepsD(6)[OF l] keepsD(6)[OF k] keepsD(3)[OF k] by fastforce
next
  fix x assume "x \<in> ran (map_of (nodes t2))"
  then show "x \<in> ran (map_of (nodes t)) \<or> length h \<le> x" using keepsD(7)[OF l] keepsD(7)[OF k] keepsD(3)[OF k] by fastforce
qed (use keepsD[OF k] keepsD[OF l] in simp_all)

lemma ran_gput: "gok m \<Longrightarrow> x \<in> ran (map_of (gput p a m)) \<Longrightarrow> x = a \<or> x \<in> ran (map_of m)"
  by (auto simp: ran_def map_of_gput split: if_splits)

lemma keeps_bound:
  assumes k: "keeps h t h1 t1" and gok: "gok (nodes t1)" and a: "length h \<le> a"
  shows "keeps h t h1 (bound p a t1)"
  unfolding keeps_def
proof (intro conjI allI impI ballI)
  fix q x assume "addrOf (bound p a t1) q = Some x"
  then show "addrOf t q = Some x \<or> length h \<le> x"
    using a keepsD(6)[OF k, of q x] unfolding addrOf_bound[OF gok] by (auto split: if_splits)
next
  fix x assume "x \<in> ran (map_of (nodes (bound p a t1)))"
  then show "x \<in> ran (map_of (nodes t)) \<or> length h \<le> x"
    using ran_gput[OF gok, of x p a] keepsD(7)[OF k, of x] a by auto
qed (use keepsD[OF k] in simp_all)

lemma keeps_linked:
  assumes k: "keeps h t h1 t1" and par: "par \<in> ran (map_of (nodes t1))"
  shows "keeps h t (linked par a h1) t1"
proof -
  have "keeps h1 t1 (linked par a h1) t1"
    using par unfolding keeps_def by (auto simp: linked_core intro!: linked_nth)
  with k show ?thesis by (rule keeps_trans)
qed

lemma contents_keeps:
  assumes "keeps h t h' t'" and "treeInv X h t" and "addrOf t' (pathOf cs) = addrOf t (pathOf cs)"
  shows "contents h' t' cs = contents h t cs"
proof (cases "addrOf t (pathOf cs)")
  case (Some a)
  then have "a < length h" using treeInvD(3)[OF assms(2)] by blast
  then show ?thesis using Some assms(3) sameCore_core[OF keepsD(4)[OF assms(1)]] by (simp add: contents_def)
qed (use assms(3) in \<open>simp add: contents_def\<close>)

section \<open>Parent directories\<close>

definition conflictFree :: "heap \<Rightarrow> view \<Rightarrow> string list \<Rightarrow> bool" where
  "conflictFree h t cs \<longleftrightarrow> (\<forall>ds a. prefix ds cs \<longrightarrow> addrOf t (pathOf ds) = Some a \<longrightarrow> isDir (h ! a))"

lemma conflictFree_snoc:
  "conflictFree h t (cs @ [c]) \<longleftrightarrow> conflictFree h t cs \<and> (\<forall>a. addrOf t (pathOf (cs @ [c])) = Some a \<longrightarrow> isDir (h ! a))"
  by (auto simp: conflictFree_def prefix_snoc)

lemma conflictFree_visible:
  assumes "treeInv X h t" and "list_all plain cs" and "addrOf t (pathOf cs) = Some a" and "isDir (h ! a)"
  shows "conflictFree h t cs"
  using assms(2-)
proof (induction cs arbitrary: a rule: rev_induct)
  case Nil
  then show ?case by (simp add: conflictFree_def)
next
  case (snoc c cs)
  obtain d where "addrOf t (pathOf cs) = Some d" "isDir (h ! d)" using treeInvD(5)[OF assms(1) snoc.prems(1,2)] by blast
  then show ?case using snoc by (simp add: conflictFree_snoc)
qed

lemma conflictFree_cong:
  assumes "treeInv X h t" and "length h \<le> length h'" and "\<forall>x < length h. isDir (h' ! x) = isDir (h ! x)"
  shows "conflictFree h' t cs = conflictFree h t cs"
proof -
  have "isDir (h' ! a) = isDir (h ! a)" if "addrOf t q = Some a" for q a
    using treeInvD(3)[OF assms(1) that] assms(3) by blast
  then show ?thesis unfolding conflictFree_def by blast
qed

lemma isDir_plain [simp]: "isDir (plainNode name (ModeDir OR defaultDirectoryMode))"
  by (simp add: isDir_def plainNode_def ModeDir_def defaultDirectoryMode_def)

lemma pathBase_baseName: "list_all plain cs \<Longrightarrow> pathBase (pathOf cs) = baseName cs"
  by (cases cs rule: rev_cases) (simp_all add: baseName_def pathBase_pathOf pathOf_eq_dot[of "[]", THEN iffD2])

lemma lookup_view:
  assumes "treeInv X h t"
  shows "lookup h t q = (case addrOf t q of Some a \<Rightarrow> Inr (h ! a) | None \<Rightarrow> Inl ErrNotExist)"
  using lookup_addrOf[OF treeInvD(1)[OF assms]] .

text \<open>The node \<open>directory\<close> makes for a path that is not in the upper layer: a copy of the lower directory, or a new one.\<close>

lemma madeDirectory_ready:
  assumes inv: "treeInv X (bheap b) (bview b)" and pl: "list_all plain cs" and free: "conflictFree (bheap b) (bview b) cs"
  obtains n where "madeDirectory b (pathOf cs) = Inr n" "isDir n" "nname n = baseName cs" "nforeign n = None"
    "core n = (case contents (bheap b) (bview b) cs of Some k \<Rightarrow> k | None \<Rightarrow> dirCore)"
    "\<forall>h' t' a. h' ! a = n \<longrightarrow> length (bheap b) \<le> length h' \<longrightarrow> (\<forall>x < length (bheap b). nname (h' ! x) = nname (bheap b ! x)) \<longrightarrow>
      (\<forall>c. plain c \<longrightarrow> addrOf t' (pathOf (cs @ [c])) = addrOf (bview b) (pathOf (cs @ [c]))) \<longrightarrow> listsChildren X h' t' cs a"
proof (cases "addrOf (bview b) (pathOf cs)")
  case (Some d)
  let ?h = "bheap b"
  have dir: "isDir (?h ! d)" using free Some by (auto simp: conflictFree_def)
  note at = treeInv_at[OF inv pl Some]
  show ?thesis
  proof (rule that[of "?h ! d"])
    show "madeDirectory b (pathOf cs) = Inr (?h ! d)"
      using Some dir at by (simp add: madeDirectory_def lookup_view[OF inv] copyDirectory_def)
    show "core (?h ! d) = (case contents ?h (bview b) cs of Some k \<Rightarrow> k | None \<Rightarrow> dirCore)" using Some by (simp add: contents_def)
    show "\<forall>h' t' a. h' ! a = ?h ! d \<longrightarrow> length ?h \<le> length h' \<longrightarrow> (\<forall>x < length ?h. nname (h' ! x) = nname (?h ! x)) \<longrightarrow>
      (\<forall>c. plain c \<longrightarrow> addrOf t' (pathOf (cs @ [c])) = addrOf (bview b) (pathOf (cs @ [c]))) \<longrightarrow> listsChildren X h' t' cs a"
      using listsChildren_frame[OF treeInvD(6)[OF inv pl Some dir]] by metis
  qed (use dir at in simp_all)
next
  case None
  have gone: "addrOf (bview b) (pathOf (cs @ [c])) = None" if "plain c" for c
    using treeInvD(5)[OF inv, of cs c] pl that None by (cases "addrOf (bview b) (pathOf (cs @ [c]))") auto
  show ?thesis
  proof (rule that[of "plainNode (pathBase (pathOf cs)) (ModeDir OR defaultDirectoryMode)"])
    show "madeDirectory b (pathOf cs) = Inr (plainNode (pathBase (pathOf cs)) (ModeDir OR defaultDirectoryMode))"
      using None by (simp add: madeDirectory_def lookup_view[OF inv])
    show "\<forall>h' t' a. h' ! a = plainNode (pathBase (pathOf cs)) (ModeDir OR defaultDirectoryMode) \<longrightarrow> length (bheap b) \<le> length h' \<longrightarrow>
      (\<forall>x < length (bheap b). nname (h' ! x) = nname (bheap b ! x)) \<longrightarrow>
      (\<forall>c. plain c \<longrightarrow> addrOf t' (pathOf (cs @ [c])) = addrOf (bview b) (pathOf (cs @ [c]))) \<longrightarrow> listsChildren X h' t' cs a"
      using gone by (auto simp: listsChildren_def childrenOf_def plainNode_def)
  qed (use None pl in \<open>simp_all add: plainNode_def pathBase_baseName core_def dirCore_def contents_def\<close>,
       simp add: isDir_def ModeDir_def defaultDirectoryMode_def)
qed

text \<open>
  The effect on contents: \<open>mkdirs\<close> makes the directories down to a path that are missing, \<open>grow\<close> also stores
  a node at the path itself.
\<close>

definition mkdirs :: "string list \<Rightarrow> (string list \<Rightarrow> nodeCore option) \<Rightarrow> string list \<Rightarrow> nodeCore option" where
  "mkdirs cs m ds = (if prefix ds cs \<and> m ds = None then Some dirCore else m ds)"

definition grow :: "string list \<Rightarrow> nodeCore \<Rightarrow> (string list \<Rightarrow> nodeCore option) \<Rightarrow> string list \<Rightarrow> nodeCore option" where
  "grow cs k m = (mkdirs cs m)(cs \<mapsto> k)"

definition madeDirs :: "string list option \<Rightarrow> string list \<Rightarrow> builder \<Rightarrow> builder \<Rightarrow> nat \<Rightarrow> bool" where
  "madeDirs X cs b b' par \<longleftrightarrow> treeInv X (bheap b') (bview b') \<and> keeps (bheap b) (bview b) (bheap b') (bview b') \<and> sealed b' = sealed b \<and>
     map_of (nodes (bview b')) (pathOf cs) = Some par \<and> isDir (bheap b' ! par) \<and>
     (\<forall>ds. list_all plain ds \<longrightarrow> \<not> prefix ds cs \<longrightarrow> addrOf (bview b') (pathOf ds) = addrOf (bview b) (pathOf ds)) \<and>
     (\<forall>ds. list_all plain ds \<longrightarrow> contents (bheap b') (bview b') ds = mkdirs cs (contents (bheap b) (bview b)) ds)"

definition placed :: "string list option \<Rightarrow> string list \<Rightarrow> node \<Rightarrow> builder \<Rightarrow> builder \<Rightarrow> bool" where
  "placed X cs n b b' \<longleftrightarrow> treeInv X (bheap b') (bview b') \<and> keeps (bheap b) (bview b) (bheap b') (bview b') \<and> sealed b' = sealed b \<and>
     map_of (nodes (bview b')) (pathOf cs) = Some (length (bheap b)) \<and> bheap b' ! length (bheap b) = n \<and>
     (\<forall>ds. list_all plain ds \<longrightarrow> \<not> prefix ds cs \<longrightarrow> addrOf (bview b') (pathOf ds) = addrOf (bview b) (pathOf ds)) \<and>
     (\<forall>ds. list_all plain ds \<longrightarrow> contents (bheap b') (bview b') ds = grow cs (core n) (contents (bheap b) (bview b)) ds)"

text \<open>What \<open>put\<close> needs of the node: the right name, and an index of (or nothing at) what is visible below the path.\<close>

definition putable :: "string list option \<Rightarrow> string list \<Rightarrow> node \<Rightarrow> builder \<Rightarrow> bool" where
  "putable X cs n b \<longleftrightarrow> nname n = baseName cs \<and> nforeign n = None \<and>
     (if isDir n then \<forall>h' t' a. h' ! a = n \<longrightarrow> length (bheap b) \<le> length h' \<longrightarrow>
        (\<forall>x < length (bheap b). nname (h' ! x) = nname (bheap b ! x)) \<longrightarrow>
        (\<forall>c. plain c \<longrightarrow> addrOf t' (pathOf (cs @ [c])) = addrOf (bview b) (pathOf (cs @ [c]))) \<longrightarrow> listsChildren X h' t' cs a
      else \<forall>c. plain c \<longrightarrow> addrOf (bview b) (pathOf (cs @ [c])) = None)"

lemma addrOf_nodes: "map_of (nodes t) q = Some a \<Longrightarrow> addrOf t q = Some a"
  by (cases t) simp

lemma alloc_simps [simp]: "bheap (alloc n b) = bheap b @ [n]" "bview (alloc n b) = bview b" "sealed (alloc n b) = sealed b"
  by (simp_all add: alloc_def)

lemma contents_alloc: "treeInv X h t \<Longrightarrow> contents (h @ ns) t ds = contents h t ds"
  by (rule contents_keeps[OF keeps_alloc]) simp_all

lemma readyNode_placed:
  assumes inv: "treeInv X (bheap b) (bview b)" and put: "putable X cs n b" and k: "keeps (bheap b @ [n]) (bview b) h t"
    and same: "\<forall>c. plain c \<longrightarrow> addrOf t (pathOf (cs @ [c])) = addrOf (bview b) (pathOf (cs @ [c]))"
  shows "h ! length (bheap b) = n \<and> readyNode X h t cs (length (bheap b))"
proof -
  let ?a = "length (bheap b)"
  have un: "addrOf (bview b) q \<noteq> Some ?a" for q using treeInvD(3)[OF inv, of q ?a] by auto
  have "?a \<notin> ran (map_of (nodes (bview b)))"
  proof
    assume "?a \<in> ran (map_of (nodes (bview b)))"
    then obtain q where "map_of (nodes (bview b)) q = Some ?a" unfolding ran_def by blast
    from addrOf_nodes[OF this] show False using un by blast
  qed
  then have n: "h ! ?a = n" using keepsD(5)[OF k, of ?a] by (simp add: nth_append)
  have len: "length (bheap b @ [n]) \<le> length h" using keepsD(3)[OF k] .
  have "nname (h ! x) = nname (bheap b ! x)" if "x < length (bheap b)" for x
    using keepsD(4)[OF k, of x] that by (simp add: sameCore_def nth_append)
  moreover have "addrOf t q \<noteq> Some ?a" for q using keepsD(6)[OF k, of q ?a] un by auto
  moreover have "if isDir n then listsChildren X h t cs ?a else \<forall>c. plain c \<longrightarrow> addrOf t (pathOf (cs @ [c])) = None"
  proof (cases "isDir n")
    case True
    then show ?thesis using put n len same \<open>\<And>x. x < length (bheap b) \<Longrightarrow> nname (h ! x) = nname (bheap b ! x)\<close> unfolding putable_def by simp
  next
    case False
    then show ?thesis using put same unfolding putable_def by simp
  qed
  ultimately show ?thesis using n put len unfolding readyNode_def putable_def by simp
qed

lemma put_below:
  assumes inv: "treeInv X (bheap b) (bview b)" and pl: "list_all plain (cs @ [c])" and ok: "putable X (cs @ [c]) n b"
    and dirs: "directory (dirChain (pathOf cs)) (alloc n b) = (b', Inr par)" "madeDirs X cs (alloc n b) b' par"
  shows "\<exists>b''. put (pathOf (cs @ [c])) (dirChain (pathOf cs)) (length (bheap b)) (alloc n b) = (b'', None) \<and> placed X (cs @ [c]) n b b''"
proof -
  let ?a = "length (bheap b)" and ?p = "pathOf (cs @ [c])"
  define b'' where "b'' = bindNode ?p ?a (linkChild par ?a b')"
  have b'': "bheap b'' = linked par ?a (bheap b')" "bview b'' = bound ?p ?a (bview b')" "sealed b'' = sealed b'"
    unfolding b''_def bindNode_linkChild by simp_all
  have inv': "treeInv X (bheap b') (bview b')" and k: "keeps (bheap b @ [n]) (bview b) (bheap b') (bview b')"
    and par: "map_of (nodes (bview b')) (pathOf cs) = Some par" "isDir (bheap b' ! par)"
    and addr: "\<And>ds. list_all plain ds \<Longrightarrow> \<not> prefix ds cs \<Longrightarrow> addrOf (bview b') (pathOf ds) = addrOf (bview b) (pathOf ds)"
    and cont: "\<And>ds. list_all plain ds \<Longrightarrow> contents (bheap b') (bview b') ds = mkdirs cs (contents (bheap b @ [n]) (bview b)) ds"
    using dirs(2) unfolding madeDirs_def alloc_simps by blast+
  have parA: "addrOf (bview b') (pathOf cs) = Some par" using addrOf_nodes[OF par(1)] .
  have "\<forall>d. plain d \<longrightarrow> addrOf (bview b') (pathOf ((cs @ [c]) @ [d])) = addrOf (bview b) (pathOf ((cs @ [c]) @ [d]))"
    using addr[of "(cs @ [c]) @ [_]"] pl by (auto dest: prefix_length_le)
  note ready = readyNode_placed[OF inv ok k this]
  have inv'': "treeInv X (bheap b'') (bview b'')" unfolding b'' using treeInv_attach[OF inv' pl parA par(2)] ready by blast
  have A: "addrOf (bview b'') q = (if q = ?p then Some ?a else addrOf (bview b') q)" for q
    unfolding b'' by (rule addrOf_bound[OF treeInvD(2)[OF inv']])
  have "keeps (bheap b) (bview b) (bheap b'') (bview b'')"
    unfolding b'' by (rule keeps_bound[OF keeps_linked[OF keeps_trans[OF keeps_alloc k]]])
      (use par(1) treeInvD(2)[OF inv'] in \<open>auto intro: ranI\<close>)
  moreover have len: "?a < length (bheap b')" using ready by (simp add: readyNode_def)
  have "?a \<noteq> par" using ready parA by (auto simp: readyNode_def)
  then have "bheap b'' ! ?a = n" unfolding b'' using ready len by (simp add: linked_nth)
  moreover have "map_of (nodes (bview b'')) ?p = Some ?a" unfolding b'' by (simp add: map_of_gput[OF treeInvD(2)[OF inv']])
  moreover have "contents (bheap b'') (bview b'') ds = grow (cs @ [c]) (core n) (contents (bheap b) (bview b)) ds" if "list_all plain ds" for ds
  proof (cases "ds = cs @ [c]")
    case True
    then show ?thesis using A \<open>bheap b'' ! ?a = n\<close> by (simp add: contents_def grow_def)
  next
    case False
    then have "pathOf ds \<noteq> ?p" using pathOf_inject[OF that pl] by blast
    then have "contents (bheap b'') (bview b'') ds = contents (bheap b'') (bview b') ds" by (simp add: contents_def A)
    also have "\<dots> = contents (bheap b') (bview b') ds"
    proof (rule contents_keeps[OF _ inv' refl])
      show "keeps (bheap b') (bview b') (bheap b'') (bview b')"
        unfolding b'' by (rule keeps_linked[OF keeps_alloc[where ns = "[]", simplified]]) (use par(1) in \<open>auto intro: ranI\<close>)
    qed
    finally show ?thesis using cont[OF that] False by (simp add: contents_alloc[OF inv] grow_def mkdirs_def prefix_snoc)
  qed
  moreover have "addrOf (bview b'') (pathOf ds) = addrOf (bview b) (pathOf ds)" if "list_all plain ds" "\<not> prefix ds (cs @ [c])" for ds
    using that addr[of ds] pathOf_inject[OF that(1) pl] by (auto simp: A prefix_snoc)
  ultimately have "placed X (cs @ [c]) n b b''"
    using inv'' dirs(2) b''(3) unfolding placed_def madeDirs_def by simp
  moreover have "?p \<noteq> ''.''" using pathOf_eq_dot[OF pl] by simp
  ultimately show ?thesis using dirs(1) by (simp add: b''_def)
qed

lemma visible_prefix:
  assumes "treeInv X h t" and "list_all plain cs" and "addrOf t (pathOf cs) \<noteq> None" and "prefix ds cs"
  shows "addrOf t (pathOf ds) \<noteq> None"
  using assms(2-)
proof (induction cs rule: rev_induct)
  case (snoc c cs)
  then obtain a where "addrOf t (pathOf (cs @ [c])) = Some a" by blast
  then have "addrOf t (pathOf cs) \<noteq> None" using treeInvD(5)[OF assms(1) snoc.prems(1)] by blast
  then show ?case using snoc by (auto simp: prefix_snoc)
qed simp

lemma madeDirs_present:
  assumes inv: "treeInv X (bheap b) (bview b)" and pl: "list_all plain cs"
    and a: "map_of (nodes (bview b)) (pathOf cs) = Some a" "isDir (bheap b ! a)"
  shows "madeDirs X cs b b a"
proof -
  have "contents (bheap b) (bview b) ds \<noteq> None" if "prefix ds cs" for ds
    using visible_prefix[OF inv pl _ that] addrOf_nodes[OF a(1)] by (simp add: contents_def)
  then have "mkdirs cs (contents (bheap b) (bview b)) ds = contents (bheap b) (bview b) ds" for ds by (simp add: mkdirs_def)
  moreover have "keeps (bheap b) (bview b) (bheap b) (bview b)" using keeps_alloc[where ns = "[]"] by simp
  ultimately show ?thesis using inv a by (simp add: madeDirs_def)
qed

lemma placed_madeDirs:
  assumes inv: "treeInv X (bheap b) (bview b)" and pl: "list_all plain cs" and dir: "isDir n" and p: "placed X cs n b b'"
    and core: "core n = (case contents (bheap b) (bview b) cs of Some k \<Rightarrow> k | None \<Rightarrow> dirCore)"
  shows "madeDirs X cs b b' (length (bheap b))"
proof -
  have "grow cs (core n) m = mkdirs cs m" if "core n = (case m cs of Some k \<Rightarrow> k | None \<Rightarrow> dirCore)" for m
    using that by (auto simp: grow_def mkdirs_def split: option.splits)
  then show ?thesis using p dir core unfolding placed_def madeDirs_def by simp
qed

lemma inMemory_recall: "inMemory (bview b) \<Longrightarrow> b\<lparr>bview := remember (bheap b) (bview b) name\<rparr> = b"
  by simp

lemma put_root:
  assumes inv: "treeInv X (bheap b) (bview b)" and ok: "putable X [] n b" and dir: "isDir n"
  shows "\<exists>b'. put ''.'' ps (length (bheap b)) (alloc n b) = (b', None) \<and> placed X [] n b b'"
proof -
  let ?a = "length (bheap b)"
  define b' where "b' = bindNode ''.'' ?a (alloc n b)"
  have b': "bheap b' = bheap b @ [n]" "bview b' = bound ''.'' ?a (bview b)" "sealed b' = sealed b"
    by (simp_all add: b'_def bindNode_def bound_def)
  have dot: "pathOf [] = ''.''" using pathOf_eq_dot[of "[]"] by simp
  have inv1: "treeInv X (bheap b @ [n]) (bview b)" using treeInv_alloc[OF inv] .
  have k: "keeps (bheap b @ [n]) (bview b) (bheap b @ [n]) (bview b)" using keeps_alloc[where ns = "[]"] by simp
  have ready: "readyNode X (bheap b @ [n]) (bview b) [] ?a" using readyNode_placed[OF inv ok k] by simp
  have A: "addrOf (bview b') q = (if q = ''.'' then Some ?a else addrOf (bview b) q)" for q
    unfolding b' by (rule addrOf_bound[OF treeInvD(2)[OF inv]])
  have "treeInv X (bheap b') (bview b')" unfolding b' by (rule treeInv_attach_root[OF inv1 ready]) (simp add: dir)
  moreover have "keeps (bheap b) (bview b) (bheap b') (bview b')"
    unfolding b' by (rule keeps_bound[OF keeps_alloc treeInvD(2)[OF inv]]) simp
  moreover have "contents (bheap b') (bview b') ds = grow [] (core n) (contents (bheap b) (bview b)) ds" if "list_all plain ds" for ds
    using pathOf_eq_dot[OF that] contents_alloc[OF inv, of "[n]" ds]
    by (cases "ds = []") (simp_all add: contents_def A grow_def mkdirs_def dot, simp_all add: b')
  moreover have "addrOf (bview b') (pathOf ds) = addrOf (bview b) (pathOf ds)" if "list_all plain ds" "\<not> prefix ds []" for ds
    using that pathOf_eq_dot[OF that(1)] by (simp add: A)
  moreover have "map_of (nodes (bview b')) (pathOf []) = Some ?a" "bheap b' ! ?a = n"
    unfolding dot by (simp_all add: b' map_of_gput[OF treeInvD(2)[OF inv]])
  ultimately have "placed X [] n b b'" using b'(3) unfolding placed_def by blast
  then show ?thesis by (simp add: b'_def)
qed

lemma directory_made:
  assumes "treeInv X (bheap b) (bview b)" and "list_all plain cs" and "conflictFree (bheap b) (bview b) cs"
  shows "\<exists>b' par. directory (dirChain (pathOf cs)) b = (b', Inr par) \<and> madeDirs X cs b b' par"
  using assms
proof (induction cs arbitrary: b rule: rev_induct)
  case Nil
  have dot: "pathOf [] = ''.''" using pathOf_eq_dot[of "[]"] by simp
  show ?case
  proof (cases "map_of (nodes (bview b)) (pathOf [])")
    case (Some a)
    then have dir: "isDir (bheap b ! a)" using Nil(3) addrOf_nodes[OF Some] by (auto simp: conflictFree_def)
    then show ?thesis using Some madeDirs_present[OF Nil(1) _ Some dir] by (simp add: dot)
  next
    case None
    obtain n where n: "madeDirectory b (pathOf []) = Inr n" "isDir n" "nname n = baseName []" "nforeign n = None"
      "core n = (case contents (bheap b) (bview b) [] of Some k \<Rightarrow> k | None \<Rightarrow> dirCore)" and ok: "putable X [] n b"
      by (rule madeDirectory_ready[OF Nil]) (simp_all add: putable_def)
    obtain b' where b': "put ''.'' [] (length (bheap b)) (alloc n b) = (b', None)" "placed X [] n b b'"
      using put_root[OF Nil(1) ok n(2)] by blast
    have "directory (dirChain (pathOf [])) b = (b', Inr (length (bheap b)))"
      using None n(1) b'(1) treeInvD(1)[OF Nil(1)] by (simp add: dot Let_def)
    then show ?thesis using placed_madeDirs[OF Nil(1,2) n(2) b'(2) n(5)] by blast
  qed
next
  case (snoc c cs)
  let ?p = "pathOf (cs @ [c])"
  note inv = snoc.prems(1) and pl = snoc.prems(2)
  show ?case
  proof (cases "map_of (nodes (bview b)) ?p")
    case (Some a)
    then have dir: "isDir (bheap b ! a)" using snoc.prems(3) addrOf_nodes[OF Some] by (auto simp: conflictFree_def)
    then show ?thesis using Some madeDirs_present[OF inv pl Some dir] by (simp add: dirChain_snoc[OF pl])
  next
    case None
    obtain n where n: "madeDirectory b ?p = Inr n" "isDir n" "nname n = baseName (cs @ [c])" "nforeign n = None"
      "core n = (case contents (bheap b) (bview b) (cs @ [c]) of Some k \<Rightarrow> k | None \<Rightarrow> dirCore)" and ok: "putable X (cs @ [c]) n b"
      by (rule madeDirectory_ready[OF snoc.prems]) (simp_all add: putable_def)
    have "conflictFree (bheap b @ [n]) (bview b) cs"
      using snoc.prems(3) conflictFree_cong[OF inv, of "bheap b @ [n]" cs] by (simp add: conflictFree_snoc nth_append)
    then obtain b1 par where b1: "directory (dirChain (pathOf cs)) (alloc n b) = (b1, Inr par)" "madeDirs X cs (alloc n b) b1 par"
      using snoc.IH[of "alloc n b"] treeInv_alloc[OF inv] pl by auto
    obtain b' where b': "put ?p (dirChain (pathOf cs)) (length (bheap b)) (alloc n b) = (b', None)" "placed X (cs @ [c]) n b b'"
      using put_below[OF inv pl ok b1] by blast
    have "directory (dirChain ?p) b = (b', Inr (length (bheap b)))"
      unfolding dirChain_snoc[OF pl] using None n(1) b'(1) treeInvD(1)[OF inv] by (simp add: Let_def)
    then show ?thesis using placed_madeDirs[OF inv pl n(2) b'(2) n(5)] by blast
  qed
qed

text \<open>A visible non-directory above the path: nothing is bound, the error is a conflict.\<close>

lemma directory_conflict:
  assumes "treeInv X (bheap b) (bview b)" and "list_all plain cs" and "\<not> conflictFree (bheap b) (bview b) cs"
  shows "\<exists>ns. directory (dirChain (pathOf cs)) b = (b\<lparr>bheap := bheap b @ ns\<rparr>, Inl ErrConflict)"
  using assms
proof (induction cs arbitrary: b rule: rev_induct)
  case Nil
  have dot: "pathOf [] = ''.''" using pathOf_eq_dot[of "[]"] by simp
  obtain a where a: "addrOf (bview b) ''.'' = Some a" "\<not> isDir (bheap b ! a)"
    using Nil(3) by (auto simp: conflictFree_def dot)
  have "directory [''.''] b = (b, Inl ErrConflict)"
  proof (cases "map_of (nodes (bview b)) ''.''")
    case (Some x)
    then show ?thesis using a addrOf_nodes[OF Some] by simp
  next
    case None
    then show ?thesis using a treeInvD(1)[OF Nil(1)] by (simp add: Let_def madeDirectory_def lookup_view[OF Nil(1)])
  qed
  then show ?case by (intro exI[of _ "[]"]) (simp add: dot)
next
  case (snoc c cs)
  let ?p = "pathOf (cs @ [c])"
  note inv = snoc.prems(1) and pl = snoc.prems(2)
  show ?case
  proof (cases "addrOf (bview b) ?p")
    case (Some a)
    have "\<not> isDir (bheap b ! a)" using conflictFree_visible[OF inv pl Some] snoc.prems(3) by blast
    then have "directory (?p # dirChain (pathOf cs)) b = (b, Inl ErrConflict)"
      using Some treeInvD(1)[OF inv] addrOf_nodes[of "bview b" ?p]
      by (cases "map_of (nodes (bview b)) ?p") (simp_all add: Let_def madeDirectory_def lookup_view[OF inv])
    then show ?thesis by (intro exI[of _ "[]"]) (simp add: dirChain_snoc[OF pl])
  next
    case None
    let ?n = "plainNode (pathBase ?p) (ModeDir OR defaultDirectoryMode)"
    have made: "madeDirectory b ?p = Inr ?n" "map_of (nodes (bview b)) ?p = None"
      using None addrOf_nodes[of "bview b" ?p] by (cases "map_of (nodes (bview b)) ?p"; simp add: madeDirectory_def lookup_view[OF inv])+
    have "\<not> conflictFree (bheap b @ [?n]) (bview b) cs"
      using snoc.prems(3) None conflictFree_cong[OF inv, of "bheap b @ [?n]" cs] by (simp add: conflictFree_snoc nth_append)
    then obtain ns where ns: "directory (dirChain (pathOf cs)) (alloc ?n b) = ((alloc ?n b)\<lparr>bheap := (bheap b @ [?n]) @ ns\<rparr>, Inl ErrConflict)"
      using snoc.IH[of "alloc ?n b"] treeInv_alloc[OF inv] pl by auto
    have "?p \<noteq> ''.''" using pathOf_eq_dot[OF pl] by simp
    then have "directory (dirChain ?p) b = (b\<lparr>bheap := bheap b @ ?n # ns\<rparr>, Inl ErrConflict)"
      unfolding dirChain_snoc[OF pl] using made ns treeInvD(1)[OF inv] by (simp add: Let_def alloc_def)
    then show ?thesis by blast
  qed
qed

section \<open>Removal\<close>

lemma splitOn_sep: "splitOn c (s @ c # r) = splitOn c s @ splitOn c r"
proof (induction s)
  case (Cons x s)
  then show ?case by (cases "splitOn c s") auto
qed simp

lemma joinWith_append: "cs \<noteq> [] \<Longrightarrow> es \<noteq> [] \<Longrightarrow> joinWith sep (cs @ es) = joinWith sep cs @ sep @ joinWith sep es"
proof (induction sep cs rule: joinWith.induct)
  case (2 sep p)
  then show ?case by (cases es) simp_all
qed simp_all

lemma under_prefix:
  assumes cs: "list_all plain cs" and ds: "list_all plain ds"
  shows "under (pathOf cs) (pathOf ds) \<longleftrightarrow> prefix cs ds"
proof (cases "cs = []")
  case True
  then show ?thesis by (simp add: under_def pathOf_def)
next
  case nonempty: False
  have "prefix cs ds" if "hasPrefix (pathOf ds) (pathOf cs @ ''/'')"
  proof -
    have "pathOf ds = (pathOf cs @ ''/'') @ drop (length (pathOf cs @ ''/'')) (pathOf ds)"
      using that unfolding hasPrefix_def by (metis append_take_drop_id)
    then obtain r where r: "pathOf ds = pathOf cs @ CHR ''/'' # r" by simp
    have "ds \<noteq> []"
    proof
      assume "ds = []"
      then have "length (pathOf ds) = 1" by (simp add: pathOf_def)
      then show False using r pathOf_nonempty[OF cs] by (cases "pathOf cs") simp_all
    qed
    then have "ds = splitOn CHR ''/'' (pathOf cs @ CHR ''/'' # r)" using splitOn_pathOf[OF ds] r by simp
    also have "\<dots> = cs @ splitOn CHR ''/'' r" unfolding splitOn_sep splitOn_pathOf[OF cs nonempty] ..
    finally show ?thesis unfolding prefix_def by blast
  qed
  moreover have "pathOf ds = pathOf cs \<or> hasPrefix (pathOf ds) (pathOf cs @ ''/'')" if pre: "prefix cs ds"
  proof -
    obtain es where es: "ds = cs @ es" by (rule prefixE[OF pre])
    show ?thesis
      using nonempty joinWith_append[OF nonempty, of es "''/''"]
      by (cases "es = []") (simp_all add: es pathOf_def hasPrefix_def prefix_def)
  qed
  ultimately show ?thesis
    using pathOf_eq_dot[OF cs] nonempty pathOf_inject[OF cs ds] unfolding under_def by auto
qed

lemma map_of_unmasked: "map_of (filter (\<lambda>(k, a). \<not> P k) ns) q = (if P q then None else map_of ns q)"
  by (induction ns) auto

definition maskedView :: "string \<Rightarrow> view \<Rightarrow> view" where
  "maskedView p t = View (filter (\<lambda>(k, a). \<not> under p k) (nodes t)) (lower t) (p # removed t) (input t)"

lemma maskPath_simps [simp]: "bheap (maskPath p b) = bheap b" "bview (maskPath p b) = maskedView p (bview b)" "sealed (maskPath p b) = sealed b"
  by (simp_all add: maskPath_def maskedView_def)

lemma addrOf_maskedView:
  assumes mem: "inMemory t" and cs: "list_all plain cs" and ds: "list_all plain ds"
  shows "addrOf (maskedView (pathOf cs) t) (pathOf ds) = (if prefix cs ds then None else addrOf t (pathOf ds))"
proof -
  obtain ns low rm where t: "t = View ns low rm None" using mem inMemory_input[of t] by (cases t) simp
  have pl: "list_all plain es" if "prefix es ds" for es using ds that by (auto simp: prefix_def)
  have eq: "pathOf es = pathOf cs \<longleftrightarrow> es = cs" if "prefix es ds" for es using pathOf_inject[OF pl[OF that] cs] by auto
  have "masked (maskedView (pathOf cs) t) (pathOf ds) \<longleftrightarrow> prefix cs ds \<or> masked t (pathOf ds)"
    using eq unfolding masked_pathOf[OF ds] by (auto simp: maskedView_def t)
  then show ?thesis
    using under_prefix[OF cs ds] by (cases low) (auto simp: maskedView_def t map_of_unmasked split: option.splits)
qed

lemma addrOf_maskedView_None:
  assumes "inMemory t" and "addrOf t q = None"
  shows "addrOf (maskedView p t) q = None"
proof -
  obtain ns low rm where t: "t = View ns low rm None" using assms(1) inMemory_input[of t] by (cases t) simp
  have "masked t q \<Longrightarrow> masked (maskedView p t) q"
    by (auto simp: masked_def maskedView_def list_ex_iff)
  then show ?thesis using assms(2)
    by (auto simp: maskedView_def t map_of_unmasked split: option.splits if_splits)
qed

lemma inMemory_maskedView [simp]: "inMemory (maskedView p t) = inMemory t"
  by (cases t) (simp add: maskedView_def)

lemma treeInv_mask:
  assumes inv: "treeInv None h t" and cs: "list_all plain cs"
  shows "treeInv (Some cs) h (maskedView (pathOf cs) t)"
proof -
  let ?t = "maskedView (pathOf cs) t"
  note mem = treeInvD(1)[OF inv]
  have A: "addrOf ?t (pathOf ds) = (if prefix cs ds then None else addrOf t (pathOf ds))" if "list_all plain ds" for ds
    by (rule addrOf_maskedView[OF mem cs that])
  have old: "addrOf t q = Some x" if "addrOf ?t q = Some x" for q x
  proof (cases "addrOf t q")
    case (Some y)
    then obtain ds where "list_all plain ds" "q = pathOf ds" using treeInvD(3)[OF inv] by blast
    then show ?thesis using that A[of ds] by (simp split: if_splits)
  qed (use addrOf_maskedView_None[OF mem] that in simp)
  show ?thesis
    unfolding treeInv_def
  proof (intro conjI allI impI)
    show "inMemory ?t" using mem by simp
    show "gok (nodes ?t)" using gok_filter[OF treeInvD(2)[OF inv]] by (simp add: maskedView_def)
    fix q x assume x: "addrOf ?t q = Some x"
    show "\<exists>cs. list_all plain cs \<and> q = pathOf cs \<and> x < length h \<and> nname (h ! x) = baseName cs \<and> nforeign (h ! x) = None"
      by (rule treeInvD(3)[OF inv old[OF x]])
    fix r assume "addrOf ?t r = Some x"
    then show "q = r" using treeInvD(4)[OF inv old[OF x] old] by blast
  next
    fix ds d x assume d: "list_all plain (ds @ [d])" "addrOf ?t (pathOf (ds @ [d])) = Some x"
    then have "\<not> prefix cs ds" using A[OF d(1)] by (auto split: if_splits simp: prefix_def)
    moreover have "list_all plain ds" using d(1) by simp
    moreover obtain y where "addrOf t (pathOf ds) = Some y" "isDir (h ! y)" using treeInvD(5)[OF inv d(1) old[OF d(2)]] by blast
    ultimately show "\<exists>y. addrOf ?t (pathOf ds) = Some y \<and> isDir (h ! y)" using A by simp
  next
    fix ds x assume x: "list_all plain ds" "addrOf ?t (pathOf ds) = Some x" "isDir (h ! x)"
    have np: "\<not> prefix cs ds" using A[OF x(1)] x(2) by auto
    obtain xs where xs: "childrenOf (h ! x) = map NodeEntry xs" "sorted_wrt (<) (map (\<lambda>x. nname (h ! x)) xs)"
      "\<forall>x \<in> set xs. x < length h \<and> plain (nname (h ! x)) \<and>
         (addrOf t (pathOf (ds @ [nname (h ! x)])) = Some x \<or> None = Some (ds @ [nname (h ! x)]))"
      "\<forall>c x. plain c \<longrightarrow> addrOf t (pathOf (ds @ [c])) = Some x \<longrightarrow> x \<in> set xs"
      by (rule listsChildrenE[OF treeInvD(6)[OF inv x(1) old[OF x(2)] x(3)]])
    have "addrOf ?t (pathOf (ds @ [nname (h ! y)])) = Some y \<or> Some cs = Some (ds @ [nname (h ! y)])" if "y \<in> set xs" for y
      using A[of "ds @ [nname (h ! y)]"] x(1) xs(3) that np by (auto simp: prefix_snoc)
    then show "listsChildren (Some cs) h ?t ds x"
      unfolding listsChildren_def using xs old by (intro exI[of _ xs]) blast
  qed
qed

lemma listsChildren_exact:
  assumes "listsChildren (Some (cs @ [c])) h t ds a" and "ds \<noteq> cs"
  shows "listsChildren None h t ds a"
proof (rule listsChildrenE[OF assms(1)])
  fix xs
  assume xs: "childrenOf (h ! a) = map NodeEntry xs" "sorted_wrt (<) (map (\<lambda>x. nname (h ! x)) xs)"
    "\<forall>x \<in> set xs. x < length h \<and> plain (nname (h ! x)) \<and>
       (addrOf t (pathOf (ds @ [nname (h ! x)])) = Some x \<or> Some (cs @ [c]) = Some (ds @ [nname (h ! x)]))"
    "\<forall>c x. plain c \<longrightarrow> addrOf t (pathOf (ds @ [c])) = Some x \<longrightarrow> x \<in> set xs"
  have "\<forall>x \<in> set xs. x < length h \<and> plain (nname (h ! x)) \<and> addrOf t (pathOf (ds @ [nname (h ! x)])) = Some x"
    using xs(3) assms(2) by simp
  then show ?thesis unfolding listsChildren_def using xs(1,2,4) by blast
qed

lemma treeInv_exact:
  assumes inv: "treeInv (Some (cs @ [c])) h t"
    and parent: "\<forall>d. addrOf t (pathOf cs) = Some d \<longrightarrow> isDir (h ! d) \<longrightarrow> listsChildren None h t cs d"
  shows "treeInv None h t"
  unfolding treeInv_def
proof (intro conjI allI impI)
  fix ds x assume x: "list_all plain ds" "addrOf t (pathOf ds) = Some x" "isDir (h ! x)"
  show "listsChildren None h t ds x"
    using parent listsChildren_exact[OF treeInvD(6)[OF inv x]] x(2,3) by (cases "ds = cs") blast+
qed (use treeInvD[OF inv] in blast)+

lemma treeInv_detach:
  assumes inv: "treeInv (Some (cs @ [c])) (bheap b) (bview b)" and pl: "list_all plain (cs @ [c])"
    and par: "addrOf (bview b) (pathOf cs) = Some par" "isDir (bheap b ! par)" and gone: "addrOf (bview b) (pathOf (cs @ [c])) = None"
  obtains h where "unlinkChild par c b = b\<lparr>bheap := h\<rparr>" "length h = length (bheap b)" "treeInv None h (bview b)"
    "\<forall>x < length (bheap b). sameCore (h ! x) (bheap b ! x) \<and> (x \<noteq> par \<longrightarrow> h ! x = bheap b ! x)"
proof -
  let ?h = "bheap b" and ?t = "bview b"
  have plcs: "list_all plain cs" using pl by simp
  have len: "par < length ?h" using treeInv_at(1)[OF inv plcs par(1)] .
  obtain xs where xs: "childrenOf (?h ! par) = map NodeEntry xs" "sorted_wrt (<) (map (\<lambda>x. nname (?h ! x)) xs)"
    "\<forall>x \<in> set xs. x < length ?h \<and> plain (nname (?h ! x)) \<and>
       (addrOf ?t (pathOf (cs @ [nname (?h ! x)])) = Some x \<or> Some (cs @ [c]) = Some (cs @ [nname (?h ! x)]))"
    "\<forall>c x. plain c \<longrightarrow> addrOf ?t (pathOf (cs @ [c])) = Some x \<longrightarrow> x \<in> set xs"
    by (rule listsChildrenE[OF treeInvD(6)[OF inv plcs par]])
  obtain ys h where h: "unlinkChild par c b = b\<lparr>bheap := h\<rparr>" "length h = length ?h" "childrenOf (h ! par) = map NodeEntry ys"
      "\<forall>x < length ?h. sameCore (h ! x) (?h ! x) \<and> (x \<noteq> par \<longrightarrow> h ! x = ?h ! x)"
      "sorted_wrt (<) (map (\<lambda>x. nname (?h ! x)) ys)" "set ys = {x \<in> set xs. nname (?h ! x) \<noteq> c}"
    using unlinkChild_sorted[OF xs(2,1) len] by blast
  have names: "\<forall>x < length ?h. nname (h ! x) = nname (?h ! x)" using h(4) by (simp add: sameCore_def)
  have map: "map (\<lambda>x. nname (h ! x)) ys = map (\<lambda>x. nname (?h ! x)) ys" using names h(6) xs(3) by simp
  have covers: "x \<in> set ys" if "plain d" "addrOf ?t (pathOf (cs @ [d])) = Some x" for d x
  proof -
    have "nname (?h ! x) = d" using treeInv_at(2)[OF inv _ that(2)] plcs that(1) by (simp add: baseName_def)
    moreover have "d \<noteq> c" using that(2) gone by auto
    ultimately show ?thesis using xs(4) that h(6) by simp
  qed
  have lists: "listsChildren Y h ?t cs par" for Y
    unfolding listsChildren_def
  proof (intro exI[of _ ys] conjI)
    show "sorted_wrt (<) (map (\<lambda>x. nname (h ! x)) ys)" using h(5) by (simp only: map)
    show "\<forall>x \<in> set ys. x < length h \<and> plain (nname (h ! x)) \<and>
       (addrOf ?t (pathOf (cs @ [nname (h ! x)])) = Some x \<or> Y = Some (cs @ [nname (h ! x)]))"
      using h(2,6) xs(3) names by auto
  qed (use h(3) covers in blast)+
  have "treeInv (Some (cs @ [c])) h ?t"
  proof (rule treeInv_heap[OF inv])
    show "\<forall>ds a. list_all plain ds \<longrightarrow> addrOf ?t (pathOf ds) = Some a \<longrightarrow> isDir (?h ! a) \<longrightarrow> listsChildren (Some (cs @ [c])) h ?t ds a"
    proof (intro allI impI)
      fix ds a assume a: "list_all plain ds" "addrOf ?t (pathOf ds) = Some a" "isDir (?h ! a)"
      show "listsChildren (Some (cs @ [c])) h ?t ds a"
      proof (cases "a = par")
        case True
        then have "ds = cs" using treeInvD(4)[OF inv a(2), of "pathOf cs"] par(1) pathOf_inject[OF a(1) plcs] by simp
        then show ?thesis using lists True by simp
      next
        case False
        then have "h ! a = ?h ! a" using h(4) treeInv_at(1)[OF inv a(1,2)] by blast
        then show ?thesis by (intro listsChildren_frame[OF treeInvD(6)[OF inv a]]) (use names h(2) in simp_all)
      qed
    qed
  qed (use h(2,4) in simp_all)
  then have "treeInv None h ?t"
    by (rule treeInv_exact) (use par(1) lists in simp)
  then show ?thesis using that h(1,2,4) by blast
qed

text \<open>The parts of the heap that an operation may change.\<close>

definition frame :: "builder \<Rightarrow> builder \<Rightarrow> bool" where
  "frame b b' \<longleftrightarrow> lower (bview b') = lower (bview b) \<and> length (bheap b) \<le> length (bheap b') \<and>
     (\<forall>x < length (bheap b). x \<notin> ran (map_of (nodes (bview b))) \<longrightarrow> bheap b' ! x = bheap b ! x) \<and>
     (\<forall>x \<in> ran (map_of (nodes (bview b'))). x \<in> ran (map_of (nodes (bview b))) \<or> length (bheap b) \<le> x)"

lemma frame_keeps: "keeps (bheap b) (bview b) (bheap b') (bview b') \<Longrightarrow> frame b b'"
  unfolding keeps_def frame_def by simp

lemma frame_refl [simp]: "frame b b"
  by (simp add: frame_def)

lemma frame_extend: "frame b (b\<lparr>bheap := bheap b @ ns\<rparr>)"
  by (auto simp: frame_def nth_append)

lemma frame_trans:
  assumes "frame b b1" and "frame b1 b2"
  shows "frame b b2"
proof -
  note f = assms[unfolded frame_def]
  have "bheap b2 ! x = bheap b ! x" if x: "x < length (bheap b)" "x \<notin> ran (map_of (nodes (bview b)))" for x
  proof -
    have "x \<notin> ran (map_of (nodes (bview b1)))" "x < length (bheap b1)" using f(1) x by auto
    then show ?thesis using f x by metis
  qed
  moreover have "x \<in> ran (map_of (nodes (bview b))) \<or> length (bheap b) \<le> x" if "x \<in> ran (map_of (nodes (bview b2)))" for x
    using f that by (meson order_trans)
  ultimately show ?thesis using f unfolding frame_def by simp
qed

lemma frame_mask: "frame b (maskPath p b)"
  by (auto simp: frame_def maskedView_def ran_def map_of_unmasked split: if_splits)

definition prune :: "string list \<Rightarrow> (string list \<Rightarrow> nodeCore option) \<Rightarrow> string list \<Rightarrow> nodeCore option" where
  "prune cs m ds = (if prefix cs ds then (if ds = [] then Some dirCore else None) else m ds)"

lemma treeInv_rootless: "treeInv (Some []) h t \<Longrightarrow> treeInv None h t"
proof -
  have eq: "listsChildren (Some []) = listsChildren None" by (intro ext) (simp add: listsChildren_def)
  have "treeInv (Some []) h t = treeInv None h t" unfolding treeInv_def eq ..
  then show "treeInv (Some []) h t \<Longrightarrow> treeInv None h t" by simp
qed

lemma contents_mask:
  assumes "inMemory t" and "list_all plain cs" and "list_all plain ds"
  shows "contents h (maskedView (pathOf cs) t) ds = (if prefix cs ds then None else contents h t ds)"
  by (simp add: contents_def addrOf_maskedView[OF assms])

lemma removeAll_root:
  assumes inv: "treeInv None (bheap b) (bview b)" and norm: "normalize b ''removeall'' name = Inr ''.''"
  shows "\<exists>b'. removeAll name b = (b', None) \<and> treeInv None (bheap b') (bview b') \<and> frame b b' \<and> sealed b' = sealed b \<and>
    (\<forall>ds. list_all plain ds \<longrightarrow> contents (bheap b') (bview b') ds = prune [] (contents (bheap b) (bview b)) ds)"
proof -
  let ?n = "plainNode ''.'' (ModeDir OR defaultDirectoryMode)"
  define b1 where "b1 = maskPath ''.'' b"
  have dot: "pathOf [] = ''.''" using pathOf_eq_dot[of "[]"] by simp
  have inv1: "treeInv (Some []) (bheap b1) (bview b1)" using treeInv_mask[OF inv, of "[]"] by (simp add: b1_def dot)
  have gone: "addrOf (bview b1) (pathOf ds) = None" if "list_all plain ds" for ds
    using addrOf_maskedView[OF treeInvD(1)[OF inv], of "[]" ds] that by (simp add: b1_def dot)
  have "putable (Some []) [] ?n b1"
    using gone by (auto simp: putable_def plainNode_def listsChildren_def childrenOf_def baseName_def)
  from put_root[OF inv1 this] obtain b' where b': "put ''.'' [] (length (bheap b1)) (alloc ?n b1) = (b', None)" "placed (Some []) [] ?n b1 b'"
    by auto
  then have "removeAll name b = (b', None)" using norm by (simp add: removeAll_def Let_def b1_def)
  moreover have "frame b b'"
    using frame_trans[OF frame_mask frame_keeps] b'(2) unfolding placed_def b1_def by blast
  moreover have "contents (bheap b') (bview b') ds = prune [] (contents (bheap b) (bview b)) ds" if "list_all plain ds" for ds
  proof -
    have "contents (bheap b') (bview b') ds = grow [] (core ?n) (contents (bheap b1) (bview b1)) ds"
      using b'(2) that unfolding placed_def by blast
    moreover have "contents (bheap b1) (bview b1) ds = None" using gone[OF that] by (simp add: contents_def)
    ultimately show ?thesis by (simp add: grow_def mkdirs_def prune_def core_def plainNode_def dirCore_def)
  qed
  moreover have "treeInv None (bheap b') (bview b')" "sealed b' = sealed b"
    using b'(2) treeInv_rootless unfolding placed_def b1_def by auto
  ultimately show ?thesis by blast
qed

lemma removeAll_below:
  assumes inv: "treeInv None (bheap b) (bview b)" and pl: "list_all plain (cs @ [c])"
    and norm: "normalize b ''removeall'' name = Inr (pathOf (cs @ [c]))"
  shows "\<exists>b'. removeAll name b = (b', None) \<and> treeInv None (bheap b') (bview b') \<and> frame b b' \<and> sealed b' = sealed b \<and>
    (\<forall>ds. list_all plain ds \<longrightarrow> contents (bheap b') (bview b') ds = prune (cs @ [c]) (contents (bheap b) (bview b)) ds)"
proof -
  let ?p = "pathOf (cs @ [c])"
  define b1 where "b1 = maskPath ?p b"
  have plcs: "list_all plain cs" using pl by simp
  have par: "pathDir ?p = pathOf cs" "pathBase ?p = c" "?p \<noteq> ''.''"
    using pathDir_pathOf[OF pl] pathBase_pathOf[OF pl] pathOf_eq_dot[OF pl] by simp_all
  have inv1: "treeInv (Some (cs @ [c])) (bheap b1) (bview b1)" using treeInv_mask[OF inv pl] by (simp add: b1_def)
  have cont: "contents (bheap b1) (bview b1) ds = prune (cs @ [c]) (contents (bheap b) (bview b)) ds" if "list_all plain ds" for ds
    using contents_mask[OF treeInvD(1)[OF inv] pl that] by (auto simp: b1_def prune_def)
  have mem: "recall q b1 = b1" for q using inMemory_recall[OF treeInvD(1)[OF inv1]] by (simp add: recall_def)
  show ?thesis
  proof (cases "\<exists>d. addrOf (bview b1) (pathOf cs) = Some d \<and> isDir (bheap b1 ! d)")
    case False
    then have "removeAll name b = (b1, None)"
      using norm par mem lookup_view[OF inv1]
      unfolding removeAll_def Let_def b1_def[symmetric] by (cases "addrOf (bview b1) (pathOf cs)") (auto simp: b1_def)
    moreover have "treeInv None (bheap b1) (bview b1)" using treeInv_exact[OF inv1] False by blast
    ultimately show ?thesis using cont frame_mask by (intro exI[of _ b1]) (simp add: b1_def)
  next
    case True
    then obtain d where d: "addrOf (bview b1) (pathOf cs) = Some d" "isDir (bheap b1 ! d)" by blast
    obtain b2 a where b2: "directory (dirChain (pathOf cs)) b1 = (b2, Inr a)" "madeDirs (Some (cs @ [c])) cs b1 b2 a"
      using directory_made[OF inv1 plcs conflictFree_visible[OF inv1 plcs d]] by blast
    have inv2: "treeInv (Some (cs @ [c])) (bheap b2) (bview b2)" and a: "map_of (nodes (bview b2)) (pathOf cs) = Some a" "isDir (bheap b2 ! a)"
      and k: "keeps (bheap b1) (bview b1) (bheap b2) (bview b2)"
      and addr: "\<forall>ds. list_all plain ds \<longrightarrow> \<not> prefix ds cs \<longrightarrow> addrOf (bview b2) (pathOf ds) = addrOf (bview b1) (pathOf ds)"
      and cont2: "\<forall>ds. list_all plain ds \<longrightarrow> contents (bheap b2) (bview b2) ds = mkdirs cs (contents (bheap b1) (bview b1)) ds"
      using b2(2) unfolding madeDirs_def by blast+
    have "addrOf (bview b1) ?p = None" using addrOf_maskedView[OF treeInvD(1)[OF inv] pl pl] by (simp add: b1_def)
    moreover have "\<not> prefix (cs @ [c]) cs" by (auto dest: prefix_length_le)
    ultimately have gone: "addrOf (bview b2) ?p = None" using addr pl by metis
    obtain h where h: "unlinkChild a c b2 = b2\<lparr>bheap := h\<rparr>" "length h = length (bheap b2)" "treeInv None h (bview b2)"
        "\<forall>x < length (bheap b2). sameCore (h ! x) (bheap b2 ! x) \<and> (x \<noteq> a \<longrightarrow> h ! x = bheap b2 ! x)"
      by (rule treeInv_detach[OF inv2 pl addrOf_nodes[OF a(1)] a(2) gone])
    have k2: "keeps (bheap b2) (bview b2) h (bview b2)"
      using h(2,4) a(1) unfolding keeps_def by (auto intro: ranI)
    have "removeAll name b = (b2\<lparr>bheap := h\<rparr>, None)"
      using norm par mem lookup_view[OF inv1, of "pathOf cs"] d b2(1) h(1)
      unfolding removeAll_def Let_def b1_def[symmetric] by (simp add: b1_def)
    moreover have "frame b (b2\<lparr>bheap := h\<rparr>)"
      by (rule frame_trans[OF frame_mask[of b ?p] frame_keeps]) (use keeps_trans[OF k k2] in \<open>simp add: b1_def\<close>)
    moreover have "contents h (bview b2) ds = prune (cs @ [c]) (contents (bheap b) (bview b)) ds" if "list_all plain ds" for ds
    proof -
      have "contents h (bview b2) ds = mkdirs cs (contents (bheap b1) (bview b1)) ds"
        using contents_keeps[OF k2 inv2 refl] cont2 that by simp
      also have "\<dots> = contents (bheap b1) (bview b1) ds"
        using visible_prefix[OF inv1 plcs _, of ds] d(1) by (auto simp: mkdirs_def contents_def)
      finally show ?thesis using cont[OF that] by simp
    qed
    moreover have "sealed b2 = sealed b" using b2(2) by (simp add: madeDirs_def b1_def)
    ultimately show ?thesis using h(3) by (intro exI[of _ "b2\<lparr>bheap := h\<rparr>"]) simp
  qed
qed

section \<open>The operations of the builder\<close>

definition dirKind :: "nodeCore \<Rightarrow> bool" where
  "dirKind k \<longleftrightarrow> fst k AND ModeDir \<noteq> 0"

definition linkKind :: "nodeCore \<Rightarrow> bool" where
  "linkKind k \<longleftrightarrow> fst k AND ModeSymlink \<noteq> 0"

lemma core_kinds [simp]: "dirKind (core n) = isDir n" "linkKind (core n) = isLink n"
  by (simp_all add: dirKind_def linkKind_def core_def isDir_def isLink_def)

text \<open>A consistent tree: exact indexes, and no node is a directory and a link at once.\<close>

definition treeOk :: "heap \<Rightarrow> view \<Rightarrow> bool" where
  "treeOk h t \<longleftrightarrow> treeInv None h t \<and>
     (\<forall>ds k. list_all plain ds \<longrightarrow> contents h t ds = Some k \<longrightarrow> \<not> (dirKind k \<and> linkKind k))"

lemma dirCore_kinds [simp]: "dirKind dirCore" "\<not> linkKind dirCore"
  by (simp_all add: dirKind_def linkKind_def dirCore_def ModeDir_def ModeSymlink_def defaultDirectoryMode_def)

lemma putPath_ok:
  assumes inv: "treeInv None (bheap b) (bview b)" and pl: "list_all plain (cs @ [c])" and ok: "putable None (cs @ [c]) n b"
    and free: "conflictFree (bheap b) (bview b) cs"
  shows "\<exists>b'. putPath (pathOf (cs @ [c])) n b = (b', None) \<and> placed None (cs @ [c]) n b b'"
proof -
  have "conflictFree (bheap b @ [n]) (bview b) cs"
    using free conflictFree_cong[OF inv, of "bheap b @ [n]" cs] by (simp add: nth_append)
  then obtain b1 par where b1: "directory (dirChain (pathOf cs)) (alloc n b) = (b1, Inr par)" "madeDirs None cs (alloc n b) b1 par"
    using directory_made[of None "alloc n b" cs] treeInv_alloc[OF inv] pl by auto
  then show ?thesis using put_below[OF inv pl ok b1] by (simp add: putPath_def dirChain_snoc[OF pl])
qed

lemma putPath_conflict:
  assumes inv: "treeInv None (bheap b) (bview b)" and pl: "list_all plain (cs @ [c])" and clash: "\<not> conflictFree (bheap b) (bview b) cs"
  shows "\<exists>ns. putPath (pathOf (cs @ [c])) n b = (b\<lparr>bheap := bheap b @ ns\<rparr>, Some ErrConflict)"
proof -
  have "\<not> conflictFree (bheap b @ [n]) (bview b) cs"
    using clash conflictFree_cong[OF inv, of "bheap b @ [n]" cs] by (simp add: nth_append)
  then obtain ns where "directory (dirChain (pathOf cs)) (alloc n b) = ((alloc n b)\<lparr>bheap := (bheap b @ [n]) @ ns\<rparr>, Inl ErrConflict)"
    using directory_conflict[of None "alloc n b" cs] treeInv_alloc[OF inv] pl by auto
  then show ?thesis
    using pathOf_eq_dot[OF pl] by (intro exI[of _ "n # ns"]) (simp add: putPath_def dirChain_snoc[OF pl] alloc_def)
qed

lemma conflictFree_contents:
  assumes "list_all plain cs"
  shows "conflictFree h t cs \<longleftrightarrow> (\<forall>ds k. prefix ds cs \<longrightarrow> contents h t ds = Some k \<longrightarrow> dirKind k)"
  unfolding conflictFree_def contents_def map_option_eq_Some by (metis core_kinds(1))

text \<open>What a leaf operation needs: the path is not the root, what is there may be replaced, and only directories are above.\<close>

definition storable :: "(nodeCore \<Rightarrow> bool) \<Rightarrow> string list \<Rightarrow> (string list \<Rightarrow> nodeCore option) \<Rightarrow> bool" where
  "storable replaceable cs m \<longleftrightarrow> cs \<noteq> [] \<and> (\<forall>k. m cs = Some k \<longrightarrow> replaceable k) \<and>
     (\<forall>ds k. strict_prefix ds cs \<longrightarrow> m ds = Some k \<longrightarrow> dirKind k)"

lemma storable_snoc:
  "storable R (cs @ [c]) m \<longleftrightarrow> (\<forall>k. m (cs @ [c]) = Some k \<longrightarrow> R k) \<and> (\<forall>ds k. prefix ds cs \<longrightarrow> m ds = Some k \<longrightarrow> dirKind k)"
  by (auto simp: storable_def strict_prefix_def prefix_snoc)

lemma putable_leaf:
  assumes inv: "treeInv None (bheap b) (bview b)" and pl: "list_all plain cs" and n: "nname n = baseName cs" "nforeign n = None" "\<not> isDir n"
    and leaf: "\<forall>k. contents (bheap b) (bview b) cs = Some k \<longrightarrow> \<not> dirKind k"
  shows "putable None cs n b"
proof -
  have "addrOf (bview b) (pathOf (cs @ [c])) = None" if c: "plain c" for c
  proof (rule ccontr)
    assume "addrOf (bview b) (pathOf (cs @ [c])) \<noteq> None"
    then obtain a where "addrOf (bview b) (pathOf (cs @ [c])) = Some a" by blast
    then obtain d where "addrOf (bview b) (pathOf cs) = Some d" "isDir (bheap b ! d)" using treeInvD(5)[OF inv, of cs c] pl c by auto
    then show False using leaf by (simp add: contents_def)
  qed
  then show ?thesis using n by (simp add: putable_def)
qed

text \<open>The shared shape of \<open>addFile\<close> and \<open>addSymlink\<close> after their argument checks.\<close>

lemma store_leaf:
  assumes ok: "treeOk (bheap b) (bview b)" and pl: "list_all plain (cs @ [c])"
    and n: "nname n = c" "nforeign n = None" "\<not> isDir n"
    and R: "\<And>k. R k \<Longrightarrow> \<not> (dirKind k \<and> linkKind k) \<Longrightarrow> \<not> dirKind k"
    and rep: "\<forall>k. contents (bheap b) (bview b) (cs @ [c]) = Some k \<longrightarrow> R k"
    and res: "putPath (pathOf (cs @ [c])) n b = (b', e)"
  shows "treeOk (bheap b') (bview b') \<and> frame b b' \<and> sealed b' = sealed b \<and>
    (e = None \<longleftrightarrow> storable R (cs @ [c]) (contents (bheap b) (bview b))) \<and> (e \<noteq> None \<longrightarrow> e = Some ErrConflict) \<and>
    (\<forall>ds. list_all plain ds \<longrightarrow> contents (bheap b') (bview b') ds =
       (if e = None then grow (cs @ [c]) (core n) (contents (bheap b) (bview b)) else contents (bheap b) (bview b)) ds) \<and>
    (e = None \<longrightarrow> (\<exists>a. map_of (nodes (bview b')) (pathOf (cs @ [c])) = Some a \<and> bheap b' ! a = n))"
proof -
  have inv: "treeInv None (bheap b) (bview b)" and kinds: "\<And>ds k. list_all plain ds \<Longrightarrow> contents (bheap b) (bview b) ds = Some k \<Longrightarrow> \<not> (dirKind k \<and> linkKind k)"
    using ok unfolding treeOk_def by blast+
  have plcs: "list_all plain cs" using pl by simp
  have free: "storable R (cs @ [c]) (contents (bheap b) (bview b)) \<longleftrightarrow> conflictFree (bheap b) (bview b) cs"
    using rep unfolding storable_snoc conflictFree_contents[OF plcs] by blast
  show ?thesis
  proof (cases "conflictFree (bheap b) (bview b) cs")
    case True
    have leaf: "\<forall>k. contents (bheap b) (bview b) (cs @ [c]) = Some k \<longrightarrow> \<not> dirKind k" using R rep kinds[OF pl] by blast
    have "putable None (cs @ [c]) n b" by (rule putable_leaf[OF inv pl _ n(2,3) leaf]) (simp add: n(1) baseName_def)
    from putPath_ok[OF inv pl this True] have e: "e = None" and p: "placed None (cs @ [c]) n b b'" using res by auto
    have cont: "contents (bheap b') (bview b') ds = grow (cs @ [c]) (core n) (contents (bheap b) (bview b)) ds" if "list_all plain ds" for ds
      using p that unfolding placed_def by blast
    have "\<not> (dirKind k \<and> linkKind k)" if "list_all plain ds" "contents (bheap b') (bview b') ds = Some k" for ds k
      using that cont[OF that(1)] kinds[OF that(1)] n(3) by (auto simp: grow_def mkdirs_def split: if_splits)
    then show ?thesis using p e cont frame_keeps free True unfolding placed_def treeOk_def by auto
  next
    case False
    obtain ns where ns: "b' = b\<lparr>bheap := bheap b @ ns\<rparr>" "e = Some ErrConflict" using putPath_conflict[OF inv pl False, of n] res by auto
    have cont: "contents (bheap b') (bview b') = contents (bheap b) (bview b)" using contents_alloc[OF inv, of ns] by (auto simp: ns(1))
    then have "treeOk (bheap b') (bview b')" using ok treeInv_alloc[OF inv, of ns] by (simp add: treeOk_def ns(1))
    then show ?thesis using ns cont free False frame_extend by simp
  qed
qed

lemma type_bits: "m AND ModeType = 0 \<Longrightarrow> m AND ModeDir = 0 \<and> m AND ModeSymlink = 0"
proof -
  have "ModeDir = ModeType AND ModeDir" "ModeSymlink = ModeType AND ModeSymlink"
    by (simp_all add: ModeDir_def ModeType_def ModeSymlink_def)
  then have "m AND ModeDir = (m AND ModeType) AND ModeDir" "m AND ModeSymlink = (m AND ModeType) AND ModeSymlink"
    by (metis and.assoc)+
  then show "m AND ModeType = 0 \<Longrightarrow> m AND ModeDir = 0 \<and> m AND ModeSymlink = 0" by simp
qed

lemma lookup_contents:
  assumes "treeOk h t"
  obtains a where "lookup h t (pathOf cs) = Inr (h ! a)" "contents h t cs = Some (core (h ! a))"
    | "lookup h t (pathOf cs) = Inl ErrNotExist" "contents h t cs = None"
proof -
  have inv: "treeInv None h t" using assms by (simp add: treeOk_def)
  show ?thesis
    using that lookup_view[OF inv, of "pathOf cs"] by (cases "addrOf t (pathOf cs)") (simp_all add: contents_def)
qed

definition regularKind :: "nodeCore \<Rightarrow> bool" where
  "regularKind k \<longleftrightarrow> fst k AND ModeType = 0"

definition fileNode :: "string \<Rightarrow> FileMode \<Rightarrow> string \<Rightarrow> node" where
  "fileNode c mode content = (plainNode c mode)\<lparr>ndata := content\<rparr>"

definition linkNode :: "string \<Rightarrow> string \<Rightarrow> node" where
  "linkNode c target = (plainNode c (ModeSymlink OR symbolicLinkMode))\<lparr>ntarget := target\<rparr>"

lemma recall_treeOk:
  assumes "treeOk (bheap b) (bview b)"
  shows "recall q b = b"
proof -
  have "treeInv None (bheap b) (bview b)" using assms by (simp add: treeOk_def)
  from treeInvD(1)[OF this] show ?thesis by (simp add: recall_def)
qed

text \<open>The two operations, reduced to their last step.\<close>

lemma addFile_cases:
  assumes ok: "treeOk (bheap b) (bview b)" and norm: "normalize b ''addfile'' name = Inr (pathOf cs)" and pl: "list_all plain cs"
  obtains (refused) e where "addFile name content mode b = (b, Some e)"
      "\<not> (cs \<noteq> [] \<and> mode AND ModeType = 0 \<and> (\<forall>k. contents (bheap b) (bview b) cs = Some k \<longrightarrow> regularKind k))"
    | (stored) ds c where "cs = ds @ [c]" "mode AND ModeType = 0" "\<forall>k. contents (bheap b) (bview b) cs = Some k \<longrightarrow> regularKind k"
      "addFile name content mode b = wrapError ''addfile'' name (putPath (pathOf cs) (fileNode c mode content) b)"
proof -
  have mem: "recall q b = b" for q using recall_treeOk[OF ok] .
  have dot: "pathOf cs = ''.'' \<longleftrightarrow> cs = []" using pathOf_eq_dot[OF pl] .
  show ?thesis
  proof (cases "cs = [] \<or> mode AND ModeType \<noteq> 0")
    case True
    then show ?thesis using refused norm dot by (auto simp: addFile_def)
  next
    case False
    then obtain ds c where cs: "cs = ds @ [c]" by (metis rev_exhaust)
    have base: "pathBase (pathOf cs) = c" using pathBase_pathOf[of ds c] pl cs by simp
    show ?thesis
    proof (rule lookup_contents[OF ok, of cs])
      fix a assume a: "lookup (bheap b) (bview b) (pathOf cs) = Inr (bheap b ! a)" "contents (bheap b) (bview b) cs = Some (core (bheap b ! a))"
      then show ?thesis
        using refused stored[OF cs] norm dot mem False base
        by (cases "nmode (bheap b ! a) AND ModeType = 0") (auto simp: addFile_def regularKind_def core_def fileNode_def)
    next
      assume "lookup (bheap b) (bview b) (pathOf cs) = Inl ErrNotExist" "contents (bheap b) (bview b) cs = None"
      then show ?thesis using stored[OF cs] norm dot mem False base by (simp add: addFile_def fileNode_def)
    qed
  qed
qed

lemma addSymlink_cases:
  assumes ok: "treeOk (bheap b) (bview b)" and norm: "normalize b ''addsymlink'' name = Inr (pathOf cs)" and pl: "list_all plain cs"
  obtains (refused) e where "addSymlink name target b = (b, Some e)"
      "\<not> (cs \<noteq> [] \<and> CHR 0x00 \<notin> set target \<and> (\<forall>k. contents (bheap b) (bview b) cs = Some k \<longrightarrow> linkKind k))"
    | (stored) ds c where "cs = ds @ [c]" "CHR 0x00 \<notin> set target" "\<forall>k. contents (bheap b) (bview b) cs = Some k \<longrightarrow> linkKind k"
      "addSymlink name target b = wrapError ''addsymlink'' name (putPath (pathOf cs) (linkNode c target) b)"
proof -
  have mem: "recall q b = b" for q using recall_treeOk[OF ok] .
  have dot: "pathOf cs = ''.'' \<longleftrightarrow> cs = []" using pathOf_eq_dot[OF pl] .
  show ?thesis
  proof (cases "cs = [] \<or> CHR 0x00 \<in> set target")
    case True
    then show ?thesis using refused norm dot by (auto simp: addSymlink_def)
  next
    case False
    then obtain ds c where cs: "cs = ds @ [c]" by (metis rev_exhaust)
    have base: "pathBase (pathOf cs) = c" using pathBase_pathOf[of ds c] pl cs by simp
    show ?thesis
    proof (rule lookup_contents[OF ok, of cs])
      fix a assume a: "lookup (bheap b) (bview b) (pathOf cs) = Inr (bheap b ! a)" "contents (bheap b) (bview b) cs = Some (core (bheap b ! a))"
      then show ?thesis
        using refused stored[OF cs] norm dot mem False base
        by (cases "isLink (bheap b ! a)") (auto simp: addSymlink_def linkNode_def)
    next
      assume "lookup (bheap b) (bview b) (pathOf cs) = Inl ErrNotExist" "contents (bheap b) (bview b) cs = None"
      then show ?thesis using stored[OF cs] norm dot mem False base by (simp add: addSymlink_def linkNode_def)
    qed
  qed
qed

text \<open>Characters of a cleaned path come from the path.\<close>

lemma set_joinWith: "set (joinWith sep ps) \<subseteq> set sep \<union> \<Union> (set ` set ps)"
  by (induction sep ps rule: joinWith.induct) auto

lemma set_splitOn: "p \<in> set (splitOn c s) \<Longrightarrow> set p \<subseteq> set s"
proof (induction s arbitrary: p)
  case (Cons x s)
  obtain q qs where q: "splitOn c s = q # qs" by (cases "splitOn c s") auto
  have "set q \<subseteq> set s" "r \<in> set qs \<Longrightarrow> set r \<subseteq> set s" for r using Cons.IH[of q] Cons.IH[of r] q by simp_all
  then show ?case using Cons.prems Cons.IH[of p] q by (auto split: if_splits)
qed simp

lemma set_foldl_cleanStep: "set (foldl (cleanStep r) st cs) \<subseteq> set st \<union> set cs"
proof (induction cs arbitrary: st)
  case (Cons c cs)
  have "set (cleanStep r st c) \<subseteq> insert c (set st)" by (auto simp: cleanStep_def dest: list.set_sel(2))
  then show ?case using Cons[of "cleanStep r st c"] by auto
qed simp

lemma set_pathClean: "set (pathClean p) \<subseteq> set p \<union> {CHR ''.'', CHR ''/''}"
proof -
  have "set c \<subseteq> set p" if "c \<in> set (cleanParts p)" for c
    using that set_foldl_cleanStep[of "isAbs p" "[]" "splitOn CHR ''/'' p"] set_splitOn[of c "CHR ''/''" p]
    unfolding cleanParts_def by auto
  then have "\<Union> (set ` set (cleanParts p)) \<subseteq> set p" by blast
  then have "set (joinWith ''/'' (cleanParts p)) \<subseteq> set p \<union> {CHR ''/''}" by (intro order_trans[OF set_joinWith]) auto
  then show ?thesis unfolding pathClean_def pathOf_def by auto
qed

lemma normalizeD:
  assumes "normalize b op name = Inr p"
  shows "\<not> sealed b" "p = pathClean name" "validPath p" "CHR 0x00 \<notin> set p" "canonical p"
proof -
  have ok: "\<not> sealed b" "p = pathClean name" "validPath p" "CHR 0x00 \<notin> set name"
    using assms by (auto simp: normalize_def Let_def split: if_splits)
  then show "\<not> sealed b" "p = pathClean name" "validPath p" "canonical p" by (simp_all add: validPath_canonical)
  show "CHR 0x00 \<notin> set p" using set_pathClean[of name] ok(2,4) by auto
qed

lemma readFile_direct:
  assumes "validPath p" and "CHR 0x00 \<notin> set p" and "list_all plain cs" "p = pathOf cs"
    and "map_of (nodes t) p = Some a" and "\<not> isDir (h ! a)" "\<not> isLink (h ! a)" "nforeign (h ! a) = None"
  shows "fst (readFile h t p) = Inr (ndata (h ! a))"
proof -
  have "p \<noteq> []" "\<not> isAbs p" using assms(3,4) pathOf_nonempty not_abs_pathOf by simp_all
  then have "resolve h t p True = (Inr (p, h ! a), t)"
    using assms by (simp add: resolve_def Let_def)
  then show ?thesis using assms by (simp add: readFile_def readNode_def)
qed

lemma addFile_spec:
  assumes "treeOk (bheap b) (bview b)" and "normalize b ''addfile'' name = Inr (pathOf cs)" and "list_all plain cs"
    and "addFile name content mode b = (b', e)"
  shows "treeOk (bheap b') (bview b') \<and> frame b b' \<and>
    (e = None \<longleftrightarrow> mode AND ModeType = 0 \<and> storable regularKind cs (contents (bheap b) (bview b))) \<and>
    (\<forall>ds. list_all plain ds \<longrightarrow> contents (bheap b') (bview b') ds =
       (if e = None then grow cs (mode, content, []) (contents (bheap b) (bview b)) else contents (bheap b) (bview b)) ds) \<and>
    (e = None \<longrightarrow> fst (readFile (bheap b') (bview b') (pathOf cs)) = Inr content)"
proof (rule addFile_cases[OF assms(1-3), of content mode])
  fix x assume "addFile name content mode b = (b, Some x)"
      "\<not> (cs \<noteq> [] \<and> mode AND ModeType = 0 \<and> (\<forall>k. contents (bheap b) (bview b) cs = Some k \<longrightarrow> regularKind k))"
  then show ?thesis using assms(1,4) by (auto simp: storable_def)
next
  fix ds c
  assume cs: "cs = ds @ [c]" and mode: "mode AND ModeType = 0" and reg: "\<forall>k. contents (bheap b) (bview b) cs = Some k \<longrightarrow> regularKind k"
    and add: "addFile name content mode b = wrapError ''addfile'' name (putPath (pathOf cs) (fileNode c mode content) b)"
  let ?n = "fileNode c mode content"
  obtain x where x: "putPath (pathOf cs) ?n b = (b', x)" "e = map_option (PathError ''addfile'' name) x"
    using add assms(4) by (cases "putPath (pathOf cs) ?n b") (simp add: wrapError_def)
  have n: "nname ?n = c" "nforeign ?n = None" "\<not> isDir ?n" "\<not> isLink ?n" "core ?n = (mode, content, [])" "ndata ?n = content"
    using type_bits[OF mode] by (simp_all add: fileNode_def plainNode_def isDir_def isLink_def core_def)
  have R: "\<not> dirKind k" if "regularKind k" for k using that type_bits by (auto simp: regularKind_def dirKind_def)
  note spec = store_leaf[OF assms(1) assms(3)[unfolded cs] n(1-3) R reg[unfolded cs] x(1)[unfolded cs]]
  have "fst (readFile (bheap b') (bview b') (pathOf cs)) = Inr content" if None: "e = None"
  proof -
    obtain a where a: "map_of (nodes (bview b')) (pathOf cs) = Some a" "bheap b' ! a = ?n" using spec None x(2) cs by auto
    then show ?thesis
      using readFile_direct[OF normalizeD(3,4)[OF assms(2)] assms(3) refl a(1), of "bheap b'"] n by simp
  qed
  then show ?thesis using spec mode x(2) n(5) cs by (cases x) auto
qed

text \<open>
  C27. \<^verbatim>\<open>AddFile\<close> refines an update of the tree's contents. On a consistent tree it succeeds exactly when the
  mode is that of a regular file, the path is not the root, nothing but a regular file is there and
  everything visible above it is a directory. Then the file is stored, missing directories above it appear
  and nothing else changes, whatever was copied from the lower tree; otherwise nothing changes. The tree
  stays consistent, and reading the file back returns the bytes.
\<close>

theorem addFile_refines:
  assumes "treeOk (bheap b) (bview b)" and "normalize b ''addfile'' name = Inr (pathOf cs)" and "list_all plain cs"
    and "addFile name content mode b = (b', e)"
  shows "treeOk (bheap b') (bview b') \<and>
    (e = None \<longleftrightarrow> mode AND ModeType = 0 \<and> storable regularKind cs (contents (bheap b) (bview b))) \<and>
    (\<forall>ds. list_all plain ds \<longrightarrow> contents (bheap b') (bview b') ds =
       (if e = None then grow cs (mode, content, []) (contents (bheap b) (bview b)) else contents (bheap b) (bview b)) ds) \<and>
    (e = None \<longrightarrow> fst (readFile (bheap b') (bview b') (pathOf cs)) = Inr content)"
  using addFile_spec[OF assms] by blast

lemma treeOk_new: "treeOk (bheap (newBuilder h NoLower)) (bview (newBuilder h NoLower))"
proof -
  let ?n = "plainNode ''.'' (ModeDir OR defaultDirectoryMode)"
  let ?t = "View [(''.'', length h)] None [] None" and ?e = "View [] None [] None"
  have dot: "pathOf [] = ''.''" using pathOf_eq_dot[of "[]"] by simp
  have e: "treeInv None (h @ [?n]) ?e" by (simp add: treeInv_def gok_def)
  have "readyNode None (h @ [?n]) ?e [] (length h)"
    by (auto simp: readyNode_def plainNode_def baseName_def listsChildren_def childrenOf_def)
  from treeInv_attach_root[OF e this] have inv: "treeInv None (h @ [?n]) ?t" by (simp add: bound_def setNodes_def)
  have "contents (h @ [?n]) ?t ds = (if ds = [] then Some dirCore else None)" if "list_all plain ds" for ds
    using pathOf_eq_dot[OF that] by (simp add: contents_def core_def plainNode_def dirCore_def)
  then show ?thesis using inv by (auto simp: treeOk_def newBuilder_def split: if_splits)
qed

theorem addFile_refines_witness:
  "snd (addFile ''./dir//f'' ''data'' 420 (newBuilder [] NoLower)) = None \<and>
   fst (case addFile ''./dir//f'' ''data'' 420 (newBuilder [] NoLower) of (b', e) \<Rightarrow> readFile (bheap b') (bview b') ''dir/f'') = Inr ''data''"
proof -
  let ?b = "newBuilder [] NoLower"
  obtain b' e where r: "addFile ''./dir//f'' ''data'' 420 ?b = (b', e)" by (cases "addFile ''./dir//f'' ''data'' 420 ?b")
  have norm: "normalize ?b ''addfile'' ''./dir//f'' = Inr (pathOf [''dir'', ''f''])" by code_simp
  have pl: "list_all plain [''dir'', ''f'']" by code_simp
  have vis: "contents (bheap ?b) (bview ?b) ds = None \<or> ds = []" if pre: "prefix ds [''dir'', ''f'']" for ds
  proof -
    obtain zs where "[''dir'', ''f''] = ds @ zs" using pre unfolding prefix_def ..
    then have "list_all plain ds" using pl by (metis list_all_append)
    then show ?thesis using pathOf_eq_dot[of ds] by (auto simp: contents_def newBuilder_def)
  qed
  have root: "contents (bheap ?b) (bview ?b) [] = Some dirCore" by code_simp
  have "storable regularKind [''dir'', ''f''] (contents (bheap ?b) (bview ?b))"
    using vis root by (fastforce simp: storable_def strict_prefix_def)
  moreover have "(420 :: FileMode) AND ModeType = 0" by (simp add: ModeType_def)
  ultimately show ?thesis
    using addFile_refines[OF treeOk_new norm pl r] r by (simp add: pathOf_def)
qed

lemma addSymlink_spec:
  assumes "treeOk (bheap b) (bview b)" and "normalize b ''addsymlink'' name = Inr (pathOf cs)" and "list_all plain cs"
    and "addSymlink name target b = (b', e)"
  shows "treeOk (bheap b') (bview b') \<and> frame b b' \<and>
    (e = None \<longleftrightarrow> CHR 0x00 \<notin> set target \<and> storable linkKind cs (contents (bheap b) (bview b))) \<and>
    (\<forall>ds. list_all plain ds \<longrightarrow> contents (bheap b') (bview b') ds =
       (if e = None then grow cs (ModeSymlink OR symbolicLinkMode, [], target) (contents (bheap b) (bview b)) else contents (bheap b) (bview b)) ds)"
proof (rule addSymlink_cases[OF assms(1-3), of target])
  fix x assume "addSymlink name target b = (b, Some x)"
      "\<not> (cs \<noteq> [] \<and> CHR 0x00 \<notin> set target \<and> (\<forall>k. contents (bheap b) (bview b) cs = Some k \<longrightarrow> linkKind k))"
  then show ?thesis using assms(1,4) by (auto simp: storable_def)
next
  fix ds c
  assume cs: "cs = ds @ [c]" and tgt: "CHR 0x00 \<notin> set target" and reg: "\<forall>k. contents (bheap b) (bview b) cs = Some k \<longrightarrow> linkKind k"
    and add: "addSymlink name target b = wrapError ''addsymlink'' name (putPath (pathOf cs) (linkNode c target) b)"
  let ?n = "linkNode c target"
  obtain x where x: "putPath (pathOf cs) ?n b = (b', x)" "e = map_option (PathError ''addsymlink'' name) x"
    using add assms(4) by (cases "putPath (pathOf cs) ?n b") (simp add: wrapError_def)
  have n: "nname ?n = c" "nforeign ?n = None" "\<not> isDir ?n" "core ?n = (ModeSymlink OR symbolicLinkMode, [], target)"
    by (simp_all add: linkNode_def plainNode_def isDir_def core_def ModeDir_def ModeSymlink_def symbolicLinkMode_def)
  have R: "\<not> dirKind k" if "linkKind k" "\<not> (dirKind k \<and> linkKind k)" for k using that by blast
  note spec = store_leaf[OF assms(1) assms(3)[unfolded cs] n(1-3) R reg[unfolded cs] x(1)[unfolded cs]]
  then show ?thesis using tgt x(2) n(4) cs by (cases x) auto
qed

lemma removeAll_spec:
  assumes ok: "treeOk (bheap b) (bview b)" and norm: "normalize b ''removeall'' name = Inr (pathOf cs)" and pl: "list_all plain cs"
  shows "\<exists>b'. removeAll name b = (b', None) \<and> treeOk (bheap b') (bview b') \<and> frame b b' \<and>
    (\<forall>ds. list_all plain ds \<longrightarrow> contents (bheap b') (bview b') ds = prune cs (contents (bheap b) (bview b)) ds)"
proof -
  have inv: "treeInv None (bheap b) (bview b)" and kinds: "\<And>ds k. list_all plain ds \<Longrightarrow> contents (bheap b) (bview b) ds = Some k \<Longrightarrow> \<not> (dirKind k \<and> linkKind k)"
    using ok unfolding treeOk_def by blast+
  obtain b' where b': "removeAll name b = (b', None)" "treeInv None (bheap b') (bview b')" "frame b b'"
      "\<forall>ds. list_all plain ds \<longrightarrow> contents (bheap b') (bview b') ds = prune cs (contents (bheap b) (bview b)) ds"
  proof (cases cs rule: rev_cases)
    case Nil
    then have "normalize b ''removeall'' name = Inr ''.''" using norm pathOf_eq_dot[of "[]"] by simp
    then show ?thesis using that removeAll_root[OF inv, of name] Nil by auto
  next
    case (snoc ds c)
    then show ?thesis using that removeAll_below[OF inv, of ds c name] norm pl by auto
  qed
  have "\<not> (dirKind k \<and> linkKind k)" if "list_all plain ds" "contents (bheap b') (bview b') ds = Some k" for ds k
    using that b'(4) kinds[OF that(1)] by (auto simp: prune_def split: if_splits)
  then show ?thesis using b' unfolding treeOk_def by blast
qed



section \<open>Histories of a builder\<close>

datatype builderOp = AddFile string string FileMode | AddSymlink string string | RemoveAll string

fun applyOp :: "builder \<Rightarrow> builderOp \<Rightarrow> builder" where
  "applyOp b (AddFile name content mode) = fst (addFile name content mode b)"
| "applyOp b (AddSymlink name target) = fst (addSymlink name target b)"
| "applyOp b (RemoveAll name) = fst (removeAll name b)"

lemma applyOp_ok:
  assumes ok: "treeOk (bheap b) (bview b)"
  shows "treeOk (bheap (applyOp b op)) (bview (applyOp b op)) \<and> frame b (applyOp b op)"
proof (cases op)
  case (AddFile name content mode)
  obtain b' e where r: "addFile name content mode b = (b', e)" by (cases "addFile name content mode b")
  show ?thesis
  proof (cases "normalize b ''addfile'' name")
    case (Inr p)
    then obtain cs where "list_all plain cs" "p = pathOf cs" using normalizeD(5)[OF Inr] by (auto simp: canonical_def)
    then show ?thesis using addFile_spec[OF ok _ _ r] Inr r AddFile by simp
  qed (use AddFile ok in \<open>simp add: addFile_def\<close>)
next
  case (AddSymlink name target)
  obtain b' e where r: "addSymlink name target b = (b', e)" by (cases "addSymlink name target b")
  show ?thesis
  proof (cases "normalize b ''addsymlink'' name")
    case (Inr p)
    then obtain cs where "list_all plain cs" "p = pathOf cs" using normalizeD(5)[OF Inr] by (auto simp: canonical_def)
    then show ?thesis using addSymlink_spec[OF ok _ _ r] Inr r AddSymlink by simp
  qed (use AddSymlink ok in \<open>simp add: addSymlink_def\<close>)
next
  case (RemoveAll name)
  show ?thesis
  proof (cases "normalize b ''removeall'' name")
    case (Inr p)
    then obtain cs where "list_all plain cs" "p = pathOf cs" using normalizeD(5)[OF Inr] by (auto simp: canonical_def)
    then show ?thesis using removeAll_spec[OF ok, of name cs] Inr RemoveAll by auto
  qed (use RemoveAll ok in \<open>simp add: removeAll_def\<close>)
qed

text \<open>What a history over a lower tree with heap \<open>h\<close> keeps.\<close>

definition overlay :: "heap \<Rightarrow> view \<Rightarrow> builder \<Rightarrow> bool" where
  "overlay h t b \<longleftrightarrow> treeOk (bheap b) (bview b) \<and> take (length h) (bheap b) = h \<and> lower (bview b) = Some t \<and>
     (\<forall>x \<in> ran (map_of (nodes (bview b))). length h \<le> x)"

lemma overlay_step:
  assumes o: "overlay h t b"
  shows "overlay h t (applyOp b op)"
proof -
  have f: "frame b (applyOp b op)" and ok: "treeOk (bheap (applyOp b op)) (bview (applyOp b op))"
    using applyOp_ok o unfolding overlay_def by blast+
  have len: "length h \<le> length (bheap b)" using o unfolding overlay_def by (metis length_take min.cobounded1)
  have own: "length h \<le> x" if "x \<in> ran (map_of (nodes (bview b)))" for x using o that unfolding overlay_def by blast
  have "bheap (applyOp b op) ! x = h ! x" if "x < length h" for x
  proof -
    have "x \<notin> ran (map_of (nodes (bview b)))" using own[of x] that by auto
    then have "bheap (applyOp b op) ! x = bheap b ! x" using f that len unfolding frame_def by (metis less_le_trans)
    also have "\<dots> = h ! x" using o that unfolding overlay_def by (metis nth_take)
    finally show ?thesis .
  qed
  moreover have "length h \<le> length (bheap (applyOp b op))" using f len unfolding frame_def by simp
  ultimately have "take (length h) (bheap (applyOp b op)) = h" by (intro nth_equalityI) simp_all
  then show ?thesis using ok f own len o unfolding overlay_def frame_def by fastforce
qed



end
