(* ===== verification/DiffPrep.thy ===== *)
theory DiffPrep
  imports Documents Status "HOL-Library.Product_Lexorder"
begin

text \<open>
  Comparison of two rendered snapshots: \<^verbatim>\<open>internal/diffprep\<close> (\<^verbatim>\<open>suppress.go\<close>, \<^verbatim>\<open>docs.go\<close>, \<^verbatim>\<open>normalize.go\<close>,
  \<^verbatim>\<open>pair.go\<close>, \<^verbatim>\<open>changes.go\<close>), \<^verbatim>\<open>pkg/diff\<close> (\<^verbatim>\<open>compare.go\<close>, \<^verbatim>\<open>changes.go\<close>), \<^verbatim>\<open>pkg/image\<close> and
  \<^verbatim>\<open>internal/imageutil\<close>.

  A document that may be nil is an option. Parameters stand for code outside the repository: the image
  reference parser, base64 decoding, the SHA-256 digest and the quoting of paths. \<^verbatim>\<open>reflect.DeepEqual\<close> on two
  decoded documents is \<open>valueEqual\<close>. Formatting with dyff and the line diff are not modelled.
\<close>

section \<open>Producers and snapshots\<close>

record Parent =
  pid :: NamedResource
  ppath :: string

text \<open>What the diff reads of a declaration: its identity and, when it has one, its source path.\<close>

record declared =
  dnamed :: NamedResource
  dsource :: "string option"

record batch =
  bparent :: "declared option"
  bdocs :: "doc list"

datatype Side = SideOrig | SideCurrent | SideBoth

fun sideName :: "Side \<Rightarrow> string" where
  "sideName SideOrig = ''orig''"
| "sideName SideCurrent = ''current''"
| "sideName SideBoth = ''both''"

record Snapshot =
  subjects :: "(NamedResource, DiagnosticIdentity) gomap"
  manifests :: "batch list"
  unavailable :: "(NamedResource, StatusInfo) gomap"
  producerKeys :: "(NamedResource, NamedResource) gomap"

record Suppression =
  sParent :: Parent
  sSubject :: DiagnosticIdentity
  sSide :: Side
  sCount :: nat
  sReason :: string

definition zeroDiagnostic :: DiagnosticIdentity where
  "zeroDiagnostic = \<lparr>ID = zeroResource, Resource = zeroResource, Path = []\<rparr>"

text \<open>\<^verbatim>\<open>strings.Fields\<close> on the ASCII white space.\<close>

fun fieldsOf :: "string \<Rightarrow> string \<Rightarrow> string list" where
  "fieldsOf [] word = (if word = [] then [] else [rev word])"
| "fieldsOf (c # s) word =
     (if of_char c \<in> {9, 10, 11, 12, 13, 32 :: nat}
      then (if word = [] then fieldsOf s [] else rev word # fieldsOf s [])
      else fieldsOf s (c # word))"

definition suppressionString :: "Suppression \<Rightarrow> string" where
  "suppressionString s =
     (let noun = (if sCount s = 1 then ''object'' else ''objects'');
          reason = joinWith '' '' (fieldsOf (sReason s) [])
      in if sSide s = SideBoth
         then showInt (int (sCount s)) @ '' '' @ noun @ '' withheld; diff suppressed ('' @ reason @ '')''
         else showInt (int (sCount s)) @ '' '' @ noun @ '' not rendered on the '' @ sideName (sSide s) @
              '' side; diff suppressed ('' @ reason @ '')'')"

definition objectParent :: "declared option \<Rightarrow> Parent" where
  "objectParent d = (case d of
     None \<Rightarrow> \<lparr>pid = zeroResource, ppath = []\<rparr>
   | Some x \<Rightarrow> \<lparr>pid = dnamed x, ppath = (case dsource x of None \<Rightarrow> [] | Some p \<Rightarrow> trimPrefix p ''./'')\<rparr>)"

section \<open>Suppression\<close>

record suppressionPlan =
  planParent :: Parent
  planSide :: Side
  planCount :: nat
  planReason :: string
  discloseEmpty :: bool

definition newPlan :: "Side \<Rightarrow> string \<Rightarrow> bool \<Rightarrow> suppressionPlan" where
  "newPlan side reason disclose =
     \<lparr>planParent = objectParent None, planSide = side, planCount = 0, planReason = reason, discloseEmpty = disclose\<rparr>"

definition unavailableReason :: "StatusInfo \<Rightarrow> Side \<Rightarrow> string" where
  "unavailableReason info side =
     (if outcome info = OutcomeSuspended then ''suspended on '' @ sideName side else sideName side @ '': '' @ infoString info)"

definition planSuppression :: "StatusInfo \<Rightarrow> StatusInfo \<Rightarrow> suppressionPlan option" where
  "planSuppression left right =
     (let lf = outcome left \<in> {OutcomeFailed, OutcomeBlocked}; rf = outcome right \<in> {OutcomeFailed, OutcomeBlocked};
          ls = outcome left = OutcomeSuspended; rs = outcome right = OutcomeSuspended;
          lu = isUnavailable left; ru = isUnavailable right
      in if lf \<and> rf
         then Some (newPlan SideBoth (''failed on both sides: orig: '' @ infoString left @ ''; current: '' @ infoString right) True)
         else if ls \<and> rs then Some (newPlan SideBoth ''suspended on orig; suspended on current'' True)
         else if ls \<and> ru \<or> rs \<and> lu
         then Some (newPlan SideBoth (unavailableReason left SideOrig @ ''; '' @ unavailableReason right SideCurrent) True)
         else if lu \<and> \<not> ru then Some (if ls then newPlan SideOrig ''suspended on orig'' True else newPlan SideOrig (infoString left) False)
         else if ru \<and> \<not> lu
         then Some (if rs then newPlan SideCurrent ''suspended on current'' True else newPlan SideCurrent (infoString right) False)
         else None)"

type_synonym plans = "(NamedResource, suppressionPlan) gomap"

definition infoFor :: "Snapshot \<Rightarrow> NamedResource \<Rightarrow> StatusInfo" where
  "infoFor s n = (case map_of (unavailable s) n of None \<Rightarrow> zeroInfo | Some i \<Rightarrow> i)"

definition addPlan :: "Snapshot \<Rightarrow> Snapshot \<Rightarrow> NamedResource \<Rightarrow> plans \<Rightarrow> plans" where
  "addPlan left right n ps = (case planSuppression (infoFor left n) (infoFor right n) of
     None \<Rightarrow> ps
   | Some plan \<Rightarrow> gput n (plan\<lparr>planParent := \<lparr>pid = n, ppath = []\<rparr>\<rparr>) ps)"

definition selectedSuppressionPlans :: "Snapshot \<Rightarrow> Snapshot \<Rightarrow> plans" where
  "selectedSuppressionPlans left right =
     (let ps = fold (addPlan left right) (gkeys (unavailable left)) []
      in fold (addPlan left right) (filter (\<lambda>n. map_of (unavailable left) n = None) (gkeys (unavailable right))) ps)"

fun subjectScan :: "Snapshot \<Rightarrow> NamedResource \<Rightarrow> (NamedResource \<times> NamedResource) list \<Rightarrow> DiagnosticIdentity \<Rightarrow> DiagnosticIdentity" where
  "subjectScan s key [] subject = subject"
| "subjectScan s key ((n, comparison) # rest) subject =
     subjectScan s key rest
       (if comparison = key \<and> (ID subject = zeroResource \<or> compareResource n (ID subject) < 0)
        then (case map_of (subjects s) n of Some captured \<Rightarrow> captured | None \<Rightarrow> diagnosticFor n None)
        else subject)"

definition snapshotSubject :: "Snapshot \<Rightarrow> NamedResource \<Rightarrow> DiagnosticIdentity" where
  "snapshotSubject s key = (case map_of (subjects s) key of
     Some subject \<Rightarrow> subject
   | None \<Rightarrow> subjectScan s key (producerKeys s) zeroDiagnostic)"

definition producerKey :: "(NamedResource, NamedResource) gomap \<Rightarrow> NamedResource \<Rightarrow> NamedResource" where
  "producerKey keys n = (case map_of keys n of Some key \<Rightarrow> key | None \<Rightarrow> n)"

fun keepBatches :: "Snapshot \<Rightarrow> Side \<Rightarrow> batch list \<Rightarrow> plans \<Rightarrow> batch list \<times> plans" where
  "keepBatches s side [] ps = ([], ps)"
| "keepBatches s side (bt # bs) ps = (case bparent bt of
     None \<Rightarrow> (case keepBatches s side bs ps of (out, ps') \<Rightarrow> (bt # out, ps'))
   | Some d \<Rightarrow>
       let key = producerKey (producerKeys s) (dnamed d)
       in case map_of ps key of
            None \<Rightarrow> (case keepBatches s side bs ps of (out, ps') \<Rightarrow> (bt # out, ps'))
          | Some plan \<Rightarrow>
              let plan = plan\<lparr>planParent := objectParent (Some d)\<rparr>;
                  plan = (if planSide plan = SideBoth \<or> planSide plan \<noteq> side
                          then plan\<lparr>planCount := planCount plan + length (bdocs bt)\<rparr> else plan)
              in keepBatches s side bs (gput key plan ps))"

definition suppressionNote :: "Snapshot \<Rightarrow> Snapshot \<Rightarrow> plans \<Rightarrow> NamedResource \<times> suppressionPlan \<Rightarrow> Suppression option" where
  "suppressionNote orig cur ps entry = (case entry of (key, plan) \<Rightarrow>
     if planCount plan = 0 \<and> \<not> discloseEmpty plan then None
     else
       let subject = (if planSide plan = SideOrig then snapshotSubject orig key
             else let subject = snapshotSubject cur key
                  in if planSide plan = SideBoth \<and> ID subject = zeroResource then snapshotSubject orig key else subject);
           subject = (if map_of ps (ID subject) \<noteq> None \<and> ID subject \<noteq> key then zeroDiagnostic else subject)
       in Some \<lparr>sParent = planParent plan, sSubject = subject, sSide = planSide plan, sCount = planCount plan, sReason = planReason plan\<rparr>)"

record SuppressionResult =
  keptOrig :: "batch list"
  keptCurrent :: "batch list"
  suppressed :: "Suppression list"

definition suppress :: "Snapshot \<Rightarrow> Snapshot \<Rightarrow> SuppressionResult" where
  "suppress orig cur =
     (let plans = selectedSuppressionPlans orig cur;
          (l, plans) = keepBatches orig SideOrig (manifests orig) plans;
          (r, plans) = keepBatches cur SideCurrent (manifests cur) plans
      in \<lparr>keptOrig = l, keptCurrent = r,
          suppressed = sortFunc (\<lambda>a b. compareResource (pid (sParent a)) (pid (sParent b)))
            (List.map_filter (suppressionNote orig cur plans) plans)\<rparr>)"

section \<open>What is withheld\<close>

definition planned :: "Snapshot \<Rightarrow> Snapshot \<Rightarrow> NamedResource \<Rightarrow> suppressionPlan option" where
  "planned orig cur n = planSuppression (infoFor orig n) (infoFor cur n)"

definition batchKey :: "Snapshot \<Rightarrow> batch \<Rightarrow> NamedResource option" where
  "batchKey s bt = map_option (\<lambda>d. producerKey (producerKeys s) (dnamed d)) (bparent bt)"

definition heldDocs :: "Snapshot \<Rightarrow> NamedResource \<Rightarrow> nat" where
  "heldDocs s k = sum_list (map (\<lambda>bt. if batchKey s bt = Some k then length (bdocs bt) else 0) (manifests s))"

lemma addPlan_facts:
  "gok ps \<Longrightarrow> gok (addPlan l r n ps) \<and> map_of (addPlan l r n ps) k =
     (if k = n \<and> planned l r n \<noteq> None then map_option (\<lambda>p. p\<lparr>planParent := \<lparr>pid = n, ppath = []\<rparr>\<rparr>) (planned l r n) else map_of ps k)"
  by (auto simp: addPlan_def planned_def gok_gput map_of_gput split: option.splits)

lemma fold_addPlan_facts:
  "gok ps \<Longrightarrow> gok (fold (addPlan l r) ns ps) \<and> map_of (fold (addPlan l r) ns ps) k =
     (if k \<in> set ns \<and> planned l r k \<noteq> None then map_option (\<lambda>p. p\<lparr>planParent := \<lparr>pid = k, ppath = []\<rparr>\<rparr>) (planned l r k) else map_of ps k)"
proof (induction ns arbitrary: ps)
  case (Cons n ns)
  have "gok (addPlan l r n ps)" using addPlan_facts[OF Cons.prems] by blast
  from Cons.IH[OF this] show ?case using addPlan_facts[OF Cons.prems, of l r n k] by auto
qed simp

lemma planned_available: "map_of (unavailable l) k = None \<Longrightarrow> map_of (unavailable r) k = None \<Longrightarrow> planned l r k = None"
  by (simp add: planned_def planSuppression_def infoFor_def isUnavailable_def outcome_def zeroInfo_def Let_def)

lemma selectedSuppressionPlans_facts:
  "gok (selectedSuppressionPlans l r) \<and> map_of (selectedSuppressionPlans l r) k =
     map_option (\<lambda>p. p\<lparr>planParent := \<lparr>pid = k, ppath = []\<rparr>\<rparr>) (planned l r k)"
proof -
  let ?ps = "fold (addPlan l r) (gkeys (unavailable l)) []"
  let ?rest = "filter (\<lambda>n. map_of (unavailable l) n = None) (gkeys (unavailable r))"
  note first = fold_addPlan_facts[OF gok_Nil, of l r "gkeys (unavailable l)" k]
  have keys: "k \<in> set (gkeys m) \<longleftrightarrow> map_of m k \<noteq> None" for m :: "(NamedResource, StatusInfo) gomap"
    by (simp add: gkeys_def map_of_eq_None_iff)
  have "gok ?ps" using first by blast
  from fold_addPlan_facts[OF this, of l r ?rest k] show ?thesis
    unfolding selectedSuppressionPlans_def Let_def using first keys[of "unavailable l"] keys[of "unavailable r"] planned_available[of l k r]
    by (cases "planned l r k") auto
qed

definition counted :: "Side \<Rightarrow> suppressionPlan \<Rightarrow> bool" where
  "counted side p \<longleftrightarrow> planSide p = SideBoth \<or> planSide p \<noteq> side"

text \<open>How a plan changes when the batches of one side have passed.\<close>

definition grown :: "Snapshot \<Rightarrow> Side \<Rightarrow> batch list \<Rightarrow> NamedResource \<Rightarrow> suppressionPlan \<Rightarrow> suppressionPlan \<Rightarrow> bool" where
  "grown s side bs k p p' \<longleftrightarrow> planSide p' = planSide p \<and> planReason p' = planReason p \<and> discloseEmpty p' = discloseEmpty p \<and>
     planCount p' = planCount p + (if counted side p
       then sum_list (map (\<lambda>bt. if batchKey s bt = Some k then length (bdocs bt) else 0) bs) else 0)"

lemma grown_skip: "batchKey s bt \<noteq> Some k \<Longrightarrow> grown s side (bt # bs) k = grown s side bs k"
  by (intro ext) (simp add: grown_def)

lemma rel_option_grown_Nil: "rel_option (grown s side [] k) x x"
  by (cases x) (simp_all add: grown_def)

lemma keepBatches_facts:
  assumes "gok ps" and "keepBatches s side bs ps = (out, ps')"
  shows "gok ps' \<and> out = filter (\<lambda>bt. \<forall>k. batchKey s bt = Some k \<longrightarrow> map_of ps k = None) bs \<and>
    (\<forall>k. rel_option (grown s side bs k) (map_of ps k) (map_of ps' k))"
  using assms
proof (induction s side bs ps arbitrary: out ps' rule: keepBatches.induct)
  case (1 s side ps)
  then show ?case by (simp add: rel_option_grown_Nil)
next
  case (2 s side bt bs ps)
  show ?case
  proof (cases "\<exists>d p. bparent bt = Some d \<and> map_of ps (producerKey (producerKeys s) (dnamed d)) = Some p")
    case False
    then obtain rest where rest: "keepBatches s side bs ps = (rest, ps')" "out = bt # rest"
      using "2.prems"(2) by (auto simp: Let_def split: option.splits prod.splits)
    have keep: "\<forall>k. batchKey s bt = Some k \<longrightarrow> map_of ps k = None"
      using False by (auto simp: batchKey_def)
    have IH: "gok ps' \<and> rest = filter (\<lambda>bt. \<forall>k. batchKey s bt = Some k \<longrightarrow> map_of ps k = None) bs \<and>
      (\<forall>k. rel_option (grown s side bs k) (map_of ps k) (map_of ps' k))"
      using False "2.IH"(1)[OF _ "2.prems"(1) rest(1)] "2.IH"(2)[OF _ refl _ "2.prems"(1) rest(1)] by (cases "bparent bt") auto
    have "rel_option (grown s side (bt # bs) k) (map_of ps k) (map_of ps' k)" for k
    proof (cases "batchKey s bt = Some k")
      case True
      then have "map_of ps k = None" using keep by blast
      then show ?thesis using IH[THEN conjunct2, THEN conjunct2, THEN spec, of k] by simp
    next
      case False
      then show ?thesis using IH[THEN conjunct2, THEN conjunct2, THEN spec, of k] by (simp add: grown_skip)
    qed
    then show ?thesis using IH keep rest(2) by simp
  next
    case True
    then obtain d p where d: "bparent bt = Some d" and p: "map_of ps (producerKey (producerKeys s) (dnamed d)) = Some p" by auto
    define key where "key = producerKey (producerKeys s) (dnamed d)"
    define p1 where "p1 = p\<lparr>planParent := objectParent (Some d)\<rparr>"
    define q where "q = (if planSide p1 = SideBoth \<or> planSide p1 \<noteq> side
      then p1\<lparr>planCount := planCount p1 + length (bdocs bt)\<rparr> else p1)"
    have step: "keepBatches s side (bt # bs) ps = keepBatches s side bs (gput key q ps)"
      using d p by (simp add: key_def q_def p1_def Let_def)
    have bk: "batchKey s bt = Some key" by (simp add: batchKey_def d key_def)
    have ok: "gok (gput key q ps)" using "2.prems"(1) by (rule gok_gput)
    have lk: "map_of (gput key q ps) k = (if k = key then Some q else map_of ps k)" for k
      using "2.prems"(1) by (rule map_of_gput)
    have dom: "map_of (gput key q ps) k = None \<longleftrightarrow> map_of ps k = None" for k using lk p by (simp add: key_def)
    have "gok (gput key q ps) \<Longrightarrow> keepBatches s side bs (gput key q ps) = (out, ps') \<Longrightarrow>
      gok ps' \<and> out = filter (\<lambda>bt. \<forall>k. batchKey s bt = Some k \<longrightarrow> map_of (gput key q ps) k = None) bs \<and>
      (\<forall>k. rel_option (grown s side bs k) (map_of (gput key q ps) k) (map_of ps' k))"
      by (rule "2.IH"(3)[OF d key_def p[folded key_def] p1_def q_def])
    then have IH: "gok ps'" "out = filter (\<lambda>bt. \<forall>k. batchKey s bt = Some k \<longrightarrow> map_of (gput key q ps) k = None) bs"
        "rel_option (grown s side bs k) (map_of (gput key q ps) k) (map_of ps' k)" for k
      using ok "2.prems"(2) step by auto
    have grow: "grown s side bs key q = grown s side (bt # bs) key p"
      by (intro ext) (auto simp: grown_def q_def p1_def counted_def bk)
    have "rel_option (grown s side (bt # bs) k) (map_of ps k) (map_of ps' k)" for k
    proof (cases "k = key")
      case True
      have "rel_option (grown s side bs key) (Some q) (map_of ps' key)" using IH(3)[of key] lk[of key] by simp
      then obtain p' where "map_of ps' key = Some p'" "grown s side bs key q p'" by (auto simp: option_rel_Some1)
      then show ?thesis using p True grow by (simp add: key_def)
    next
      case False
      then show ?thesis using IH(3)[of k] lk[of k] bk by (simp add: grown_skip)
    qed
    then show ?thesis using IH(1,2) bk p by (simp add: dom) (simp add: key_def)
  qed
qed

definition withheldDocs :: "Snapshot \<Rightarrow> Snapshot \<Rightarrow> suppressionPlan \<Rightarrow> NamedResource \<Rightarrow> nat" where
  "withheldDocs orig cur p k = (case planSide p of
     SideBoth \<Rightarrow> heldDocs orig k + heldDocs cur k | SideOrig \<Rightarrow> heldDocs cur k | SideCurrent \<Rightarrow> heldDocs orig k)"

text \<open>The state of the plans after both sides have passed.\<close>

lemma suppress_plans:
  obtains ps where "gok ps"
    "keptOrig (suppress orig cur) = filter (\<lambda>bt. \<forall>k. batchKey orig bt = Some k \<longrightarrow> planned orig cur k = None) (manifests orig)"
    "keptCurrent (suppress orig cur) = filter (\<lambda>bt. \<forall>k. batchKey cur bt = Some k \<longrightarrow> planned orig cur k = None) (manifests cur)"
    "set (suppressed (suppress orig cur)) = set (List.map_filter (suppressionNote orig cur ps) ps)"
    "\<forall>k p. planned orig cur k = Some p \<longrightarrow> (\<exists>q. map_of ps k = Some q \<and> planSide q = planSide p \<and> planReason q = planReason p \<and>
       discloseEmpty q = discloseEmpty p \<and> planCount q = withheldDocs orig cur p k)"
proof -
  define ps0 where "ps0 = selectedSuppressionPlans orig cur"
  obtain l ps1 where l: "keepBatches orig SideOrig (manifests orig) ps0 = (l, ps1)" by force
  obtain r ps2 where r: "keepBatches cur SideCurrent (manifests cur) ps1 = (r, ps2)" by force
  have ok0: "gok ps0" and at0: "map_of ps0 k = map_option (\<lambda>p. p\<lparr>planParent := \<lparr>pid = k, ppath = []\<rparr>\<rparr>) (planned orig cur k)" for k
    using selectedSuppressionPlans_facts[of orig cur k] by (simp_all add: ps0_def)
  note f1 = keepBatches_facts[OF ok0 l]
  then have ok1: "gok ps1" and at1: "rel_option (grown orig SideOrig (manifests orig) k) (map_of ps0 k) (map_of ps1 k)" for k by auto
  note f2 = keepBatches_facts[OF ok1 r]
  then have at2: "rel_option (grown cur SideCurrent (manifests cur) k) (map_of ps1 k) (map_of ps2 k)" for k by auto
  have none1: "map_of ps1 k = None \<longleftrightarrow> planned orig cur k = None" for k
    using at1[of k] at0[of k] by (cases "map_of ps1 k"; cases "planned orig cur k") auto
  have sup: "suppress orig cur = \<lparr>keptOrig = l, keptCurrent = r,
      suppressed = sortFunc (\<lambda>a b. compareResource (pid (sParent a)) (pid (sParent b))) (List.map_filter (suppressionNote orig cur ps2) ps2)\<rparr>"
    unfolding suppress_def Let_def ps0_def[symmetric] l by (simp add: r)
  show ?thesis
  proof (rule that[of ps2])
    show "gok ps2" using f2 by blast
    show "keptOrig (suppress orig cur) = filter (\<lambda>bt. \<forall>k. batchKey orig bt = Some k \<longrightarrow> planned orig cur k = None) (manifests orig)"
      using f1 by (simp add: sup at0)
    show "keptCurrent (suppress orig cur) = filter (\<lambda>bt. \<forall>k. batchKey cur bt = Some k \<longrightarrow> planned orig cur k = None) (manifests cur)"
      using f2 by (simp add: sup none1)
    show "set (suppressed (suppress orig cur)) = set (List.map_filter (suppressionNote orig cur ps2) ps2)" by (simp add: sup)
    have "\<exists>q. map_of ps2 k = Some q \<and> planSide q = planSide p \<and> planReason q = planReason p \<and>
       discloseEmpty q = discloseEmpty p \<and> planCount q = withheldDocs orig cur p k" if p: "planned orig cur k = Some p" for k p
    proof -
    have zero: "planCount p = 0"
      using p by (auto simp: planned_def planSuppression_def newPlan_def Let_def split: if_splits)
    obtain p1 where p1: "map_of ps1 k = Some p1" "grown orig SideOrig (manifests orig) k (p\<lparr>planParent := \<lparr>pid = k, ppath = []\<rparr>\<rparr>) p1"
      using at1[of k] at0[of k] p by (auto simp: option_rel_Some1)
    obtain p2 where p2: "map_of ps2 k = Some p2" "grown cur SideCurrent (manifests cur) k p1 p2"
      using at2[of k] p1(1) by (auto simp: option_rel_Some1)
    show ?thesis
      using p1(2) p2 zero by (cases "planSide p") (auto simp: grown_def counted_def withheldDocs_def heldDocs_def)
    qed
    then show "\<forall>k p. planned orig cur k = Some p \<longrightarrow> (\<exists>q. map_of ps2 k = Some q \<and> planSide q = planSide p \<and> planReason q = planReason p \<and>
       discloseEmpty q = discloseEmpty p \<and> planCount q = withheldDocs orig cur p k)" by iprover
  qed
qed


text \<open>A failed producer on the current side whose two original documents are withheld.\<close>

definition exInfo :: StatusInfo where
  "exInfo = zeroInfo\<lparr>infoStatus := ''Failed'', infoMessage := ''boom''\<rparr>"

definition exID :: NamedResource where
  "exID = NamedResource ''helm.toolkit.fluxcd.io'' ''HelmRelease'' ''ns'' ''app''"

definition exOrig :: Snapshot where
  "exOrig = \<lparr>subjects = [], manifests = [\<lparr>bparent = Some \<lparr>dnamed = exID, dsource = None\<rparr>, bdocs = [[], []]\<rparr>], unavailable = [], producerKeys = []\<rparr>"

definition exCurrent :: Snapshot where
  "exCurrent = \<lparr>subjects = [], manifests = [], unavailable = [(exID, exInfo)], producerKeys = []\<rparr>"




section \<open>Normalization and pairing\<close>

record Doc =
  docManifest :: "doc option"
  docParent :: Parent

definition documents :: "batch list \<Rightarrow> Doc list" where
  "documents bs = concat (map (\<lambda>bt. map (\<lambda>d. \<lparr>docManifest = Some d, docParent = objectParent (bparent bt)\<rparr>) (bdocs bt)) bs)"

text \<open>Base64 decoding and the hexadecimal SHA-256 digest.\<close>

record digests =
  decodeBase64 :: "string \<Rightarrow> string option"
  sha256Hex :: "string \<Rightarrow> string"

definition trimSpace :: "string \<Rightarrow> string" where
  "trimSpace s = (let ws = (\<lambda>c. of_char c \<in> {9, 10, 11, 12, 13, 32 :: nat})
     in rev (dropWhile ws (rev (dropWhile ws s))))"

definition binaryDataSummary :: "digests \<Rightarrow> json \<Rightarrow> string" where
  "binaryDataSummary dg v = (case v of
     JStr s \<Rightarrow> (case decodeBase64 dg (trimSpace s) of
       None \<Rightarrow> ''<redacted binary data: '' @ showInt (int (length s)) @ '' base64 chars sha256:'' @ take 16 (sha256Hex dg s) @ ''>''
     | Some d \<Rightarrow> ''<redacted binary data: '' @ showInt (int (length d)) @ '' bytes sha256:'' @ take 16 (sha256Hex dg d) @ ''>'')
   | _ \<Rightarrow> ''<redacted binary data>'')"

definition configMapBinaryData :: "doc \<Rightarrow> doc option" where
  "configMapBinaryData m = (if docKind m \<noteq> ''ConfigMap'' then None else docMap ''binaryData'' m)"

definition redactBinaryData :: "digests \<Rightarrow> doc \<Rightarrow> doc" where
  "redactBinaryData dg d = (case configMapBinaryData d of
     None \<Rightarrow> d
   | Some bd \<Rightarrow> modifyKey ''binaryData'' (onMap (map (\<lambda>(k, v). (k, JStr (binaryDataSummary dg v))))) d)"

definition normalizeManifest :: "digests \<Rightarrow> string list \<Rightarrow> string list \<Rightarrow> (doc \<Rightarrow> doc) option \<Rightarrow> doc option \<Rightarrow> doc option" where
  "normalizeManifest dg attrs paths hook m =
     map_option (\<lambda>m.
       let c = deepCopyDoc m;
           c = stripResourceAttributes attrs c;
           c = stripResourceFields paths c;
           c = redactBinaryData dg c
       in case hook of None \<Rightarrow> c | Some f \<Rightarrow> f c) m"

definition docsContainBinaryData :: "Doc list \<Rightarrow> bool" where
  "docsContainBinaryData ds = list_ex (\<lambda>d. case docManifest d of None \<Rightarrow> False | Some m \<Rightarrow> configMapBinaryData m \<noteq> None) ds"

definition normalizeDocs :: "digests \<Rightarrow> Doc list \<Rightarrow> string list \<Rightarrow> string list \<Rightarrow> (doc \<Rightarrow> doc) option \<Rightarrow> Doc list \<times> bool" where
  "normalizeDocs dg ds attrs paths hook =
     (if attrs = [] \<and> paths = [] \<and> Option.is_none hook \<and> \<not> docsContainBinaryData ds then (ds, False)
      else (map (\<lambda>d. \<lparr>docManifest = normalizeManifest dg attrs paths hook (docManifest d), docParent = docParent d\<rparr>) ds, True))"

record Options =
  optSubjects :: "(NamedResource, DiagnosticIdentity) gomap \<times> (NamedResource, DiagnosticIdentity) gomap"
  optProducerKeys :: "(NamedResource, NamedResource) gomap \<times> (NamedResource, NamedResource) gomap"
  optStripAttrs :: "string list"
  optStripFields :: "string list"
  optNormalize :: "(doc \<Rightarrow> doc) option"

record Pair =
  pairParent :: Parent
  pairResource :: NamedResource
  pairAPIVersion :: string
  oldPos :: nat
  newPos :: nat
  oldDoc :: "doc option"
  newDoc :: "doc option"
  oldChart :: string
  newChart :: string

record Prepared =
  prepSubjects :: "(NamedResource, DiagnosticIdentity) gomap \<times> (NamedResource, DiagnosticIdentity) gomap"
  prepPairs :: "Pair list"
  prepWarnings :: "Warning list"
  leftCopied :: bool
  rightCopied :: bool

definition helmChartLabel :: string where
  "helmChartLabel = ''helm.sh/chart''"

definition chartLabel :: "doc option \<Rightarrow> string" where
  "chartLabel m = (case m of None \<Rightarrow> [] | Some d \<Rightarrow> (case docMap ''metadata'' d of None \<Rightarrow> []
     | Some meta \<Rightarrow> (case docMap ''labels'' meta of None \<Rightarrow> [] | Some labels \<Rightarrow> docString helmChartLabel labels)))"

definition diagnosticString :: "(string \<Rightarrow> string) \<Rightarrow> DiagnosticIdentity \<Rightarrow> string" where
  "diagnosticString quote d =
     (if Resource d = zeroResource then ''entry path '' @ quote (Path d)
      else if Path d \<noteq> [] then resourceString (Resource d) @ '' (entry path '' @ quote (Path d) @ '')''
      else resourceString (Resource d))"

definition orNil :: "doc option \<Rightarrow> doc" where
  "orNil m = (case m of None \<Rightarrow> [] | Some d \<Rightarrow> d)"

type_synonym pairKey = "NamedResource \<times> NamedResource"

definition sideOf :: "Side \<Rightarrow> 'a \<times> 'a \<Rightarrow> 'a" where
  "sideOf side xy = (if side = SideCurrent then snd xy else fst xy)"

definition docKey :: "Options \<Rightarrow> Side \<Rightarrow> Doc \<Rightarrow> pairKey" where
  "docKey opts side d =
     (producerKey (sideOf side (optProducerKeys opts)) (pid (docParent d)), docIdentity (orNil (docManifest d)))"

definition sideDoc :: "Side \<Rightarrow> Pair \<Rightarrow> doc option" where
  "sideDoc side p = (if side = SideCurrent then newDoc p else oldDoc p)"

definition duplicateWarning :: "(string \<Rightarrow> string) \<Rightarrow> Options \<Rightarrow> Side \<Rightarrow> Doc \<Rightarrow> Doc \<Rightarrow> Warning" where
  "duplicateWarning quote opts side d original =
     (let parent = (case map_of (sideOf side (optSubjects opts)) (pid (docParent d)) of
            Some subject \<Rightarrow> diagnosticString quote subject | None \<Rightarrow> resourceString (pid (docParent d)))
      in \<lparr>wResource = docIdentity (orNil (docManifest d)), wSubject = zeroDiagnostic, wRelated = [],
          wCategory = ''DuplicateDocument'', wMessage = ''duplicate document shadows an earlier document'',
          wDetail = [''side: '' @ sideName side, ''parent: '' @ parent, ''parent path: '' @ ppath (docParent d),
            ''apiVersion: '' @ docAPIVersion (orNil (docManifest original))],
          wCount = 0\<rparr>)"

text \<open>One call of the closure \<^verbatim>\<open>add\<close>; \<open>nl\<close> and \<open>nr\<close> are the lengths of the two sides.\<close>

definition addDoc ::
  "(string \<Rightarrow> string) \<Rightarrow> Options \<Rightarrow> nat \<Rightarrow> nat \<Rightarrow> Side \<Rightarrow> Doc \<times> Doc \<times> nat \<Rightarrow> (pairKey, Pair) gomap \<times> Warning list
     \<Rightarrow> (pairKey, Pair) gomap \<times> Warning list" where
  "addDoc quote opts nl nr side item st = (case item of (d, original, pos) \<Rightarrow> case st of (idx, warnings) \<Rightarrow>
     let k = docKey opts side d;
         p = (case map_of idx k of Some p \<Rightarrow> p
              | None \<Rightarrow> \<lparr>pairParent = docParent d, pairResource = snd k, pairAPIVersion = [], oldPos = nl, newPos = nr,
                        oldDoc = None, newDoc = None, oldChart = [], newChart = []\<rparr>);
         warnings = (if sideDoc side p \<noteq> None then warnings @ [duplicateWarning quote opts side d original] else warnings);
         p = p\<lparr>pairParent := docParent d, pairAPIVersion := docAPIVersion (orNil (docManifest d))\<rparr>;
         chart = chartLabel (docManifest original);
         p = (if side = SideCurrent then p\<lparr>newDoc := docManifest d, newChart := chart, newPos := pos\<rparr>
              else p\<lparr>oldDoc := docManifest d, oldChart := chart, oldPos := pos\<rparr>)
     in (gput k p idx, warnings))"

definition comparePair :: "Pair \<Rightarrow> Pair \<Rightarrow> int" where
  "comparePair a b = cmp_or [compareResource (pid (pairParent a)) (pid (pairParent b)), compareResource (pairResource a) (pairResource b)]"

definition items :: "Doc list \<Rightarrow> Doc list \<Rightarrow> (Doc \<times> Doc \<times> nat) list" where
  "items ns originals = zip ns (zip originals [0..<length originals])"

definition prepareIndex ::
  "digests \<Rightarrow> (string \<Rightarrow> string) \<Rightarrow> Options \<Rightarrow> Doc list \<Rightarrow> Doc list \<Rightarrow> (pairKey, Pair) gomap \<times> Warning list" where
  "prepareIndex dg quote opts left right =
     (let nl = fst (normalizeDocs dg left (optStripAttrs opts) (optStripFields opts) (optNormalize opts));
          nr = fst (normalizeDocs dg right (optStripAttrs opts) (optStripFields opts) (optNormalize opts))
      in fold (addDoc quote opts (length left) (length right) SideCurrent) (items nr right)
           (fold (addDoc quote opts (length left) (length right) SideOrig) (items nl left) ([], [])))"

definition prepare :: "digests \<Rightarrow> (string \<Rightarrow> string) \<Rightarrow> Options \<Rightarrow> Doc list \<Rightarrow> Doc list \<Rightarrow> Prepared" where
  "prepare dg quote opts left right = (case prepareIndex dg quote opts left right of (idx, warnings) \<Rightarrow>
     \<lparr>prepSubjects = optSubjects opts, prepPairs = sortFunc comparePair (map snd idx),
      prepWarnings = sortFunc compareWarning warnings,
      leftCopied = snd (normalizeDocs dg left (optStripAttrs opts) (optStripFields opts) (optNormalize opts)),
      rightCopied = snd (normalizeDocs dg right (optStripAttrs opts) (optStripFields opts) (optNormalize opts))\<rparr>)"

section \<open>Changes\<close>

definition pairStatus :: "Pair \<Rightarrow> string" where
  "pairStatus p = (case (oldDoc p, newDoc p) of
     (None, _) \<Rightarrow> ''added''
   | (_, None) \<Rightarrow> ''removed''
   | (Some a, Some b) \<Rightarrow> if valueEqual (JMap a) (JMap b) then [] else ''changed'')"

text \<open>The sequence \<^verbatim>\<open>Changes\<close> yields when its consumer takes all of it.\<close>

definition changes :: "Prepared \<Rightarrow> (Pair \<times> string) list" where
  "changes pr = List.map_filter (\<lambda>p.
     if pairStatus p = [] then None
     else Some (p\<lparr>oldDoc := (if leftCopied pr then oldDoc p else map_option deepCopyDoc (oldDoc p)),
                  newDoc := (if rightCopied pr then newDoc p else map_option deepCopyDoc (newDoc p))\<rparr>, pairStatus p)) (prepPairs pr)"

section \<open>Images\<close>

text \<open>\<open>parse\<close> is the reference parser: whether a text parses, and then whether it has a tag or a digest.\<close>

definition isImageRef :: "(string \<Rightarrow> (bool \<times> bool) option) \<Rightarrow> string \<Rightarrow> bool \<Rightarrow> bool" where
  "isImageRef parse s declr =
     (if \<not> declr \<and> (length s < 5 \<or> contains s ''://'' \<or> hasPrefix s ''/'') then False
      else if \<not> declr \<and> (\<not> (CHR '':'' \<in> set s \<or> CHR ''@'' \<in> set s) \<or> contains s ''${'' \<or> \<not> contains s ''/'') then False
      else case parse s of None \<Rightarrow> False | Some (tagged, digested) \<Rightarrow> declr \<or> tagged \<or> digested)"

definition childDeclared :: "bool \<Rightarrow> string \<Rightarrow> json \<Rightarrow> bool" where
  "childDeclared declr key child =
     (if declr \<and> key = ''reference'' then (case child of JStr s \<Rightarrow> True | _ \<Rightarrow> False)
      else key = ''image'' \<or> key = ''imageName'' \<or> hasSuffix key ''Image'')"

fun walk :: "(string \<Rightarrow> (bool \<times> bool) option) \<Rightarrow> json \<Rightarrow> bool \<Rightarrow> (string, unit) gomap \<Rightarrow> (string, unit) gomap" where
  "walk parse (JMap m) declr acc = fold (\<lambda>(key, child) acc. walk parse child (childDeclared declr key child) acc) m acc"
| "walk parse (JArr xs) declr acc = fold (\<lambda>x acc. walk parse x False acc) xs acc"
| "walk parse (JStr s) declr acc = (if isImageRef parse s declr then gput s () acc else acc)"
| "walk parse _ declr acc = acc"

definition extractImages :: "(string \<Rightarrow> (bool \<times> bool) option) \<Rightarrow> doc \<Rightarrow> string list" where
  "extractImages parse d = gkeys (walk parse (JMap d) False [])"

definition collect :: "(string \<Rightarrow> (bool \<times> bool) option) \<Rightarrow> batch list \<Rightarrow> (string, unit) gomap" where
  "collect parse bs = fold (\<lambda>bt acc. fold (\<lambda>d acc. fold (\<lambda>img. gput img ()) (extractImages parse d) acc) (bdocs bt) acc) bs []"

definition compareImages ::
  "(string \<Rightarrow> (bool \<times> bool) option) \<Rightarrow> Snapshot \<Rightarrow> Snapshot \<Rightarrow> bool \<Rightarrow> string list \<times> Suppression list" where
  "compareImages parse orig cur includeRemoved =
     (let projection = suppress orig cur;
          origImages = collect parse (keptOrig projection);
          currentImages = collect parse (keptCurrent projection);
          out = filter (\<lambda>img. map_of origImages img = None) (gkeys currentImages) @
                (if includeRemoved then filter (\<lambda>img. map_of currentImages img = None) (gkeys origImages) else [])
      in (sort out, suppressed projection))"

section \<open>The last document wins\<close>

definition lastItem :: "Options \<Rightarrow> Side \<Rightarrow> (Doc \<times> Doc \<times> nat) list \<Rightarrow> pairKey \<Rightarrow> (Doc \<times> Doc \<times> nat) option" where
  "lastItem opts side its k = find (\<lambda>(d, original, pos). docKey opts side d = k) (rev its)"

text \<open>Document, chart label and position one side of a pair holds; \<open>n\<close> is the position of an absent one.\<close>

definition sideState :: "Side \<Rightarrow> Pair \<Rightarrow> doc option \<times> string \<times> nat" where
  "sideState side p = (if side = SideCurrent then (newDoc p, newChart p, newPos p) else (oldDoc p, oldChart p, oldPos p))"

definition itemState :: "nat \<Rightarrow> (Doc \<times> Doc \<times> nat) option \<Rightarrow> doc option \<times> string \<times> nat" where
  "itemState n it = (case it of None \<Rightarrow> (None, [], n)
     | Some (d, original, pos) \<Rightarrow> (docManifest d, chartLabel (docManifest original), pos))"

definition held :: "nat \<Rightarrow> nat \<Rightarrow> (pairKey, Pair) gomap \<Rightarrow> Side \<Rightarrow> pairKey \<Rightarrow> doc option \<times> string \<times> nat" where
  "held nl nr idx side k = (case map_of idx k of
     None \<Rightarrow> (None, [], if side = SideCurrent then nr else nl) | Some p \<Rightarrow> sideState side p)"

lemma addDoc_held:
  assumes "gok idx" and "side \<noteq> SideBoth" and "side' \<noteq> SideBoth" and "addDoc quote opts nl nr side (d, original, pos) (idx, ws) = (idx', ws')"
  shows "gok idx' \<and> map_of idx' k = (if k = docKey opts side d then map_of idx' k else map_of idx k) \<and>
    map_of idx' (docKey opts side d) \<noteq> None \<and>
    held nl nr idx' side' k =
      (if k = docKey opts side d \<and> side' = side then (docManifest d, chartLabel (docManifest original), pos) else held nl nr idx side' k)"
proof -
  define k0 where "k0 = docKey opts side d"
  define p0 where "p0 = (case map_of idx k0 of Some p \<Rightarrow> p
    | None \<Rightarrow> \<lparr>pairParent = docParent d, pairResource = snd k0, pairAPIVersion = [], oldPos = nl, newPos = nr,
              oldDoc = None, newDoc = None, oldChart = [], newChart = []\<rparr>)"
  define p1 where "p1 = p0\<lparr>pairParent := docParent d, pairAPIVersion := docAPIVersion (orNil (docManifest d))\<rparr>"
  define p where "p = (if side = SideCurrent
    then p1\<lparr>newDoc := docManifest d, newChart := chartLabel (docManifest original), newPos := pos\<rparr>
    else p1\<lparr>oldDoc := docManifest d, oldChart := chartLabel (docManifest original), oldPos := pos\<rparr>)"
  have idx': "idx' = gput k0 p idx"
    using assms(4) unfolding p_def p1_def p0_def k0_def addDoc_def Let_def by auto
  have p0: "sideState side' p0 = held nl nr idx side' k0"
    by (simp add: p0_def sideState_def held_def split: option.splits)
  have p: "sideState side' p = (if side' = side then (docManifest d, chartLabel (docManifest original), pos) else held nl nr idx side' k0)"
    using assms(2,3) unfolding p0[symmetric] by (cases side; cases side') (simp_all add: p_def p1_def sideState_def)
  have lk: "map_of idx' x = (if x = k0 then Some p else map_of idx x)" for x
    unfolding idx' by (rule map_of_gput[OF assms(1)])
  show ?thesis
    using lk p gok_gput[OF assms(1), of k0 p] by (auto simp: k0_def[symmetric] idx'[symmetric] held_def)
qed

lemma fold_addDoc_held:
  assumes "gok idx" and "side \<noteq> SideBoth" and "side' \<noteq> SideBoth" and "fold (addDoc quote opts nl nr side) its (idx, ws) = (idx', ws')"
  shows "gok idx' \<and> (map_of idx' k = None \<longleftrightarrow> map_of idx k = None \<and> lastItem opts side its k = None) \<and>
    held nl nr idx' side' k =
      (if side' = side \<and> lastItem opts side its k \<noteq> None then itemState 0 (lastItem opts side its k) else held nl nr idx side' k)"
  using assms(4)
proof (induction its arbitrary: idx' ws' rule: rev_induct)
  case Nil
  then show ?case using assms(1) by (simp add: lastItem_def)
next
  case (snoc it its)
  obtain d original pos where it: "it = (d, original, pos)" by (cases it)
  obtain idx1 ws1 where mid: "fold (addDoc quote opts nl nr side) its (idx, ws) = (idx1, ws1)" by force
  note IH = snoc.IH[OF mid]
  have step: "addDoc quote opts nl nr side (d, original, pos) (idx1, ws1) = (idx', ws')"
    using snoc.prems mid it by simp
  note st = addDoc_held[OF _ assms(2,3) step, of k]
  have last: "lastItem opts side (its @ [it]) k = (if docKey opts side d = k then Some it else lastItem opts side its k)"
    by (simp add: lastItem_def it)
  show ?case
  proof (cases "docKey opts side d = k")
    case True
    then show ?thesis using st IH last it by (simp add: itemState_def)
  next
    case False
    then show ?thesis using st IH last by (cases "lastItem opts side its k") auto
  qed
qed

text \<open>
  Pairing keeps the last document of each side: for every key (the comparison identity of the producer
  and the identity of the normalized document) there is a pair exactly when some document of either side has
  that key, and each side of the pair holds the manifest, the authored chart label and the position of the
  last such document of that side, or nothing with the length of the side as its position.
\<close>

theorem prepare_last_wins:
  assumes "prepareIndex dg quote opts left right = (idx, ws)"
  shows "(let li = lastItem opts SideOrig (items (fst (normalizeDocs dg left (optStripAttrs opts) (optStripFields opts) (optNormalize opts))) left) k;
              ri = lastItem opts SideCurrent (items (fst (normalizeDocs dg right (optStripAttrs opts) (optStripFields opts) (optNormalize opts))) right) k
          in case map_of idx k of
               None \<Rightarrow> li = None \<and> ri = None
             | Some p \<Rightarrow> (li \<noteq> None \<or> ri \<noteq> None) \<and> sideState SideOrig p = itemState (length left) li \<and>
                 sideState SideCurrent p = itemState (length right) ri) \<and>
    set (prepPairs (prepare dg quote opts left right)) = snd ` set idx"
proof -
  define ls where "ls = items (fst (normalizeDocs dg left (optStripAttrs opts) (optStripFields opts) (optNormalize opts))) left"
  define rs where "rs = items (fst (normalizeDocs dg right (optStripAttrs opts) (optStripFields opts) (optNormalize opts))) right"
  let ?add = "addDoc quote opts (length left) (length right)" and ?held = "held (length left) (length right)"
  obtain idx1 ws1 where l: "fold (?add SideOrig) ls ([], []) = (idx1, ws1)" by force
  have r: "fold (?add SideCurrent) rs (idx1, ws1) = (idx, ws)"
    using assms l unfolding prepareIndex_def Let_def ls_def rs_def by simp
  have lf: "gok idx1" "map_of idx1 k = None \<longleftrightarrow> lastItem opts SideOrig ls k = None"
      "?held idx1 SideOrig k = itemState (length left) (lastItem opts SideOrig ls k)"
      "?held idx1 SideCurrent k = (None, [], length right)"
    using fold_addDoc_held[OF gok_Nil _ _ l, of SideOrig k] fold_addDoc_held[OF gok_Nil _ _ l, of SideCurrent k]
    by (auto simp: held_def itemState_def split: option.splits)
  have rf: "map_of idx k = None \<longleftrightarrow> map_of idx1 k = None \<and> lastItem opts SideCurrent rs k = None"
      "?held idx SideOrig k = ?held idx1 SideOrig k"
      "?held idx SideCurrent k = itemState (length right) (lastItem opts SideCurrent rs k)"
    using fold_addDoc_held[OF lf(1) _ _ r, of SideOrig k] fold_addDoc_held[OF lf(1) _ _ r, of SideCurrent k] lf(4)
    by (auto simp: itemState_def split: option.splits)
  have "case map_of idx k of
      None \<Rightarrow> lastItem opts SideOrig ls k = None \<and> lastItem opts SideCurrent rs k = None
    | Some p \<Rightarrow> (lastItem opts SideOrig ls k \<noteq> None \<or> lastItem opts SideCurrent rs k \<noteq> None) \<and>
        sideState SideOrig p = itemState (length left) (lastItem opts SideOrig ls k) \<and>
        sideState SideCurrent p = itemState (length right) (lastItem opts SideCurrent rs k)"
    using lf rf by (cases "map_of idx k") (simp_all add: held_def)
  moreover have "set (prepPairs (prepare dg quote opts left right)) = snd ` set idx"
    by (simp add: prepare_def assms)
  ultimately show ?thesis unfolding Let_def ls_def rs_def by (rule conjI)
qed

text \<open>Two ConfigMaps with one identity on the original side, the second of them also on the current side.\<close>

definition exDoc :: "string \<Rightarrow> Doc" where
  "exDoc v = \<lparr>docManifest = Some [(''apiVersion'', JStr ''v1''), (''kind'', JStr ''ConfigMap''),
     (''metadata'', JMap [(''name'', JStr ''c''), (''x'', JStr v)])], docParent = \<lparr>pid = exID, ppath = []\<rparr>\<rparr>"

definition exOptions :: Options where
  "exOptions = \<lparr>optSubjects = ([], []), optProducerKeys = ([], []), optStripAttrs = [], optStripFields = [], optNormalize = None\<rparr>"

definition exDigests :: digests where
  "exDigests = \<lparr>decodeBase64 = \<lambda>s. None, sha256Hex = \<lambda>s. s\<rparr>"

definition exKey :: pairKey where
  "exKey = (exID, NamedResource [] ''ConfigMap'' [] ''c'')"

theorem prepare_last_wins_witness:
  "\<exists>p. map_of (fst (prepareIndex exDigests id exOptions [exDoc ''1'', exDoc ''2''] [exDoc ''3''])) exKey = Some p \<and>
     sideState SideOrig p = (docManifest (exDoc ''2''), [], 1) \<and> sideState SideCurrent p = (docManifest (exDoc ''3''), [], 0)"
proof -
  obtain idx ws where run: "prepareIndex exDigests id exOptions [exDoc ''1'', exDoc ''2''] [exDoc ''3''] = (idx, ws)" by force
  have key: "docKey exOptions side (exDoc v) = exKey" for side v
    by (simp add: docKey_def exOptions_def exDoc_def exKey_def producerKey_def sideOf_def orNil_def docIdentity_def
        docAPIVersion_def docKind_def docMetadata_def docString_def docMap_def apiGroup_def)
  have plain: "fst (normalizeDocs exDigests ds (optStripAttrs exOptions) (optStripFields exOptions) (optNormalize exOptions)) = ds"
    if "ds = [exDoc ''1'', exDoc ''2''] \<or> ds = [exDoc ''3'']" for ds
    using that by (auto simp: normalizeDocs_def exOptions_def docsContainBinaryData_def exDoc_def configMapBinaryData_def
        docKind_def docString_def docMap_def)
  have last: "lastItem exOptions SideOrig (items [exDoc ''1'', exDoc ''2''] [exDoc ''1'', exDoc ''2'']) exKey = Some (exDoc ''2'', exDoc ''2'', 1)"
    "lastItem exOptions SideCurrent (items [exDoc ''3''] [exDoc ''3'']) exKey = Some (exDoc ''3'', exDoc ''3'', 0)"
    by (simp_all add: lastItem_def items_def key upt_rec)
  have chart: "chartLabel (docManifest (exDoc v)) = []" for v
    by (simp add: chartLabel_def exDoc_def docMap_def)
  show ?thesis
    using prepare_last_wins[OF run, of exKey]
    unfolding Let_def plain[OF disjI1[OF refl]] plain[OF disjI2[OF refl]] last
    by (cases "map_of idx exKey") (simp_all add: run itemState_def chart)
qed

section \<open>Image sets\<close>

inductive occurs :: "(string \<Rightarrow> (bool \<times> bool) option) \<Rightarrow> json \<Rightarrow> bool \<Rightarrow> string \<Rightarrow> bool" for parse where
  inText: "isImageRef parse s declr \<Longrightarrow> occurs parse (JStr s) declr s"
| field: "(key, child) \<in> set m \<Longrightarrow> occurs parse child (childDeclared declr key child) s \<Longrightarrow> occurs parse (JMap m) declr s"
| element: "x \<in> set xs \<Longrightarrow> occurs parse x False s \<Longrightarrow> occurs parse (JArr xs) declr s"

inductive_simps occurs_simps:
  "occurs parse (JStr t) declr s" "occurs parse (JMap m) declr s" "occurs parse (JArr xs) declr s"

inductive_cases occurs_scalar: "occurs parse v declr s"

lemma fold_set_growth:
  assumes "\<And>x acc. x \<in> set xs \<Longrightarrow> gok acc \<Longrightarrow> gok (f x acc) \<and> fst ` set (f x acc) = fst ` set acc \<union> g x" and "gok acc"
  shows "gok (fold f xs acc) \<and> fst ` set (fold f xs acc) = fst ` set acc \<union> (\<Union>x \<in> set xs. g x)"
  using assms
proof (induction xs arbitrary: acc)
  case (Cons x xs)
  have x: "gok (f x acc)" "fst ` set (f x acc) = fst ` set acc \<union> g x" using Cons.prems by auto
  then show ?case using Cons.IH[of "f x acc"] Cons.prems(1) by auto
qed simp

lemma walk_occurs: "gok acc \<Longrightarrow> gok (walk parse v declr acc) \<and> fst ` set (walk parse v declr acc) = fst ` set acc \<union> {s. occurs parse v declr s}"
proof (induction parse v declr acc rule: walk.induct)
  case (1 parse m declr acc)
  have "gok (fold (\<lambda>(key, child) acc. walk parse child (childDeclared declr key child) acc) m acc) \<and>
      fst ` set (fold (\<lambda>(key, child) acc. walk parse child (childDeclared declr key child) acc) m acc) =
      fst ` set acc \<union> (\<Union>x \<in> set m. {s. occurs parse (snd x) (childDeclared declr (fst x) (snd x)) s})"
    by (rule fold_set_growth) (use 1 in \<open>auto split: prod.splits\<close>)
  moreover have "(\<Union>x \<in> set m. {s. occurs parse (snd x) (childDeclared declr (fst x) (snd x)) s}) = {s. occurs parse (JMap m) declr s}"
    by (force simp: occurs_simps)
  ultimately show ?case by simp
next
  case (2 parse xs declr acc)
  have "gok (fold (\<lambda>x acc. walk parse x False acc) xs acc) \<and>
      fst ` set (fold (\<lambda>x acc. walk parse x False acc) xs acc) = fst ` set acc \<union> (\<Union>x \<in> set xs. {s. occurs parse x False s})"
    by (rule fold_set_growth) (use 2 in auto)
  moreover have "(\<Union>x \<in> set xs. {s. occurs parse x False s}) = {s. occurs parse (JArr xs) declr s}"
    by (auto simp: occurs_simps)
  ultimately show ?case by simp
next
  case (3 parse s declr acc)
  then show ?case by (auto simp: occurs_simps gok_gput fst_set_gput)
qed (auto elim: occurs_scalar)

lemma extractImages_occurs: "set (extractImages parse d) = {s. occurs parse (JMap d) False s}"
  using walk_occurs[OF gok_Nil, of parse "JMap d" False] by (simp add: extractImages_def gkeys_def)

definition imagesOf :: "(string \<Rightarrow> (bool \<times> bool) option) \<Rightarrow> batch list \<Rightarrow> string set" where
  "imagesOf parse bs = {s. \<exists>bt \<in> set bs. \<exists>d \<in> set (bdocs bt). occurs parse (JMap d) False s}"

lemma collect_images: "gok (collect parse bs) \<and> fst ` set (collect parse bs) = imagesOf parse bs"
proof -
  have puts: "gok acc \<Longrightarrow> gok (fold (\<lambda>img. gput img ()) xs acc) \<and> fst ` set (fold (\<lambda>img. gput img ()) xs acc) = fst ` set acc \<union> set xs"
    for xs :: "string list" and acc :: "(string, unit) gomap"
    using fold_set_growth[of xs "\<lambda>img. gput img ()" "\<lambda>x. {x}" acc] by (auto simp: gok_gput fst_set_gput)
  have docs: "gok acc \<Longrightarrow> gok (fold (\<lambda>d acc. fold (\<lambda>img. gput img ()) (extractImages parse d) acc) ds acc) \<and>
      fst ` set (fold (\<lambda>d acc. fold (\<lambda>img. gput img ()) (extractImages parse d) acc) ds acc) =
      fst ` set acc \<union> (\<Union>d \<in> set ds. {s. occurs parse (JMap d) False s})" for ds acc
    by (rule fold_set_growth) (use puts extractImages_occurs in auto)
  have "gok (collect parse bs) \<and> fst ` set (collect parse bs) = fst ` set ([] :: (string, unit) gomap) \<union> (\<Union>bt \<in> set bs. \<Union>d \<in> set (bdocs bt). {s. occurs parse (JMap d) False s})"
    unfolding collect_def by (rule fold_set_growth) (use docs in auto)
  then show ?thesis by (auto simp: imagesOf_def)
qed

text \<open>
  C40. The image comparison is exact on what suppression keeps: the result is strictly sorted and lists
  exactly the references that occur in a kept current document and in no kept original one, plus, when removals
  are requested, those that occur in a kept original document and in no kept current one.
\<close>

theorem compareImages_exact:
  "sorted_wrt (<) (fst (compareImages parse orig cur includeRemoved)) \<and>
   set (fst (compareImages parse orig cur includeRemoved)) =
     (imagesOf parse (keptCurrent (suppress orig cur)) - imagesOf parse (keptOrig (suppress orig cur))) \<union>
     (if includeRemoved then imagesOf parse (keptOrig (suppress orig cur)) - imagesOf parse (keptCurrent (suppress orig cur)) else {})"
proof -
  let ?o = "collect parse (keptOrig (suppress orig cur))" and ?c = "collect parse (keptCurrent (suppress orig cur))"
  note o = collect_images[of parse "keptOrig (suppress orig cur)"] and c = collect_images[of parse "keptCurrent (suppress orig cur)"]
  let ?out = "filter (\<lambda>img. map_of ?o img = None) (gkeys ?c) @ (if includeRemoved then filter (\<lambda>img. map_of ?c img = None) (gkeys ?o) else [])"
  have "distinct (gkeys ?c)" "distinct (gkeys ?o)" using o c gok_distinct by (auto simp: gkeys_def)
  moreover have "set (gkeys ?c) \<inter> {img. map_of ?c img = None} = {}" by (auto simp: gkeys_def map_of_eq_None_iff)
  ultimately have "distinct ?out" by auto
  then have "sorted_wrt (<) (sort ?out)" by (simp add: strict_sorted_iff)
  moreover have "set ?out = (fst ` set ?c - fst ` set ?o) \<union> (if includeRemoved then fst ` set ?o - fst ` set ?c else {})"
    by (auto simp: gkeys_def map_of_eq_None_iff)
  ultimately show ?thesis using o c by (simp add: compareImages_def Let_def)
qed

end
