(* ===== verification/ResourceSets.thy ===== *)
theory ResourceSets
  imports Documents "HOL-Library.Word"
begin

text \<open>
  ResourceSets: the composition of inputs (\<^verbatim>\<open>internal/resourcesetinput\<close>: \<^verbatim>\<open>permute.go\<close>, \<^verbatim>\<open>inputs.go\<close>) and the
  rendering of steps (\<^verbatim>\<open>pkg/resourceset\<close>: \<^verbatim>\<open>inputs.go\<close>, \<^verbatim>\<open>render.go\<close>, \<^verbatim>\<open>output.go\<close>).

  The Unicode tables and the decoding of a string into runes are a parameter (\<open>unicodeTables\<close>), as are the
  constants of the operator's API package (\<open>fluxop\<close>) and the template and YAML libraries (\<open>engine\<close>). The
  loop over permutations has no bound in the source; \<open>permuteLoop\<close> is \<^const>\<open>None\<close> where it would not
  return, and \<open>permute_product\<close> shows that it always does. A counter of expected permutations is a
  64-bit word.
\<close>

section \<open>Permutations\<close>

record unicodeTables =
  runes :: "string \<Rightarrow> nat list"
  toLower :: "nat \<Rightarrow> nat"
  isSpace :: "nat \<Rightarrow> bool"
  isPunct :: "nat \<Rightarrow> bool"
  equalFold :: "string \<Rightarrow> string \<Rightarrow> bool"
  trimSpace :: "string \<Rightarrow> string"

record inputGroup =
  gName :: string
  gInputs :: "doc list"

datatype permuteError = EmptyProviderName string | TooManyPermutations string nat

definition maxPermutations :: nat where "maxPermutations = 10000"

fun normalizeLoop :: "unicodeTables \<Rightarrow> bool \<Rightarrow> string \<Rightarrow> nat list \<Rightarrow> string" where
  "normalizeLoop u pending out [] = out"
| "normalizeLoop u pending out (r # rs) =
     (let r = toLower u r
      in if isSpace u r \<or> isPunct u r then normalizeLoop u True out rs
         else if 97 \<le> r \<and> r \<le> 122 \<or> 48 \<le> r \<and> r \<le> 57
         then normalizeLoop u False (out @ (if pending \<and> out \<noteq> [] then ''_'' else []) @ [char_of r]) rs
         else normalizeLoop u pending out rs)"

definition normalizeKeyForTemplate :: "unicodeTables \<Rightarrow> string \<Rightarrow> string" where
  "normalizeKeyForTemplate u s = normalizeLoop u False [] (runes u s)"

text \<open>\<^verbatim>\<open>adler32.Checksum\<close>: two sums modulo 65521, the second in the upper half of the word.\<close>

definition adler32 :: "string \<Rightarrow> nat" where
  "adler32 s = (case foldl (\<lambda>(a, b) c. let a' = (a + of_char c) mod 65521 in (a', (b + a') mod 65521)) (1, 0) s of
     (a, b) \<Rightarrow> b * 65536 + a)"

definition permID :: "string \<Rightarrow> string" where
  "permID s = showNat (adler32 s)"

type_synonym scopedProvider = "string \<times> doc list"

text \<open>The first loop of \<open>Permute\<close>; \<open>None\<close> is its early return without a result.\<close>

fun scopeProviders :: "unicodeTables \<Rightarrow> bool \<Rightarrow> inputGroup list \<Rightarrow> 64 word \<Rightarrow> scopedProvider list \<Rightarrow>
    permuteError + (64 word \<times> scopedProvider list) option" where
  "scopeProviders u includeEmpty [] expected scoped = Inr (Some (expected, scoped))"
| "scopeProviders u includeEmpty (g # gs) expected scoped =
     (if gInputs g = [] then (if includeEmpty then Inr None else scopeProviders u includeEmpty gs expected scoped)
      else
        let norm = normalizeKeyForTemplate u (gName g)
        in if norm = [] then Inl (EmptyProviderName (gName g))
           else
             let expected = expected * of_nat (length (gInputs g))
             in if expected > of_nat maxPermutations
                then Inl (TooManyPermutations (gName g) (length (gInputs g)))
                else scopeProviders u includeEmpty gs expected (scoped @ [(norm, gInputs g)]))"

fun advanceFrom :: "nat \<Rightarrow> nat list \<Rightarrow> scopedProvider list \<Rightarrow> nat list \<times> bool" where
  "advanceFrom 0 selected scoped = (selected, False)"
| "advanceFrom (Suc i) selected scoped =
     (let selected = selected[i := selected ! i + 1]
      in if selected ! i < length (snd (scoped ! i)) then (selected, True)
         else advanceFrom i (selected[i := 0]) scoped)"

definition advancePermutation :: "nat list \<Rightarrow> scopedProvider list \<Rightarrow> nat list \<times> bool" where
  "advancePermutation selected scoped = advanceFrom (length scoped) selected scoped"

definition permutationAt :: "scopedProvider list \<Rightarrow> nat list \<Rightarrow> doc" where
  "permutationAt scoped sel =
     (let chosen = zip scoped sel;
          perm = foldl (\<lambda>m ((name, sets), k). gput name (JMap (sets ! k)) m) [] chosen
      in gput ''id'' (JStr (permID (joinWith ''/'' (map (\<lambda>((name, sets), k). name @ ''='' @ showNat k) chosen)))) perm)"

partial_function (option) permuteLoop :: "scopedProvider list \<Rightarrow> nat list \<Rightarrow> doc list \<Rightarrow> doc list option" where
  "permuteLoop scoped sel out =
     (let out = out @ [permutationAt scoped sel]
      in case advancePermutation sel scoped of
           (sel', again) \<Rightarrow> if \<not> again then Some out else permuteLoop scoped sel' out)"

definition permute :: "unicodeTables \<Rightarrow> inputGroup list \<Rightarrow> bool \<Rightarrow> (permuteError + doc list) option" where
  "permute u groups includeEmpty = (case scopeProviders u includeEmpty groups 1 [] of
     Inl e \<Rightarrow> Some (Inl e)
   | Inr None \<Rightarrow> Some (Inr [])
   | Inr (Some (expected, scoped)) \<Rightarrow>
       if scoped = [] then Some (Inr [])
       else map_option Inr (permuteLoop scoped (replicate (length scoped) 0) []))"

section \<open>Input sets\<close>

text \<open>Constants of the operator's API package.\<close>

record fluxop =
  groupVersion :: string
  permuteStrategy :: string
  reconcileAnnotation :: string
  disabledValue :: string

definition inputProvider :: "fluxop \<Rightarrow> string \<Rightarrow> string \<Rightarrow> string \<Rightarrow> doc" where
  "inputProvider api kind name ns =
     [(''apiVersion'', JStr (groupVersion api)), (''kind'', JStr kind), (''name'', JStr name), (''namespace'', JStr ns)]"

text \<open>One inline input: values that are nil, and raw JSON that decodes or is left out.\<close>

definition decodeInput :: "(string \<Rightarrow> json option) \<Rightarrow> (string \<times> string option) list \<Rightarrow> doc" where
  "decodeInput unmarshal input = foldl (\<lambda>m (key, value). case value of
       None \<Rightarrow> gput key JNull m
     | Some raw \<Rightarrow> (case unmarshal raw of None \<Rightarrow> m | Some v \<Rightarrow> gput key v m)) [] input"

definition inlineInputs :: "fluxop \<Rightarrow> (string \<Rightarrow> json option) \<Rightarrow> string \<Rightarrow> string \<Rightarrow> (string \<times> string option) list list \<Rightarrow> inputGroup" where
  "inlineInputs api unmarshal name ns inputs =
     \<lparr>gName = name,
      gInputs = map (\<lambda>input. gput ''provider'' (JMap (inputProvider api ''ResourceSet'' name ns)) (decodeInput unmarshal input)) inputs\<rparr>"

record inputStrategy =
  stratName :: string
  includeEmptyProviders :: bool

definition combine :: "fluxop \<Rightarrow> unicodeTables \<Rightarrow> inputGroup list \<Rightarrow> inputStrategy option \<Rightarrow> (permuteError + doc list) option" where
  "combine api u groups strategy = (case strategy of
     Some s \<Rightarrow> if stratName s = permuteStrategy api then permute u groups (includeEmptyProviders s)
                else Some (Inr (concat (map gInputs groups)))
   | None \<Rightarrow> Some (Inr (concat (map gInputs groups))))"

datatype ProviderInputState = ProviderInputEvaluated | ProviderInputUnsupported | ProviderInputUnavailable

record ProviderInputs =
  piID :: NamedResource
  piType :: string
  piState :: ProviderInputState
  piInputs :: "doc list"

text \<open>A ResourceSet; a raw JSON resource may be nil.\<close>

record rsStep =
  stepName :: string
  stepResources :: "string option list"
  stepTemplate :: string

record 'ref ResourceSet =
  rsName :: string
  rsNamespace :: string
  rsInputs :: "(string \<times> string option) list list"
  rsInputsFrom :: "'ref list"
  rsStrategy :: "inputStrategy option"
  rsSteps :: "rsStep list"
  rsResources :: "string option list"
  rsTemplate :: string

definition providerGroup :: "fluxop \<Rightarrow> ProviderInputs \<Rightarrow> inputGroup" where
  "providerGroup api p =
     \<lparr>gName = Name (piID p),
      gInputs = map (\<lambda>input. gput ''provider'' (JMap (inputProvider api (Kind (piID p)) (Name (piID p)) (Namespace (piID p))))
                              (deepCopyDoc input)) (piInputs p)\<rparr>"

definition buildInputSets :: "fluxop \<Rightarrow> unicodeTables \<Rightarrow> (string \<Rightarrow> json option) \<Rightarrow> 'ref ResourceSet \<Rightarrow> ProviderInputs list \<Rightarrow>
    (permuteError + doc list) option" where
  "buildInputSets api u unmarshal rs providers =
     combine api u (inlineInputs api unmarshal (rsName rs) (rsNamespace rs) (rsInputs rs) # map (providerGroup api) providers)
       (rsStrategy rs)"
section \<open>The odometer\<close>

text \<open>\<open>tuples\<close> are all choices in lexicographic order, \<open>later\<close> those after a given one.\<close>

definition tuples :: "nat list \<Rightarrow> nat list list" where
  "tuples ns = product_lists (map (\<lambda>n. [0..<n]) ns)"

fun later :: "nat list \<Rightarrow> nat list \<Rightarrow> nat list list" where
  "later (n # ns) (s # sel) = map (Cons s) (later ns sel) @ concat (map (\<lambda>k. map (Cons k) (tuples ns)) [Suc s..<n])"
| "later ns sel = []"

fun successor :: "nat list \<Rightarrow> nat list \<Rightarrow> nat list \<times> bool" where
  "successor (n # ns) (s # sel) = (case successor ns sel of (sel', again) \<Rightarrow>
     if again then (s # sel', True) else if Suc s < n then (Suc s # sel', True) else (0 # sel', False))"
| "successor ns sel = ([], False)"

lemma tuples_Cons: "tuples (n # ns) = concat (map (\<lambda>k. map (Cons k) (tuples ns)) [0..<n])"
  by (simp add: tuples_def)

lemma tuples_zeros: "list_all (\<lambda>n. 0 < n) ns \<Longrightarrow> tuples ns = replicate (length ns) 0 # later ns (replicate (length ns) 0)"
proof (induction ns)
  case (Cons n ns)
  then have "[0..<n] = 0 # [Suc 0..<n]" by (simp add: upt_rec)
  then show ?case using Cons by (simp add: tuples_Cons)
qed (simp add: tuples_def)

lemma successor_snoc:
  "length sel = length ns \<Longrightarrow> successor (ns @ [n]) (sel @ [s]) =
     (if Suc s < n then (sel @ [Suc s], True) else (fst (successor ns sel) @ [0], snd (successor ns sel)))"
  by (induction sel ns rule: list_induct2) (auto split: prod.splits)

lemma advanceFrom_successor:
  "length sel = length scoped \<Longrightarrow> advanceFrom (length scoped) (sel @ more_sel) (scoped @ rest) =
     (fst (successor (map (length \<circ> snd) scoped) sel) @ more_sel, snd (successor (map (length \<circ> snd) scoped) sel))"
proof (induction scoped arbitrary: sel more_sel rest rule: rev_induct)
  case (snoc p scoped)
  obtain ss s where sel: "sel = ss @ [s]" using snoc.prems by (cases sel rule: rev_cases) auto
  have len: "length ss = length scoped" using snoc.prems sel by simp
  show ?case
    using snoc.IH[OF len, of "0 # more_sel" "p # rest"] len
    by (simp add: sel successor_snoc Let_def nth_append list_update_append)
qed simp

lemma successor_later:
  "list_all2 (<) sel ns \<Longrightarrow> (case later ns sel of
     [] \<Rightarrow> successor ns sel = (replicate (length ns) 0, False)
   | t # ts \<Rightarrow> successor ns sel = (t, True) \<and> list_all2 (<) t ns \<and> later ns t = ts)"
proof (induction sel ns rule: list_all2_induct)
  case (Cons s sel n ns)
  have pos: "list_all (\<lambda>n. 0 < n) ns" using Cons.hyps(2) by (induction rule: list_all2_induct) auto
  have zeros: "list_all2 (<) (replicate (length ns) 0) ns" using pos by (induction ns) auto
  show ?case
  proof (cases "later ns sel")
    case Nil
    show ?thesis
    proof (cases "Suc s < n")
      case True
      then have "[Suc s..<n] = Suc s # [Suc (Suc s)..<n]" by (simp add: upt_rec)
      then show ?thesis using Cons.IH Nil True zeros tuples_zeros[OF pos] by simp
    qed (use Cons.IH Nil in simp)
  next
    case (Cons t ts)
    then show ?thesis using Cons.IH Cons.hyps(1) by simp
  qed
qed simp

lemma permuteLoop_returns:
  assumes "list_all2 (<) sel (map (length \<circ> snd) scoped)"
  shows "permuteLoop scoped sel out =
    Some (out @ map (permutationAt scoped) (sel # later (map (length \<circ> snd) scoped) sel))"
  using assms
proof (induction "later (map (length \<circ> snd) scoped) sel" arbitrary: sel out)
  case Nil
  have len: "length sel = length scoped" using Nil.prems by (simp add: list_all2_lengthD)
  have "successor (map (length \<circ> snd) scoped) sel = (replicate (length scoped) 0, False)"
    using successor_later[OF Nil.prems] Nil.hyps[symmetric] by simp
  then have "advancePermutation sel scoped = (replicate (length scoped) 0, False)"
    using advanceFrom_successor[OF len, of "[]" "[]"] by (simp add: advancePermutation_def)
  then show ?case using Nil.hyps[symmetric] by (simp add: permuteLoop.simps)
next
  case (Cons t ts)
  have len: "length sel = length scoped" using Cons.prems by (simp add: list_all2_lengthD)
  have next_t: "successor (map (length \<circ> snd) scoped) sel = (t, True)" "list_all2 (<) t (map (length \<circ> snd) scoped)"
      "later (map (length \<circ> snd) scoped) t = ts"
    using successor_later[OF Cons.prems] Cons.hyps(2)[symmetric] by simp_all
  then have "advancePermutation sel scoped = (t, True)"
    using advanceFrom_successor[OF len, of "[]" "[]"] by (simp add: advancePermutation_def)
  then show ?case
    using Cons.hyps(1)[OF next_t(3)[symmetric] next_t(2)] Cons.hyps(2)[symmetric] next_t(3)
    by (subst permuteLoop.simps) simp
qed

section \<open>Permutations are the bounded product\<close>

definition nonEmpty :: "inputGroup list \<Rightarrow> inputGroup list" where
  "nonEmpty gs = filter (\<lambda>g. gInputs g \<noteq> []) gs"

definition scopedOf :: "unicodeTables \<Rightarrow> inputGroup list \<Rightarrow> scopedProvider list" where
  "scopedOf u gs = map (\<lambda>g. (normalizeKeyForTemplate u (gName g), gInputs g)) (nonEmpty gs)"

definition combinations :: "inputGroup list \<Rightarrow> nat" where
  "combinations gs = prod_list (map (length \<circ> gInputs) (nonEmpty gs))"

lemma combinations_simps [simp]: "combinations [] = 1"
    "combinations (g # gs) = (if gInputs g = [] then combinations gs else length (gInputs g) * combinations gs)"
  by (simp_all add: combinations_def nonEmpty_def)

lemma combinations_pos: "0 < combinations gs"
  by (induction gs) auto

lemma scopedOf_simps [simp]: "scopedOf u [] = []"
    "scopedOf u (g # gs) = (if gInputs g = [] then scopedOf u gs else (normalizeKeyForTemplate u (gName g), gInputs g) # scopedOf u gs)"
  by (simp_all add: scopedOf_def nonEmpty_def)

definition unnamed :: "unicodeTables \<Rightarrow> inputGroup list \<Rightarrow> bool" where
  "unnamed u gs \<longleftrightarrow> (\<exists>g \<in> set (nonEmpty gs). normalizeKeyForTemplate u (gName g) = [])"

lemma unnamed_simps [simp]: "\<not> unnamed u []"
    "unnamed u (g # gs) \<longleftrightarrow> gInputs g \<noteq> [] \<and> normalizeKeyForTemplate u (gName g) = [] \<or> unnamed u gs"
  by (auto simp: unnamed_def nonEmpty_def)

lemma unat_expected:
  fixes w :: "64 word"
  assumes "unat w \<le> maxPermutations" and "n < 2 ^ 48"
  shows "unat (w * of_nat n) = unat w * n"
proof -
  have "unat w * n \<le> 10000 * 2 ^ 48" using assms by (intro mult_mono) (simp_all add: maxPermutations_def)
  then have "unat w * n < 2 ^ 64" by simp
  moreover have "unat (of_nat n :: 64 word) = n" using assms(2) by (simp add: unat_of_nat take_bit_nat_eq_self)
  ultimately show ?thesis by (simp add: unat_mult_lem[THEN iffD1])
qed

lemma scopeProviders_spec:
  assumes "\<forall>g \<in> set gs. length (gInputs g) < 2 ^ 48" and "unat expected \<le> maxPermutations"
  shows "case scopeProviders u includeEmpty gs expected scoped of
     Inl e \<Rightarrow> unnamed u gs \<or> maxPermutations < unat expected * combinations gs
   | Inr None \<Rightarrow> includeEmpty \<and> (\<exists>g \<in> set gs. gInputs g = [])
   | Inr (Some (w, sc)) \<Rightarrow> sc = scoped @ scopedOf u gs \<and> \<not> unnamed u gs \<and> unat expected * combinations gs \<le> maxPermutations \<and>
       \<not> (includeEmpty \<and> (\<exists>g \<in> set gs. gInputs g = []))"
  using assms
proof (induction gs arbitrary: expected scoped)
  case (Cons g gs)
  let ?e = "expected * of_nat (length (gInputs g))"
  have gs: "\<forall>g \<in> set gs. length (gInputs g) < 2 ^ 48" using Cons.prems(1) by simp
  have e: "unat ?e = unat expected * length (gInputs g)" using unat_expected Cons.prems by simp
  show ?case
  proof (cases "gInputs g = [] \<or> normalizeKeyForTemplate u (gName g) = []")
    case True
    then show ?thesis using Cons.IH[OF gs Cons.prems(2), of scoped]
      by (cases "gInputs g = []"; cases includeEmpty) (simp_all split: sum.splits option.splits prod.splits)
  next
    case False
    have limit: "?e > of_nat maxPermutations \<longleftrightarrow> maxPermutations < unat ?e"
      by (simp add: word_less_nat_alt maxPermutations_def)
    show ?thesis
    proof (cases "?e > of_nat maxPermutations")
      case True
      have "unat ?e * 1 \<le> unat ?e * combinations gs" using combinations_pos[of gs] by (intro mult_le_mono2) simp
      then have "maxPermutations < unat ?e * combinations gs" using True limit by linarith
      then have "maxPermutations < unat expected * combinations (g # gs)" using e False by (simp add: mult.assoc)
      then show ?thesis using True False by simp
    next
      case small: False
      then have "unat ?e \<le> maxPermutations" using limit by simp
      from Cons.IH[OF gs this, of "scoped @ [(normalizeKeyForTemplate u (gName g), gInputs g)]"] small False e
      show ?thesis by (simp add: Let_def mult.assoc split: sum.splits option.splits prod.splits)
    qed
  qed
qed simp

text \<open>
  C29. Permuting the inputs always ends, within the bound. For groups of fewer than \<open>2 ^ 48\<close> inputs each (so that
  the 64-bit counter cannot wrap) \<open>Permute\<close> returns. It fails only when a group with inputs has a name that
  normalizes to nothing or there are more than 10000 combinations. Otherwise the result is the product of
  the groups that have inputs, every choice once, in lexicographic order, at most 10000 of them; it is
  empty when no group has inputs, or when an empty group is to be included.
\<close>

theorem permute_product:
  assumes "\<forall>g \<in> set groups. length (gInputs g) < 2 ^ 48"
  shows "\<exists>r. permute u groups includeEmpty = Some r \<and> (case r of
     Inl e \<Rightarrow> unnamed u groups \<or> maxPermutations < combinations groups
   | Inr out \<Rightarrow>
       if scopedOf u groups = [] \<or> includeEmpty \<and> (\<exists>g \<in> set groups. gInputs g = []) then out = []
       else out = map (permutationAt (scopedOf u groups)) (tuples (map (length \<circ> snd) (scopedOf u groups))) \<and>
            length out = combinations groups \<and> length out \<le> maxPermutations \<and> \<not> unnamed u groups)"
proof -
  have one: "unat (1 :: 64 word) \<le> maxPermutations" by (simp add: maxPermutations_def)
  note spec = scopeProviders_spec[OF assms one, of u includeEmpty "[]"]
  have pos: "list_all (\<lambda>n. 0 < n) (map (length \<circ> snd) (scopedOf u groups))"
    by (auto simp: scopedOf_def nonEmpty_def list_all_iff)
  have sizes: "length (tuples (map (length \<circ> snd) (scopedOf u groups))) = combinations groups"
    by (simp add: tuples_def combinations_def length_product_lists scopedOf_def comp_def foldr_map prod_list.eq_foldr)
  show ?thesis
  proof (cases "scopeProviders u includeEmpty groups 1 []")
    case (Inl e)
    then show ?thesis using spec by (simp add: permute_def)
  next
    case (Inr res)
    show ?thesis
    proof (cases res)
      case None
      then show ?thesis using spec Inr by (simp add: permute_def)
    next
      case (Some ws)
      obtain w sc where ws: "ws = (w, sc)" by (cases ws)
      have sc: "sc = scopedOf u groups" "\<not> unnamed u groups" "combinations groups \<le> maxPermutations"
          "\<not> (includeEmpty \<and> (\<exists>g \<in> set groups. gInputs g = []))"
        using spec Inr Some ws by simp_all
      show ?thesis
      proof (cases "sc = []")
        case True
        then show ?thesis using Inr Some ws sc by (simp add: permute_def)
      next
        case False
        let ?ns = "map (length \<circ> snd) sc" let ?z = "replicate (length sc) (0 :: nat)"
        have "list_all2 (<) ?z ?ns" using pos unfolding sc(1)[symmetric] by (induction sc) auto
        then have "permuteLoop sc ?z [] = Some (map (permutationAt sc) (tuples ?ns))"
          using permuteLoop_returns[of ?z sc "[]"] tuples_zeros[of ?ns] pos sc(1) by simp
        then have "permute u groups includeEmpty = Some (Inr (map (permutationAt sc) (tuples ?ns)))"
          using Inr Some ws False by (simp add: permute_def)
        then show ?thesis using False sc sizes by auto
      qed
    qed
  qed
qed

definition asciiTables :: unicodeTables where
  "asciiTables = \<lparr>runes = map of_char, toLower = (\<lambda>r. if 65 \<le> r \<and> r \<le> 90 then r + 32 else r), isSpace = (\<lambda>r. r = 32),
     isPunct = (\<lambda>r. r = 45 \<or> r = 46), equalFold = (=), trimSpace = dropWhile (\<lambda>c. c = CHR '' '')\<rparr>"

definition exGroups :: "inputGroup list" where
  "exGroups = [\<lparr>gName = ''App-One'', gInputs = [[], [(''a'', JInt 1)]]\<rparr>, \<lparr>gName = ''two'', gInputs = [[(''b'', JInt 2)]]\<rparr>]"

theorem permute_product_witness:
  "permute asciiTables exGroups False = Some (Inr (map (permutationAt (scopedOf asciiTables exGroups)) [[0, 0], [1, 0]])) \<and>
   map fst (scopedOf asciiTables exGroups) = [''app_one'', ''two'']"
proof -
  have size: "\<forall>g \<in> set exGroups. length (gInputs g) < 2 ^ 48" by (simp add: exGroups_def)
  have names: "map fst (scopedOf asciiTables exGroups) = [''app_one'', ''two'']" by code_simp
  have sc: "scopedOf asciiTables exGroups \<noteq> []" using names by auto
  have ok: "\<not> unnamed asciiTables exGroups" "\<not> maxPermutations < combinations exGroups" by code_simp+
  have ts: "tuples (map (length \<circ> snd) (scopedOf asciiTables exGroups)) = [[0, 0], [1, 0]]" by code_simp
  show ?thesis
  proof (cases "permute asciiTables exGroups False")
    case (Some r)
    then show ?thesis using permute_product[OF size, of asciiTables False] sc ok names by (cases r) (simp_all add: ts)
  qed (use permute_product[OF size, of asciiTables False] in simp)
qed

section \<open>Providers\<close>

record inputProviderDecl =
  ipNamed :: NamedResource
  ipType :: string
  ipLabels :: "(string \<times> string) list"

record referenceEdge =
  edgeUse :: string
  edgePosition :: nat
  edgeResource :: NamedResource

text \<open>
  The loops of \<open>CollectProviders\<close>: the first declaration of an identity is kept. The edges are what the
  reference walk over the ResourceSet yields, the resolver answers one reference.
\<close>

fun keepProviders :: "inputProviderDecl option list \<Rightarrow> (NamedResource, inputProviderDecl) gomap \<Rightarrow> (NamedResource, inputProviderDecl) gomap" where
  "keepProviders [] m = m"
| "keepProviders (p # ps) m = (case p of
     None \<Rightarrow> keepProviders ps m
   | Some d \<Rightarrow> keepProviders ps (if map_of m (ipNamed d) = None then gput (ipNamed d) d m else m))"

fun collectLoop :: "('ref \<Rightarrow> NamedResource \<Rightarrow> string + inputProviderDecl option list) \<Rightarrow> 'ref list \<Rightarrow> referenceEdge list \<Rightarrow>
    (NamedResource, inputProviderDecl) gomap \<Rightarrow> string + (NamedResource, inputProviderDecl) gomap" where
  "collectLoop resolve refs [] m = Inr m"
| "collectLoop resolve refs (e # es) m =
     (if edgeUse e \<noteq> ''inputsFrom'' then collectLoop resolve refs es m
      else case resolve (refs ! edgePosition e) (edgeResource e) of
        Inl x \<Rightarrow> Inl x
      | Inr matches \<Rightarrow> collectLoop resolve refs es (keepProviders matches m))"

definition collectProviders :: "('ref \<Rightarrow> NamedResource \<Rightarrow> string + inputProviderDecl option list) option \<Rightarrow> referenceEdge list \<Rightarrow>
    'ref ResourceSet \<Rightarrow> string + ProviderInputs list" where
  "collectProviders resolver edges rs = (case resolver of
     None \<Rightarrow> Inr []
   | Some resolve \<Rightarrow>
       if rsInputsFrom rs = [] then Inr []
       else map_sum id (\<lambda>m. sortFunc (\<lambda>a b. compareResource (piID a) (piID b))
              (map (\<lambda>(k, d). \<lparr>piID = ipNamed d, piType = ipType d, piState = ProviderInputEvaluated, piInputs = []\<rparr>) m))
              (collectLoop resolve (rsInputsFrom rs) edges []))"

text \<open>
  The selector cache of \<open>StoreResolver\<close>. A selector is a pointer: an address, or nil. Compiling a selector
  is done by the label library.
\<close>

type_synonym labelMatcher = "NamedResource \<Rightarrow> (string \<times> string) list \<Rightarrow> bool"
type_synonym providerQuery = "NamedResource \<times> nat option"
type_synonym providerCompilation = "string + labelMatcher"

record providerSelectorCache =
  firstQuery :: providerQuery
  firstCompilation :: providerCompilation
  selectors :: "(providerQuery \<times> providerCompilation) list"

definition newSelectorCache :: providerSelectorCache where
  "newSelectorCache = \<lparr>firstQuery = (zeroResource, None), firstCompilation = Inr (\<lambda>_ _. False), selectors = []\<rparr>"

definition compileSelector :: "(NamedResource \<Rightarrow> nat option \<Rightarrow> providerCompilation) \<Rightarrow> NamedResource \<Rightarrow> nat option \<Rightarrow>
    providerSelectorCache \<Rightarrow> providerCompilation \<times> providerSelectorCache" where
  "compileSelector matcher iden selector c =
     (let key = (iden, selector)
      in if key = firstQuery c then (firstCompilation c, c)
         else case map_of (selectors c) key of
           Some compiled \<Rightarrow> (compiled, c)
         | None \<Rightarrow>
             let compiled = matcher iden selector
             in if snd (firstQuery c) = None then (compiled, c\<lparr>firstQuery := key, firstCompilation := compiled\<rparr>)
                else (compiled, c\<lparr>selectors := (key, compiled) # selectors c\<rparr>))"

text \<open>What the resolver reads of the store: typed objects by identity, and a listing of a group and kind.\<close>

record providerReader =
  getProvider :: "NamedResource \<Rightarrow> inputProviderDecl option"
  listProviders :: "string \<Rightarrow> string \<Rightarrow> inputProviderDecl option list"

definition storeResolver :: "(NamedResource \<Rightarrow> nat option \<Rightarrow> providerCompilation) \<Rightarrow> providerReader \<Rightarrow> nat option \<Rightarrow> NamedResource \<Rightarrow>
    providerSelectorCache \<Rightarrow> (string + inputProviderDecl option list) \<times> providerSelectorCache" where
  "storeResolver matcher s selector iden c =
     (if Name iden \<noteq> [] then (Inr (case getProvider s iden of None \<Rightarrow> [] | Some d \<Rightarrow> [Some d]), c)
      else if selector = None then (Inr [], c)
      else case compileSelector matcher iden selector c of
        (Inl e, c') \<Rightarrow> (Inl e, c')
      | (Inr m, c') \<Rightarrow>
          (Inr (filter (\<lambda>p. case p of None \<Rightarrow> False | Some d \<Rightarrow> m (ipNamed d) (ipLabels d)) (listProviders s (Group iden) (Kind iden))), c'))"

section \<open>Rendering steps\<close>

datatype rsError =
  StepsExclusive | StepEmpty string | InStep string rsError | InResource nat rsError | InTemplate rsError | Library string
| BadSeparator string | DuplicateResource NamedResource string string | InputError permuteError

text \<open>
  The YAML and template libraries: conversion, parsing, execution on an input (nil without inputs), decoding
  into a map (which may be nil), the items of a decoded list, the accessors of unstructured objects.
\<close>

record 'tpl engine =
  jsonToYAML :: "string \<Rightarrow> string + string"
  parseTemplate :: "string \<Rightarrow> string + 'tpl"
  execute :: "'tpl \<Rightarrow> doc option \<Rightarrow> string + string"
  decodeYAML :: "string \<Rightarrow> string + doc option"
  listItems :: "doc option \<Rightarrow> (string + doc list) option"
  objName :: "doc option \<Rightarrow> string"
  objKind :: "doc option \<Rightarrow> string"
  objAPIVersion :: "doc option \<Rightarrow> string"
  validGroupVersion :: "string \<Rightarrow> bool"

record DocOccurrence =
  Document :: doc
  Ordinal :: nat

fun validateStepList :: "rsStep list \<Rightarrow> rsError option" where
  "validateStepList [] = None"
| "validateStepList (s # ss) =
     (if stepResources s = [] \<and> stepTemplate s = [] then Some (StepEmpty (stepName s)) else validateStepList ss)"

definition validateSteps :: "'ref ResourceSet \<Rightarrow> rsError option" where
  "validateSteps rs =
     (if rsSteps rs \<noteq> [] \<and> (rsResources rs \<noteq> [] \<or> rsTemplate rs \<noteq> []) then Some StepsExclusive
      else validateStepList (rsSteps rs))"

definition dedupKey :: "'tpl engine \<Rightarrow> doc \<Rightarrow> NamedResource" where
  "dedupKey lib d =
     (let iden = docIdentity d
      in if validGroupVersion lib (docAPIVersion d) then iden else NamedResource [] (Kind iden) (Namespace iden) (Name iden))"

definition disabledByReconcileAnnotation :: "fluxop \<Rightarrow> doc \<Rightarrow> bool" where
  "disabledByReconcileAnnotation api d =
     (let md = (case docMap ''metadata'' d of None \<Rightarrow> [] | Some m \<Rightarrow> m);
          ann = (case docMap ''annotations'' md of None \<Rightarrow> [] | Some m \<Rightarrow> m)
      in docString (reconcileAnnotation api) ann = disabledValue api)"

definition defaultNilInput :: "doc list \<Rightarrow> doc option list" where
  "defaultNilInput inputs = (if inputs = [] then [None] else map Some inputs)"

fun renderResourceLoop :: "'tpl engine \<Rightarrow> 'tpl \<Rightarrow> doc option list \<Rightarrow> doc list \<Rightarrow> rsError + doc list" where
  "renderResourceLoop lib pt [] out = Inr out"
| "renderResourceLoop lib pt (i # is) out = (case execute lib pt i of
     Inl e \<Rightarrow> Inl (Library e)
   | Inr rendered \<Rightarrow> (case decodeYAML lib rendered of
       Inl e \<Rightarrow> Inl (Library e)
     | Inr None \<Rightarrow> renderResourceLoop lib pt is out
     | Inr (Some d) \<Rightarrow> renderResourceLoop lib pt is (out @ [d])))"

definition renderResources :: "'tpl engine \<Rightarrow> string option \<Rightarrow> doc list \<Rightarrow> rsError + doc list" where
  "renderResources lib raw inputs = (case raw of
     None \<Rightarrow> Inr []
   | Some r \<Rightarrow> (case jsonToYAML lib r of
       Inl e \<Rightarrow> Inl (Library e)
     | Inr y \<Rightarrow> (case parseTemplate lib y of
         Inl e \<Rightarrow> Inl (Library e)
       | Inr pt \<Rightarrow> renderResourceLoop lib pt (defaultNilInput inputs) [])))"

text \<open>\<^verbatim>\<open>bytes.SplitSeq\<close> on a newline followed by three dashes.\<close>

function splitDocs :: "string \<Rightarrow> string list" where
  "splitDocs s =
     (if s = [] then [[]]
      else if hasPrefix s (CHR 0x0A # ''---'') then [] # splitDocs (drop 4 s)
      else case splitDocs (tl s) of [] \<Rightarrow> [[hd s]] | p # ps \<Rightarrow> (hd s # p) # ps)"
  by pat_completeness auto
termination
  by (relation "measure length") auto

declare splitDocs.simps [simp del]

fun checkSeparators :: "unicodeTables \<Rightarrow> string list \<Rightarrow> rsError option" where
  "checkSeparators u [] = None"
| "checkSeparators u (line # ls) =
     (let tail = trimSpace u (drop 3 line)
      in if hasPrefix line ''---'' \<and> tail \<noteq> [] \<and> hd tail \<noteq> CHR ''#'' then Some (BadSeparator tail) else checkSeparators u ls)"

fun appendChunks :: "'tpl engine \<Rightarrow> unicodeTables \<Rightarrow> string list \<Rightarrow> doc list \<Rightarrow> rsError + doc list" where
  "appendChunks lib u [] out = Inr out"
| "appendChunks lib u (chunk # cs) out = (case decodeYAML lib (trimPrefix chunk ''---'') of
     Inl e \<Rightarrow> Inl (Library e)
   | Inr d \<Rightarrow> (case listItems lib d of
       Some (Inl e) \<Rightarrow> Inl (Library e)
     | Some (Inr items) \<Rightarrow> appendChunks lib u cs (out @ items)
     | None \<Rightarrow>
         if objName lib d \<noteq> [] \<and> objKind lib d \<noteq> [] \<and> objAPIVersion lib d \<noteq> [] \<and>
            (\<not> equalFold u (objKind lib d) ''kustomization'' \<or> \<not> hasPrefix (objAPIVersion lib d) ''kustomize.config.k8s.io/'')
         then appendChunks lib u cs (out @ [case d of None \<Rightarrow> [] | Some m \<Rightarrow> m])
         else appendChunks lib u cs out))"

definition appendTemplateDocuments :: "'tpl engine \<Rightarrow> unicodeTables \<Rightarrow> doc list \<Rightarrow> string \<Rightarrow> rsError + doc list" where
  "appendTemplateDocuments lib u out rendered = (case checkSeparators u (splitOn (CHR 0x0A) rendered) of
     Some e \<Rightarrow> Inl e
   | None \<Rightarrow> appendChunks lib u (splitDocs rendered) out)"

fun renderTemplateLoop :: "'tpl engine \<Rightarrow> unicodeTables \<Rightarrow> 'tpl \<Rightarrow> doc option list \<Rightarrow> doc list \<Rightarrow> rsError + doc list" where
  "renderTemplateLoop lib u pt [] out = Inr out"
| "renderTemplateLoop lib u pt (i # is) out = (case execute lib pt i of
     Inl e \<Rightarrow> Inl (Library e)
   | Inr rendered \<Rightarrow> (case appendTemplateDocuments lib u out rendered of
       Inl e \<Rightarrow> Inl e
     | Inr out' \<Rightarrow> renderTemplateLoop lib u pt is out'))"

definition renderResourcesTemplate :: "'tpl engine \<Rightarrow> unicodeTables \<Rightarrow> string \<Rightarrow> doc list \<Rightarrow> rsError + doc list" where
  "renderResourcesTemplate lib u tmpl inputs = (case parseTemplate lib tmpl of
     Inl e \<Rightarrow> Inl (Library e)
   | Inr pt \<Rightarrow> renderTemplateLoop lib u pt (defaultNilInput inputs) [])"

text \<open>The closure \<open>appendUnique\<close> of \<open>renderStep\<close>; its state is the set of keys seen and the documents.\<close>

fun appendUnique :: "'tpl engine \<Rightarrow> fluxop \<Rightarrow> bool \<Rightarrow> doc list \<Rightarrow> NamedResource list \<times> DocOccurrence list \<Rightarrow> NamedResource list \<times> DocOccurrence list" where
  "appendUnique lib api dedup [] st = st"
| "appendUnique lib api dedup (d # ds) (seen, docs) =
     (if dedup \<and> disabledByReconcileAnnotation api d then appendUnique lib api dedup ds (seen, docs)
      else if dedup \<and> dedupKey lib d \<in> set seen then appendUnique lib api dedup ds (seen, docs)
      else appendUnique lib api dedup ds (dedupKey lib d # seen, docs @ [\<lparr>Document = d, Ordinal = length docs\<rparr>]))"

fun renderRaws :: "'tpl engine \<Rightarrow> fluxop \<Rightarrow> doc list \<Rightarrow> nat \<Rightarrow> string option list \<Rightarrow> NamedResource list \<times> DocOccurrence list \<Rightarrow>
    rsError + (NamedResource list \<times> DocOccurrence list)" where
  "renderRaws lib api inputs i [] st = Inr st"
| "renderRaws lib api inputs i (raw # raws) st = (case renderResources lib raw inputs of
     Inl e \<Rightarrow> Inl (InResource i e)
   | Inr ds \<Rightarrow> renderRaws lib api inputs (i + 1) raws (appendUnique lib api (inputs \<noteq> []) ds st))"

definition renderStep :: "'tpl engine \<Rightarrow> fluxop \<Rightarrow> unicodeTables \<Rightarrow> rsStep \<Rightarrow> doc list \<Rightarrow> rsError + DocOccurrence list" where
  "renderStep lib api u s inputs = (case renderRaws lib api inputs 0 (stepResources s) ([], []) of
     Inl e \<Rightarrow> Inl e
   | Inr st \<Rightarrow>
       if stepTemplate s = [] then Inr (snd st)
       else case renderResourcesTemplate lib u (stepTemplate s) inputs of
         Inl e \<Rightarrow> Inl (InTemplate e)
       | Inr ds \<Rightarrow> Inr (snd (appendUnique lib api True ds st)))"

fun recordStepObjects :: "'tpl engine \<Rightarrow> string \<Rightarrow> DocOccurrence list \<Rightarrow> (NamedResource, string) gomap \<Rightarrow>
    rsError + (NamedResource, string) gomap" where
  "recordStepObjects lib name [] m = Inr m"
| "recordStepObjects lib name (d # ds) m =
     (let key = dedupKey lib (Document d)
      in case map_of m key of
           Some prev \<Rightarrow> if prev \<noteq> name then Inl (DuplicateResource key name prev) else recordStepObjects lib name ds (gput key name m)
         | None \<Rightarrow> recordStepObjects lib name ds (gput key name m))"

definition appendRenumbered :: "DocOccurrence list \<Rightarrow> DocOccurrence list \<Rightarrow> DocOccurrence list" where
  "appendRenumbered docs rendered =
     (if docs = [] then rendered else foldl (\<lambda>docs d. docs @ [d\<lparr>Ordinal := length docs\<rparr>]) docs rendered)"

fun renderStepLoop :: "'tpl engine \<Rightarrow> fluxop \<Rightarrow> unicodeTables \<Rightarrow> bool \<Rightarrow> doc list \<Rightarrow> rsStep list \<Rightarrow>
    DocOccurrence list \<Rightarrow> (NamedResource, string) gomap \<Rightarrow> rsError + DocOccurrence list" where
  "renderStepLoop lib api u named inputs [] docs m = Inr docs"
| "renderStepLoop lib api u named inputs (s # ss) docs m = (case renderStep lib api u s inputs of
     Inl e \<Rightarrow> Inl (if named then InStep (stepName s) e else e)
   | Inr rendered \<Rightarrow>
       if named
       then (case recordStepObjects lib (stepName s) rendered m of
           Inl e \<Rightarrow> Inl e
         | Inr m' \<Rightarrow> renderStepLoop lib api u named inputs ss (appendRenumbered docs rendered) m')
       else renderStepLoop lib api u named inputs ss (appendRenumbered docs rendered) m)"

definition renderSteps :: "'tpl engine \<Rightarrow> fluxop \<Rightarrow> unicodeTables \<Rightarrow> 'ref ResourceSet \<Rightarrow> doc list \<Rightarrow> rsError + DocOccurrence list" where
  "renderSteps lib api u rs inputs =
     renderStepLoop lib api u (rsSteps rs \<noteq> []) inputs
       (if rsSteps rs = [] then [\<lparr>stepName = [], stepResources = rsResources rs, stepTemplate = rsTemplate rs\<rparr>] else rsSteps rs) [] []"

text \<open>\<open>Render\<close>, without its work accounting; \<open>admit\<close> is the caller's admission, which may handle the content itself.\<close>

definition offlineWarning :: "NamedResource \<Rightarrow> ProviderInputs \<Rightarrow> Warning" where
  "offlineWarning rs p =
     \<lparr>wResource = rs, wSubject = \<lparr>ID = zeroResource, Resource = zeroResource, Path = []\<rparr>, wRelated = [],
      wCategory = ''OfflineInputProvider'', wMessage = ''dynamic input provider contributes no inputs offline'',
      wDetail = [resourceString (piID p), piType p], wCount = 0\<rparr>"

definition renderResourceSet :: "'tpl engine \<Rightarrow> fluxop \<Rightarrow> unicodeTables \<Rightarrow> (string \<Rightarrow> json option) \<Rightarrow> NamedResource \<Rightarrow>
    (ProviderInputs list \<Rightarrow> bool \<times> rsError option) option \<Rightarrow> 'ref ResourceSet \<Rightarrow> ProviderInputs list \<Rightarrow>
    ((rsError + DocOccurrence list) \<times> Warning list) option" where
  "renderResourceSet lib api u unmarshal iden admit rs providers = (case validateSteps rs of
     Some e \<Rightarrow> Some (Inl e, [])
   | None \<Rightarrow>
       let warnings = map (offlineWarning iden) (filter (\<lambda>p. piState p = ProviderInputUnsupported) providers)
       in case (case admit of None \<Rightarrow> (False, None) | Some f \<Rightarrow> f providers) of
            (handled, Some e) \<Rightarrow> Some (Inl e, warnings)
          | (handled, None) \<Rightarrow>
              if handled then Some (Inr [], warnings)
              else (case buildInputSets api u unmarshal rs providers of
                  None \<Rightarrow> None
                | Some (Inl e) \<Rightarrow> Some (Inl (InputError e), warnings)
                | Some (Inr inputs) \<Rightarrow>
                    if rsInputsFrom rs \<noteq> [] \<and> inputs = [] then Some (Inr [], warnings)
                    else Some (renderSteps lib api u rs inputs, warnings)))"

section \<open>Rendered documents are unique and numbered\<close>

definition keysOf :: "'tpl engine \<Rightarrow> DocOccurrence list \<Rightarrow> NamedResource list" where
  "keysOf lib docs = map (dedupKey lib \<circ> Document) docs"

definition numbered :: "DocOccurrence list \<Rightarrow> bool" where
  "numbered docs \<longleftrightarrow> map Ordinal docs = [0..<length docs]"

lemma keysOf_simps [simp]: "keysOf lib [] = []" "keysOf lib (d # ds) = dedupKey lib (Document d) # keysOf lib ds"
    "keysOf lib (ds @ es) = keysOf lib ds @ keysOf lib es"
  by (simp_all add: keysOf_def)

lemma numbered_snoc: "numbered docs \<Longrightarrow> numbered (docs @ [d\<lparr>Ordinal := length docs\<rparr>])" "numbered docs \<Longrightarrow> numbered (docs @ [\<lparr>Document = x, Ordinal = length docs\<rparr>])"
  by (simp_all add: numbered_def)

text \<open>The state of \<open>appendUnique\<close>: the keys seen are those of the documents.\<close>

definition stepState :: "'tpl engine \<Rightarrow> fluxop \<Rightarrow> bool \<Rightarrow> NamedResource list \<times> DocOccurrence list \<Rightarrow> bool" where
  "stepState lib api unique st \<longleftrightarrow> numbered (snd st) \<and> set (fst st) = set (keysOf lib (snd st)) \<and>
     (unique \<longrightarrow> distinct (keysOf lib (snd st)) \<and> (\<forall>d \<in> set (snd st). \<not> disabledByReconcileAnnotation api (Document d)))"

lemma appendUnique_state:
  "stepState lib api unique st \<Longrightarrow> (unique \<longrightarrow> dedup) \<Longrightarrow> stepState lib api unique (appendUnique lib api dedup ds st)"
proof (induction lib api dedup ds st rule: appendUnique.induct)
  case (2 lib api dedup d ds seen docs)
  show ?case
  proof (cases "dedup \<and> (disabledByReconcileAnnotation api d \<or> dedupKey lib d \<in> set seen)")
    case True
    then show ?thesis using 2 by auto
  next
    case False
    then have new: "stepState lib api unique (dedupKey lib d # seen, docs @ [\<lparr>Document = d, Ordinal = length docs\<rparr>])"
      using 2(4,5) by (auto simp: stepState_def numbered_snoc)
    have "appendUnique lib api dedup (d # ds) (seen, docs) =
        appendUnique lib api dedup ds (dedupKey lib d # seen, docs @ [\<lparr>Document = d, Ordinal = length docs\<rparr>])"
      using False by auto
    then show ?thesis using 2(3)[OF _ _ new] 2(5) False by auto
  qed
qed simp

lemma renderRaws_state:
  "renderRaws lib api inputs i raws st = Inr st' \<Longrightarrow> stepState lib api (inputs \<noteq> []) st \<Longrightarrow> stepState lib api (inputs \<noteq> []) st'"
  by (induction lib api inputs i raws st rule: renderRaws.induct) (auto split: sum.splits intro: appendUnique_state)

lemma renderStep_state:
  assumes "renderStep lib api u s inputs = Inr docs"
  shows "\<exists>seen. stepState lib api (inputs \<noteq> []) (seen, docs)"
proof -
  have init: "stepState lib api (inputs \<noteq> []) ([], [])" by (simp add: stepState_def numbered_def)
  obtain st where st: "renderRaws lib api inputs 0 (stepResources s) ([], []) = Inr st"
    using assms by (auto simp: renderStep_def split: sum.splits)
  note ok = renderRaws_state[OF st init]
  show ?thesis
  proof (cases "stepTemplate s = []")
    case True
    then have "docs = snd st" using assms st by (simp add: renderStep_def)
    then show ?thesis using ok by (metis prod.collapse)
  next
    case False
    then obtain ds where "docs = snd (appendUnique lib api True ds st)"
      using assms st by (auto simp: renderStep_def split: sum.splits)
    then show ?thesis using appendUnique_state[OF ok, of True ds] by (metis prod.collapse)
  qed
qed

lemma recordStepObjects_spec:
  assumes "recordStepObjects lib name ds m = Inr m'" and "gok m"
  shows "gok m' \<and> (\<forall>k \<in> set (keysOf lib ds). map_of m k \<in> {None, Some name}) \<and>
    (\<forall>k. map_of m' k = (if k \<in> set (keysOf lib ds) then Some name else map_of m k))"
  using assms
proof (induction lib name ds m rule: recordStepObjects.induct)
  case (2 lib name d ds m)
  let ?k = "dedupKey lib (Document d)" let ?m = "gput ?k name m"
  have k: "map_of m ?k \<in> {None, Some name}" and rec: "recordStepObjects lib name ds ?m = Inr m'"
    using "2.prems"(1) by (auto simp: Let_def split: option.splits if_splits)
  have "gok m' \<and> (\<forall>k \<in> set (keysOf lib ds). map_of ?m k \<in> {None, Some name}) \<and>
      (\<forall>k. map_of m' k = (if k \<in> set (keysOf lib ds) then Some name else map_of ?m k))"
    using "2.IH"(1)[OF refl _ rec] "2.IH"(2)[OF refl _ _ rec] k gok_gput[OF "2.prems"(2)] by auto
  then show ?case using k by (auto simp: map_of_gput[OF "2.prems"(2)] split: if_splits)
qed simp

lemma appendRenumbered_spec:
  assumes "numbered docs" and "numbered rendered"
  shows "numbered (appendRenumbered docs rendered) \<and> map Document (appendRenumbered docs rendered) = map Document docs @ map Document rendered"
proof -
  have "numbered (foldl (\<lambda>docs d. docs @ [d\<lparr>Ordinal := length docs\<rparr>]) docs ds) \<and>
      map Document (foldl (\<lambda>docs d. docs @ [d\<lparr>Ordinal := length docs\<rparr>]) docs ds) = map Document docs @ map Document ds" for ds
    using assms(1) by (induction ds arbitrary: docs) (simp_all add: numbered_snoc)
  then show ?thesis using assms(2) by (simp add: appendRenumbered_def)
qed

text \<open>
  What the loop over named steps keeps: documents are numbered, the map names the step of every document so
  far, and with inputs no key occurs twice.
\<close>

definition loopState :: "'tpl engine \<Rightarrow> fluxop \<Rightarrow> bool \<Rightarrow> string set \<Rightarrow> DocOccurrence list \<Rightarrow> (NamedResource, string) gomap \<Rightarrow> bool" where
  "loopState lib api unique names docs m \<longleftrightarrow> numbered docs \<and> gok m \<and>
     (\<forall>k \<in> set (keysOf lib docs). map_of m k \<in> Some ` names) \<and>
     (unique \<longrightarrow> distinct (keysOf lib docs) \<and> (\<forall>d \<in> set docs. \<not> disabledByReconcileAnnotation api (Document d)))"

lemma keysOf_Documents: "map Document xs = map Document ys @ map Document zs \<Longrightarrow> keysOf lib xs = keysOf lib ys @ keysOf lib zs"
  unfolding keysOf_def by (metis map_append map_map)

lemma loopState_step:
  assumes st: "loopState lib api (inputs \<noteq> []) names docs m" and fresh: "stepName s \<notin> names"
    and r: "renderStep lib api u s inputs = Inr rendered" and rec: "recordStepObjects lib (stepName s) rendered m = Inr m'"
  shows "loopState lib api (inputs \<noteq> []) (insert (stepName s) names) (appendRenumbered docs rendered) m'"
proof -
  let ?docs = "appendRenumbered docs rendered"
  obtain seen where seen: "stepState lib api (inputs \<noteq> []) (seen, rendered)" using renderStep_state[OF r] by blast
  have m': "gok m'" "\<forall>k \<in> set (keysOf lib rendered). map_of m k \<in> {None, Some (stepName s)}"
      "\<forall>k. map_of m' k = (if k \<in> set (keysOf lib rendered) then Some (stepName s) else map_of m k)"
    using recordStepObjects_spec[OF rec] st by (auto simp: loopState_def)
  have docs: "numbered ?docs" "map Document ?docs = map Document docs @ map Document rendered"
    using appendRenumbered_spec st seen by (auto simp: loopState_def stepState_def)
  have keys: "keysOf lib ?docs = keysOf lib docs @ keysOf lib rendered" using keysOf_Documents[OF docs(2)] .
  have apart: "set (keysOf lib docs) \<inter> set (keysOf lib rendered) = {}"
    using st m'(2) fresh by (fastforce simp: loopState_def)
  have enabled: "\<not> disabledByReconcileAnnotation api (Document d)" if "inputs \<noteq> []" "d \<in> set ?docs" for d
  proof -
    have "Document d \<in> set (map Document docs @ map Document rendered)" using that(2) docs(2) by (metis image_eqI set_map)
    then show ?thesis using that(1) st seen by (auto simp: loopState_def stepState_def)
  qed
  have "inputs \<noteq> [] \<Longrightarrow> distinct (keysOf lib ?docs)" using apart st seen by (auto simp: keys loopState_def stepState_def)
  then show ?thesis using docs(1) m' st enabled unfolding loopState_def keys by auto
qed

lemma renderStepLoop_named:
  assumes "renderStepLoop lib api u True inputs ss docs m = Inr docs'" and "distinct (map stepName ss)"
    and "loopState lib api (inputs \<noteq> []) names docs m" and "stepName ` set ss \<inter> names = {}"
  shows "\<exists>names m. loopState lib api (inputs \<noteq> []) names docs' m"
  using assms
proof (induction ss arbitrary: docs m names)
  case (Cons s ss)
  obtain rendered m' where r: "renderStep lib api u s inputs = Inr rendered" "recordStepObjects lib (stepName s) rendered m = Inr m'"
      "renderStepLoop lib api u True inputs ss (appendRenumbered docs rendered) m' = Inr docs'"
    using Cons.prems(1) by (auto split: sum.splits)
  have "stepName s \<notin> names" using Cons.prems(4) by auto
  from loopState_step[OF Cons.prems(3) this r(1,2)] show ?case
    using Cons.IH[OF r(3)] Cons.prems(2,4) by fastforce
qed auto

text \<open>
  C30. The rendered documents of a ResourceSet are numbered from zero without gaps, in order. With inputs, and
  steps of different names, no two of them have the same group, kind, namespace and name, across all steps,
  and none is disabled by its reconcile annotation: a duplicate within a step is dropped, one across steps is
  an error.
\<close>

theorem renderSteps_unique:
  assumes "renderSteps lib api u rs inputs = Inr docs" and "distinct (map stepName (rsSteps rs))"
  shows "map Ordinal docs = [0..<length docs] \<and>
    (inputs \<noteq> [] \<longrightarrow> distinct (map (dedupKey lib \<circ> Document) docs) \<and>
       (\<forall>d \<in> set docs. \<not> disabledByReconcileAnnotation api (Document d)))"
proof (cases "rsSteps rs = []")
  case True
  let ?s = "\<lparr>stepName = [], stepResources = rsResources rs, stepTemplate = rsTemplate rs\<rparr>"
  have "renderStep lib api u ?s inputs = Inr docs"
    using assms(1) True by (auto simp: renderSteps_def appendRenumbered_def split: sum.splits)
  then show ?thesis using renderStep_state[of lib api u ?s inputs docs] by (auto simp: stepState_def numbered_def keysOf_def)
next
  case False
  have "loopState lib api (inputs \<noteq> []) {} [] []" by (simp add: loopState_def numbered_def gok_Nil)
  from renderStepLoop_named[OF _ assms(2) this] assms(1) False show ?thesis
    by (auto simp: renderSteps_def loopState_def numbered_def keysOf_def)
qed

definition exEngine :: "string engine" where
  "exEngine = \<lparr>jsonToYAML = Inr, parseTemplate = Inr, execute = (\<lambda>pt i. Inr pt),
     decodeYAML = (\<lambda>s. Inr (if s = [] then None else Some [(''apiVersion'', JStr ''v1''), (''kind'', JStr s)])),
     listItems = (\<lambda>d. None), objName = (\<lambda>d. []), objKind = (\<lambda>d. []), objAPIVersion = (\<lambda>d. []), validGroupVersion = (\<lambda>s. True)\<rparr>"

definition exFluxop :: fluxop where
  "exFluxop = \<lparr>groupVersion = ''fluxcd.controlplane.io/v1'', permuteStrategy = ''Permute'',
     reconcileAnnotation = ''fluxcd.controlplane.io/reconcile'', disabledValue = ''disabled''\<rparr>"

definition exResourceSet :: "nat ResourceSet" where
  "exResourceSet = \<lparr>rsName = ''apps'', rsNamespace = ''flux'', rsInputs = [], rsInputsFrom = [], rsStrategy = None,
     rsSteps = [\<lparr>stepName = ''one'', stepResources = [Some ''A'', None, Some ''A''], stepTemplate = []\<rparr>,
                \<lparr>stepName = ''two'', stepResources = [Some ''B''], stepTemplate = []\<rparr>],
     rsResources = [], rsTemplate = []\<rparr>"

theorem renderSteps_unique_witness:
  "\<exists>docs. renderSteps exEngine exFluxop asciiTables exResourceSet [[]] = Inr docs \<and> length docs = 2 \<and>
     map Ordinal docs = [0..<length docs] \<and> distinct (map (dedupKey exEngine \<circ> Document) docs)"
proof -
  have "map_sum (\<lambda>_. ()) length (renderSteps exEngine exFluxop asciiTables exResourceSet [[]]) = Inr 2" by code_simp
  then obtain docs where docs: "renderSteps exEngine exFluxop asciiTables exResourceSet [[]] = Inr docs" "length docs = 2"
    by (cases "renderSteps exEngine exFluxop asciiTables exResourceSet [[]]") simp_all
  have "distinct (map stepName (rsSteps exResourceSet))" by code_simp
  then show ?thesis using renderSteps_unique[OF docs(1)] docs by simp
qed

section \<open>Providers are collected once, in order\<close>

definition namedMap :: "(NamedResource, inputProviderDecl) gomap \<Rightarrow> bool" where
  "namedMap m \<longleftrightarrow> gok m \<and> (\<forall>k d. map_of m k = Some d \<longrightarrow> ipNamed d = k)"

lemma namedMap_put: "namedMap m \<Longrightarrow> namedMap (gput (ipNamed d) d m)"
  unfolding namedMap_def by (auto simp: gok_gput map_of_gput split: if_splits)

lemma keepProviders_spec:
  "namedMap m \<Longrightarrow> namedMap (keepProviders ps m) \<and>
     dom (map_of (keepProviders ps m)) = dom (map_of m) \<union> {ipNamed d |d. Some d \<in> set ps}"
proof (induction ps arbitrary: m)
  case (Cons p ps)
  show ?case
  proof (cases p)
    case (Some d)
    let ?m = "if map_of m (ipNamed d) = None then gput (ipNamed d) d m else m"
    have m: "namedMap ?m" using Cons.prems namedMap_put by simp
    have dom: "dom (map_of ?m) = insert (ipNamed d) (dom (map_of m))"
      using Cons.prems unfolding namedMap_def by (auto simp: dom_gput)
    have "keepProviders (p # ps) m = keepProviders ps ?m" using Some by simp
    moreover have "{ipNamed x |x. Some x \<in> set (p # ps)} = insert (ipNamed d) {ipNamed x |x. Some x \<in> set ps}" using Some by auto
    ultimately show ?thesis using Cons.IH[OF m] unfolding dom by (simp only: Un_insert_left Un_insert_right)
  next
    case None
    then have "keepProviders (p # ps) m = keepProviders ps m" by simp
    then show ?thesis using Cons.IH[OF Cons.prems] None by (simp only: list.set insert_iff option.distinct(1) simp_thms) simp
  qed
qed simp

definition resolvedNames :: "('ref \<Rightarrow> NamedResource \<Rightarrow> string + inputProviderDecl option list) \<Rightarrow> 'ref list \<Rightarrow> referenceEdge list \<Rightarrow>
    NamedResource set" where
  "resolvedNames resolve refs es = {ipNamed d |d e ms. e \<in> set es \<and> edgeUse e = ''inputsFrom'' \<and>
     resolve (refs ! edgePosition e) (edgeResource e) = Inr ms \<and> Some d \<in> set ms}"

lemma resolvedNames_Cons: "resolvedNames resolve refs (e # es) = resolvedNames resolve refs es \<union>
    (if edgeUse e = ''inputsFrom''
     then (case resolve (refs ! edgePosition e) (edgeResource e) of Inl x \<Rightarrow> {} | Inr ms \<Rightarrow> {ipNamed d |d. Some d \<in> set ms}) else {})"
  unfolding resolvedNames_def by (auto split: sum.splits)

lemma collectLoop_spec:
  assumes "collectLoop resolve refs es m = Inr m'" and "namedMap m"
  shows "namedMap m' \<and> dom (map_of m') = dom (map_of m) \<union> resolvedNames resolve refs es"
  using assms
proof (induction es arbitrary: m)
  case (Cons e es)
  show ?case
  proof (cases "edgeUse e = ''inputsFrom''")
    case True
    then obtain ms where ms: "resolve (refs ! edgePosition e) (edgeResource e) = Inr ms" "collectLoop resolve refs es (keepProviders ms m) = Inr m'"
      using Cons.prems(1) by (auto split: sum.splits)
    note keep = keepProviders_spec[OF Cons.prems(2), of ms]
    show ?thesis
      using Cons.IH[OF ms(2)] keep ms(1) True by (simp add: resolvedNames_Cons Un_ac)
  next
    case False
    then show ?thesis using Cons by (simp add: resolvedNames_Cons)
  qed
qed (simp add: resolvedNames_def)

text \<open>
  \<open>CollectProviders\<close> returns every provider that a reference of the ResourceSet resolves to exactly once, in
  the canonical order of identities, however the references and matches are ordered.
\<close>

theorem collectProviders_canonical:
  assumes "collectProviders (Some resolve) edges rs = Inr out" and "rsInputsFrom rs \<noteq> []"
  shows "sorted_wrt (<) (map piID out) \<and>
    set (map piID out) = resolvedNames resolve (rsInputsFrom rs) edges"
proof -
  let ?f = "\<lambda>(k, d). \<lparr>piID = ipNamed d, piType = ipType d, piState = ProviderInputEvaluated, piInputs = []\<rparr>"
  let ?c = "\<lambda>a b. compareResource (piID a) (piID b)"
  obtain m where m: "collectLoop resolve (rsInputsFrom rs) edges [] = Inr m" "out = sortFunc ?c (map ?f m)"
    using assms by (cases "collectLoop resolve (rsInputsFrom rs) edges []") (auto simp: collectProviders_def)
  have "namedMap []" by (simp add: namedMap_def)
  from collectLoop_spec[OF m(1) this] have named: "namedMap m" and dom: "dom (map_of m) = resolvedNames resolve (rsInputsFrom rs) edges"
    by simp_all
  have gok: "sorted_wrt (<) (map fst m)" using named by (simp add: namedMap_def gok_def)
  have "distinct (map fst m)" using gok by (simp add: strict_sorted_iff)
  then have "ipNamed d = k" if "(k, d) \<in> set m" for k d
    using named map_of_is_SomeI[OF _ that] unfolding namedMap_def by blast
  then have ids: "map piID (map ?f m) = map fst m" by auto
  have sorted: "sorted_wrt (<) (map piID (map ?f m))" using gok unfolding ids .
  then have "sorted_wrt (\<lambda>a b. ?c a b \<le> 0) (map ?f m)"
    unfolding sorted_wrt_map by (rule sorted_wrt_mono_rel[rotated]) (simp add: less_NamedResource_def)
  with three_way_on[OF res_order.three_way_axioms, of piID] have "out = map ?f m"
    unfolding m(2) by (rule three_way.sortFunc_id)
  then have out: "map piID out = map fst m" using ids by simp
  show ?thesis using gok dom unfolding out by (simp add: dom_map_of_conv_image_fst)
qed

definition exResolve :: "nat \<Rightarrow> NamedResource \<Rightarrow> string + inputProviderDecl option list" where
  "exResolve r iden = (let d = (\<lambda>n. Some \<lparr>ipNamed = NamedResource [] ''P'' ''ns'' n, ipType = ''Static'', ipLabels = []\<rparr>)
     in Inr (if r = 0 then [d ''z'', None, d ''a''] else [d ''a'']))"

definition exEdges :: "referenceEdge list" where
  "exEdges = map (\<lambda>i. \<lparr>edgeUse = ''inputsFrom'', edgePosition = i, edgeResource = zeroResource\<rparr>) [0, 1]"

theorem collectProviders_canonical_witness:
  "\<exists>out. collectProviders (Some exResolve) exEdges (exResourceSet\<lparr>rsInputsFrom := [0, 1]\<rparr>) = Inr out \<and>
     map (Name \<circ> piID) out = [''a'', ''z''] \<and> sorted_wrt (<) (map piID out)"
proof -
  let ?r = "collectProviders (Some exResolve) exEdges (exResourceSet\<lparr>rsInputsFrom := [0, 1]\<rparr>)"
  have "map_sum (\<lambda>_. ()) (map (Name \<circ> piID)) ?r = Inr [''a'', ''z'']" by code_simp
  then obtain out where out: "?r = Inr out" "map (Name \<circ> piID) out = [''a'', ''z'']" by (cases ?r) simp_all
  then show ?thesis using collectProviders_canonical[OF out(1)] by simp
qed

section \<open>The selector cache is transparent\<close>

definition selectorCacheOk :: "(NamedResource \<Rightarrow> nat option \<Rightarrow> providerCompilation) \<Rightarrow> providerSelectorCache \<Rightarrow> bool" where
  "selectorCacheOk matcher c \<longleftrightarrow>
     (snd (firstQuery c) \<noteq> None \<longrightarrow> firstCompilation c = matcher (fst (firstQuery c)) (snd (firstQuery c))) \<and>
     (\<forall>k v. map_of (selectors c) k = Some v \<longrightarrow> v = matcher (fst k) (snd k))"

lemma compileSelector_transparent:
  assumes "selectorCacheOk matcher c" and "selector \<noteq> None"
  shows "fst (compileSelector matcher iden selector c) = matcher iden selector \<and>
    selectorCacheOk matcher (snd (compileSelector matcher iden selector c))"
  using assms unfolding selectorCacheOk_def compileSelector_def Let_def
  by (cases "firstQuery c") (auto split: option.splits)

text \<open>The answer without a cache.\<close>

definition resolveDirect :: "(NamedResource \<Rightarrow> nat option \<Rightarrow> providerCompilation) \<Rightarrow> providerReader \<Rightarrow> nat option \<times> NamedResource \<Rightarrow>
    string + inputProviderDecl option list" where
  "resolveDirect matcher s q = (case q of (selector, iden) \<Rightarrow>
     if Name iden \<noteq> [] then Inr (case getProvider s iden of None \<Rightarrow> [] | Some d \<Rightarrow> [Some d])
     else if selector = None then Inr []
     else map_sum id (\<lambda>m. filter (\<lambda>p. case p of None \<Rightarrow> False | Some d \<Rightarrow> m (ipNamed d) (ipLabels d)) (listProviders s (Group iden) (Kind iden)))
            (matcher iden selector))"

fun resolveAll :: "(NamedResource \<Rightarrow> nat option \<Rightarrow> providerCompilation) \<Rightarrow> providerReader \<Rightarrow> (nat option \<times> NamedResource) list \<Rightarrow>
    providerSelectorCache \<Rightarrow> (string + inputProviderDecl option list) list" where
  "resolveAll matcher s [] c = []"
| "resolveAll matcher s ((selector, iden) # qs) c =
     (case storeResolver matcher s selector iden c of (r, c') \<Rightarrow> r # resolveAll matcher s qs c')"

lemma storeResolver_transparent:
  assumes "selectorCacheOk matcher c"
  shows "fst (storeResolver matcher s selector iden c) = resolveDirect matcher s (selector, iden) \<and>
    selectorCacheOk matcher (snd (storeResolver matcher s selector iden c))"
proof (cases "Name iden \<noteq> [] \<or> selector = None")
  case True
  then show ?thesis using assms by (auto simp: storeResolver_def resolveDirect_def)
next
  case False
  obtain r c' where rc: "compileSelector matcher iden selector c = (r, c')" by (cases "compileSelector matcher iden selector c")
  then have "r = matcher iden selector" "selectorCacheOk matcher c'"
    using compileSelector_transparent[OF assms, of selector iden] False by simp_all
  then show ?thesis using False rc by (cases "matcher iden selector") (auto simp: storeResolver_def resolveDirect_def)
qed

text \<open>
  The resolver's selector cache is transparent: over every sequence of references a run resolves, each
  answer is the one compiling the selector anew would give, errors included.
\<close>

theorem selector_cache_transparent:
  "resolveAll matcher s qs newSelectorCache = map (resolveDirect matcher s) qs"
proof -
  have "selectorCacheOk matcher c \<Longrightarrow> resolveAll matcher s qs c = map (resolveDirect matcher s) qs" for c
  proof (induction qs arbitrary: c)
    case (Cons q qs)
    obtain selector iden where q: "q = (selector, iden)" by (cases q)
    obtain r c' where rc: "storeResolver matcher s selector iden c = (r, c')" by (cases "storeResolver matcher s selector iden c")
    show ?case using storeResolver_transparent[OF Cons.prems, of s selector iden] Cons.IH[of c'] rc q by simp
  qed simp
  then show ?thesis by (simp add: selectorCacheOk_def newSelectorCache_def)
qed

end
