(* ===== verification/Pool.thy ===== *)
theory Pool
  imports Prelude
begin

text \<open>
  Concurrency primitives: the worker pool of \<^verbatim>\<open>pkg/task/task.go\<close> and the key locks of
  \<^verbatim>\<open>internal/keylock/keylock.go\<close>, each as a step relation over the goroutines that use it.

  A channel used as a semaphore is the number of tokens in it; sending blocks while it is full, receiving
  while it is empty. Every atomic action of the source is one rule: launching, the two branches of the
  select, the release and the reacquisition around a yielded call, the end of a body with or without a
  panic. Bodies are open: a running task may yield or end at any time. Cancellation may come at any time.
\<close>

section \<open>The worker pool\<close>

text \<open>
  A goroutine waits for a slot, runs its body, runs the function of \<open>YieldSlot\<close> without a slot, wants its
  slot back, or is finished. The flag says that the yielded function panicked: the slot is taken back
  before the panic unwinds the body.
\<close>

datatype taskState = Waiting | Running | Yielded | Reacquiring bool | Finished

record Service =
  sem :: "nat option"
  held :: nat
  active :: nat
  failures :: nat
  tasks :: "taskState list"

definition newBounded :: "int \<Rightarrow> Service" where
  "newBounded workers =
     \<lparr>sem = (if workers > 0 then Some (nat workers) else None), held = 0, active = 0, failures = 0, tasks = []\<rparr>"

text \<open>\<open>Go\<close> counts the task and launches its goroutine; without a semaphore the body runs at once.\<close>

definition launch :: "Service \<Rightarrow> Service" where
  "launch s = s\<lparr>active := active s + 1, tasks := tasks s @ [if sem s = None then Running else Waiting]\<rparr>"

definition hasSlot :: "Service \<Rightarrow> bool" where
  "hasSlot s = (case sem s of None \<Rightarrow> True | Some cap \<Rightarrow> held s < cap)"

definition setTask :: "nat \<Rightarrow> taskState \<Rightarrow> Service \<Rightarrow> Service" where
  "setTask i st s = s\<lparr>tasks := (tasks s)[i := st]\<rparr>"

definition takeSlot :: "Service \<Rightarrow> Service" where
  "takeSlot s = (if sem s = None then s else s\<lparr>held := held s + 1\<rparr>)"

definition freeSlot :: "Service \<Rightarrow> Service" where
  "freeSlot s = (if sem s = None then s else s\<lparr>held := held s - 1\<rparr>)"

text \<open>The deferred calls of a body: a panic is counted, the slot is released, the completion is reported.\<close>

definition finishTask :: "nat \<Rightarrow> bool \<Rightarrow> Service \<Rightarrow> Service" where
  "finishTask i panicked s =
     (let s = freeSlot s; s = (if panicked then s\<lparr>failures := failures s + 1\<rparr> else s)
      in setTask i Finished (s\<lparr>active := active s - 1\<rparr>))"

definition cancelTask :: "nat \<Rightarrow> Service \<Rightarrow> Service" where
  "cancelTask i s = setTask i Finished (s\<lparr>active := active s - 1\<rparr>)"

definition blockTillDone :: "Service \<Rightarrow> bool" where
  "blockTillDone s \<longleftrightarrow> active s = 0"

inductive poolStep :: "Service \<Rightarrow> Service \<Rightarrow> bool" where
  Go: "poolStep s (launch s)"
| Acquire: "i < length (tasks s) \<Longrightarrow> tasks s ! i = Waiting \<Longrightarrow> hasSlot s \<Longrightarrow> poolStep s (setTask i Running (takeSlot s))"
| Cancel: "i < length (tasks s) \<Longrightarrow> tasks s ! i = Waiting \<Longrightarrow> poolStep s (cancelTask i s)"
| YieldSlot: "i < length (tasks s) \<Longrightarrow> tasks s ! i = Running \<Longrightarrow> sem s \<noteq> None \<Longrightarrow> poolStep s (setTask i Yielded (freeSlot s))"
| YieldDone: "i < length (tasks s) \<Longrightarrow> tasks s ! i = Yielded \<Longrightarrow> poolStep s (setTask i (Reacquiring panicked) s)"
| Reacquire: "i < length (tasks s) \<Longrightarrow> tasks s ! i = Reacquiring False \<Longrightarrow> hasSlot s \<Longrightarrow> poolStep s (setTask i Running (takeSlot s))"
| Unwind: "i < length (tasks s) \<Longrightarrow> tasks s ! i = Reacquiring True \<Longrightarrow> hasSlot s \<Longrightarrow> poolStep s (finishTask i True (takeSlot s))"
| Finish: "i < length (tasks s) \<Longrightarrow> tasks s ! i = Running \<Longrightarrow> poolStep s (finishTask i panicked s)"

inductive poolReachable :: "int \<Rightarrow> Service \<Rightarrow> bool" for workers where
  Start: "poolReachable workers (newBounded workers)"
| Step: "poolReachable workers s \<Longrightarrow> poolStep s s' \<Longrightarrow> poolReachable workers s'"

section \<open>Slots and completions are accounted for\<close>

definition running :: "Service \<Rightarrow> nat" where
  "running s = length (filter (\<lambda>t. t = Running) (tasks s))"

definition unfinished :: "Service \<Rightarrow> nat" where
  "unfinished s = length (filter (\<lambda>t. t \<noteq> Finished) (tasks s))"

definition capacity :: "int \<Rightarrow> nat option" where
  "capacity workers = (if workers > 0 then Some (nat workers) else None)"

lemma capacity_Some: "capacity workers = Some n \<longleftrightarrow> workers > 0 \<and> n = nat workers"
  by (auto simp: capacity_def)

definition poolInv :: "int \<Rightarrow> Service \<Rightarrow> bool" where
  "poolInv workers s \<longleftrightarrow> sem s = capacity workers \<and> active s = unfinished s \<and>
     (case sem s of None \<Rightarrow> held s = 0 | Some cap \<Rightarrow> held s = running s \<and> held s \<le> cap)"

lemma length_filter_update:
  "i < length xs \<Longrightarrow> length (filter P (xs[i := y])) + (if P (xs ! i) then 1 else 0) = length (filter P xs) + (if P y then 1 else 0)"
proof (induction xs arbitrary: i)
  case (Cons x xs)
  then show ?case by (cases i) auto
qed simp

lemma running_setTask:
  "i < length (tasks s) \<Longrightarrow> running (setTask i st s) + (if tasks s ! i = Running then 1 else 0) = running s + (if st = Running then 1 else 0)"
  unfolding running_def setTask_def using length_filter_update[of i "tasks s" "\<lambda>t. t = Running" st] by simp

lemma unfinished_setTask:
  "i < length (tasks s) \<Longrightarrow> unfinished (setTask i st s) + (if tasks s ! i \<noteq> Finished then 1 else 0) = unfinished s + (if st \<noteq> Finished then 1 else 0)"
  unfolding unfinished_def setTask_def using length_filter_update[of i "tasks s" "\<lambda>t. t \<noteq> Finished" st] by simp

lemma slot_simps [simp]:
  "tasks (takeSlot s) = tasks s" "sem (takeSlot s) = sem s" "active (takeSlot s) = active s"
  "tasks (freeSlot s) = tasks s" "sem (freeSlot s) = sem s" "active (freeSlot s) = active s"
  "sem (setTask i st s) = sem s" "active (setTask i st s) = active s" "held (setTask i st s) = held s"
  "tasks (setTask i st s) = (tasks s)[i := st]"
  by (simp_all add: takeSlot_def freeSlot_def setTask_def)

lemma count_cong: "tasks s = tasks s' \<Longrightarrow> running s = running s' \<and> unfinished s = unfinished s'"
  by (simp add: running_def unfinished_def)
lemma launch_counts:
  "running (launch s) = running s + (if sem s = None then 1 else 0)" "unfinished (launch s) = unfinished s + 1"
  by (simp_all add: launch_def running_def unfinished_def)

text \<open>A move of one task together with what it does to the slots.\<close>

lemma poolInv_move:
  assumes inv: "poolInv workers s" and i: "i < length (tasks s)" and t: "tasks s' = (tasks s)[i := st]" and sem: "sem s' = sem s"
    and act: "active s' + (if tasks s ! i \<noteq> Finished then 1 else 0) = active s + (if st \<noteq> Finished then 1 else 0)"
    and held: "case sem s of None \<Rightarrow> held s' = 0 | Some cap \<Rightarrow> held s' \<le> cap \<and>
      held s' + (if tasks s ! i = Running then 1 else 0) = held s + (if st = Running then 1 else 0)"
  shows "poolInv workers s'"
proof -
  have "tasks s' = tasks (setTask i st s)" using t by simp
  from count_cong[OF this] have counts: "running s' + (if tasks s ! i = Running then 1 else 0) = running s + (if st = Running then 1 else 0)"
      "unfinished s' + (if tasks s ! i \<noteq> Finished then 1 else 0) = unfinished s + (if st \<noteq> Finished then 1 else 0)"
    using running_setTask[OF i, of st] unfinished_setTask[OF i, of st] by simp_all
  have "active s' = unfinished s'" using inv act counts(2) by (auto simp: poolInv_def split: if_splits)
  moreover have "case sem s of None \<Rightarrow> held s' = 0 | Some cap \<Rightarrow> held s' = running s' \<and> held s' \<le> cap"
    using inv held counts(1) by (auto simp: poolInv_def split: option.splits if_splits)
  ultimately show ?thesis using inv sem by (simp add: poolInv_def)
qed

lemma running_pos: "i < length (tasks s) \<Longrightarrow> tasks s ! i = Running \<Longrightarrow> 0 < running s"
  unfolding running_def length_greater_0_conv filter_empty_conv by (metis nth_mem)

lemma unfinished_pos: "i < length (tasks s) \<Longrightarrow> tasks s ! i \<noteq> Finished \<Longrightarrow> 0 < unfinished s"
  unfolding unfinished_def length_greater_0_conv filter_empty_conv by (metis nth_mem)

lemma poolInv_step:
  assumes "poolStep s s'" and inv: "poolInv workers s"
  shows "poolInv workers s'"
  using assms(1)
proof cases
  case Go
  then show ?thesis
    using inv launch_counts[of s] by (auto simp: poolInv_def launch_def split: option.splits)
next
  case (Acquire i)
  show ?thesis
    unfolding Acquire(1) by (rule poolInv_move[OF inv Acquire(2), of _ Running])
      (use Acquire(3,4) inv in \<open>auto simp: poolInv_def hasSlot_def takeSlot_def split: option.splits\<close>)
next
  case (Cancel i)
  show ?thesis
    unfolding Cancel(1) by (rule poolInv_move[OF inv Cancel(2), of _ Finished])
      (use Cancel(3) unfinished_pos[OF Cancel(2)] inv in \<open>auto simp: poolInv_def cancelTask_def setTask_def split: option.splits\<close>)
next
  case (YieldSlot i)
  show ?thesis
    unfolding YieldSlot(1) by (rule poolInv_move[OF inv YieldSlot(2), of _ Yielded])
      (use YieldSlot(3,4) running_pos[OF YieldSlot(2,3)] inv in \<open>auto simp: poolInv_def freeSlot_def split: option.splits\<close>)
next
  case (YieldDone i panicked)
  show ?thesis
    unfolding YieldDone(1) by (rule poolInv_move[OF inv YieldDone(2), of _ "Reacquiring panicked"])
      (use YieldDone(3) inv in \<open>auto simp: poolInv_def split: option.splits\<close>)
next
  case (Reacquire i)
  show ?thesis
    unfolding Reacquire(1) by (rule poolInv_move[OF inv Reacquire(2), of _ Running])
      (use Reacquire(3,4) inv in \<open>auto simp: poolInv_def hasSlot_def takeSlot_def split: option.splits\<close>)
next
  case (Unwind i)
  show ?thesis
    unfolding Unwind(1) by (rule poolInv_move[OF inv Unwind(2), of _ Finished])
      (use Unwind(3,4) unfinished_pos[OF Unwind(2)] inv in
        \<open>auto simp: poolInv_def hasSlot_def takeSlot_def freeSlot_def finishTask_def setTask_def Let_def split: option.splits\<close>)
next
  case (Finish i panicked)
  show ?thesis
    unfolding Finish(1) by (rule poolInv_move[OF inv Finish(2), of _ Finished])
      (use Finish(3) running_pos[OF Finish(2,3)] unfinished_pos[OF Finish(2)] inv in
        \<open>auto simp: poolInv_def freeSlot_def finishTask_def setTask_def Let_def split: option.splits\<close>)
qed

lemma poolInv_reachable: "poolReachable workers s \<Longrightarrow> poolInv workers s"
proof (induction rule: poolReachable.induct)
  case Start
  then show ?case by (simp add: poolInv_def newBounded_def running_def unfinished_def capacity_def)
qed (rule poolInv_step)

text \<open>
  C31. The pool keeps its bound and its books. In every interleaving of launches, bodies, yields, panics and
  cancellations, at most \<open>workers\<close> bodies execute at a time when the pool is bounded, the semaphore holds
  exactly one token per executing body, a body that yields gives up its token and takes one back, also when
  the yielded function panics, and \<^verbatim>\<open>BlockTillDone\<close> returns exactly when every launched task has finished.
\<close>

theorem pool_bounded:
  assumes "poolReachable workers s"
  shows "(workers > 0 \<longrightarrow> running s \<le> nat workers \<and> held s = running s) \<and>
    (blockTillDone s \<longleftrightarrow> (\<forall>t \<in> set (tasks s). t = Finished))"
proof -
  have inv: "poolInv workers s" using poolInv_reachable[OF assms] .
  then have "blockTillDone s \<longleftrightarrow> filter (\<lambda>t. t \<noteq> Finished) (tasks s) = []" by (simp add: blockTillDone_def poolInv_def unfinished_def)
  then show ?thesis using inv by (auto simp: poolInv_def filter_empty_conv capacity_def)
qed


lemma exPool: "poolReachable 1 (setTask 0 Running (takeSlot (launch (launch (newBounded 1)))))"
proof (rule poolReachable.Step[OF poolReachable.Step[OF poolReachable.Step[OF poolReachable.Start]]])
  show "poolStep (newBounded 1) (launch (newBounded 1))" by (rule poolStep.Go)
  show "poolStep (launch (newBounded 1)) (launch (launch (newBounded 1)))" by (rule poolStep.Go)
  show "poolStep (launch (launch (newBounded 1))) (setTask 0 Running (takeSlot (launch (launch (newBounded 1)))))"
    by (rule poolStep.Acquire) (simp_all add: newBounded_def launch_def hasSlot_def)
qed

theorem pool_bounded_witness:
  "running (setTask 0 Running (takeSlot (launch (launch (newBounded 1))))) \<le> 1 \<and>
   \<not> blockTillDone (setTask 0 Running (takeSlot (launch (launch (newBounded 1)))))"
proof -
  let ?s = "setTask 0 Running (takeSlot (launch (launch (newBounded 1))))"
  have "\<not> (\<forall>t \<in> set (tasks ?s). t = Finished)" by code_simp
  then show ?thesis using pool_bounded[OF exPool] by auto
qed


section \<open>Key locks\<close>

text \<open>
  A lock is a channel with room for one token, made on first use; the map says whether the token is in.
  A client asks for a key, is granted it or gives up when its context ends, and releases it with the
  function it was handed.
\<close>

datatype 'k client = Idle | Wants 'k | Holds 'k

record 'k KeyMap =
  locks :: "('k, bool) gomap"
  clients :: "'k client list"

definition newKeyMap :: "nat \<Rightarrow> 'k KeyMap" where
  "newKeyMap n = \<lparr>locks = [], clients = replicate n Idle\<rparr>"

definition ensureLock :: "'k::linorder \<Rightarrow> 'k KeyMap \<Rightarrow> 'k KeyMap" where
  "ensureLock k m = (if map_of (locks m) k = None then m\<lparr>locks := gput k False (locks m)\<rparr> else m)"

definition setClient :: "nat \<Rightarrow> 'k client \<Rightarrow> 'k KeyMap \<Rightarrow> 'k KeyMap" where
  "setClient i c m = m\<lparr>clients := (clients m)[i := c]\<rparr>"

definition setLock :: "'k::linorder \<Rightarrow> bool \<Rightarrow> 'k KeyMap \<Rightarrow> 'k KeyMap" where
  "setLock k full m = m\<lparr>locks := gput k full (locks m)\<rparr>"

inductive lockStep :: "'k::linorder KeyMap \<Rightarrow> 'k KeyMap \<Rightarrow> bool" where
  Request: "i < length (clients m) \<Longrightarrow> clients m ! i = Idle \<Longrightarrow> lockStep m (setClient i (Wants k) (ensureLock k m))"
| GiveUp: "i < length (clients m) \<Longrightarrow> clients m ! i = Wants k \<Longrightarrow> lockStep m (setClient i Idle m)"
| Grant: "i < length (clients m) \<Longrightarrow> clients m ! i = Wants k \<Longrightarrow> map_of (locks m) k = Some False \<Longrightarrow>
    lockStep m (setClient i (Holds k) (setLock k True m))"
| Release: "i < length (clients m) \<Longrightarrow> clients m ! i = Holds k \<Longrightarrow> map_of (locks m) k = Some True \<Longrightarrow>
    lockStep m (setClient i Idle (setLock k False m))"

inductive lockReachable :: "nat \<Rightarrow> 'k::linorder KeyMap \<Rightarrow> bool" for n where
  LStart: "lockReachable n (newKeyMap n)"
| LStep: "lockReachable n m \<Longrightarrow> lockStep m m' \<Longrightarrow> lockReachable n m'"

definition holders :: "'k \<Rightarrow> 'k KeyMap \<Rightarrow> nat" where
  "holders k m = length (filter (\<lambda>c. c = Holds k) (clients m))"

text \<open>A lock exists for every key in use, and its token is in exactly when one client holds the key.\<close>

definition lockInv :: "'k::linorder KeyMap \<Rightarrow> bool" where
  "lockInv m \<longleftrightarrow> gok (locks m) \<and> (\<forall>k. Wants k \<in> set (clients m) \<longrightarrow> map_of (locks m) k \<noteq> None) \<and>
     (\<forall>k. holders k m = (if map_of (locks m) k = Some True then 1 else 0))"

lemma holders_setClient:
  "i < length (clients m) \<Longrightarrow> holders k (setClient i c m) + (if clients m ! i = Holds k then 1 else 0) = holders k m + (if c = Holds k then 1 else 0)"
  unfolding holders_def setClient_def using length_filter_update[of i "clients m" "\<lambda>c. c = Holds k" c] by simp

lemma lock_simps [simp]:
  "clients (ensureLock k m) = clients m" "clients (setLock k b m) = clients m" "locks (setClient i c m) = locks m"
  "holders k' (ensureLock k m) = holders k' m" "holders k' (setLock k b m) = holders k' m"
  "clients (setClient i c m) = (clients m)[i := c]" "locks (setLock k b m) = gput k b (locks m)"
  by (simp_all add: ensureLock_def setLock_def setClient_def holders_def)

lemma ensureLock_locks: "gok (locks m) \<Longrightarrow> gok (locks (ensureLock k m)) \<and>
    map_of (locks (ensureLock k m)) = (map_of (locks m))(k := Some (map_of (locks m) k = Some True))"
  by (auto simp: ensureLock_def gok_gput map_of_gput fun_eq_iff)

lemma lockInv_step:
  assumes "lockStep m m'" and inv: "lockInv m"
  shows "lockInv m'"
  using assms(1)
proof cases
  case (Request i k)
  have gok: "gok (locks m)" using inv by (simp add: lockInv_def)
  have "holders k' m' = holders k' m" for k' using holders_setClient[of i "ensureLock k m" k' "Wants k"] Request by simp
  moreover have "Wants k' \<in> set (clients m') \<Longrightarrow> k' = k \<or> Wants k' \<in> set (clients m)" for k'
    using Request set_update_subset_insert[of "clients m" i "Wants k"] by auto
  ultimately show ?thesis using inv ensureLock_locks[OF gok, of k] Request(1) unfolding lockInv_def by auto
next
  case (GiveUp i k)
  have "holders k' m' = holders k' m" for k' using holders_setClient[of i m k' Idle] GiveUp by simp
  moreover have "Wants k' \<in> set (clients m') \<Longrightarrow> Wants k' \<in> set (clients m)" for k'
    using GiveUp set_update_subset_insert[of "clients m" i Idle] by auto
  ultimately show ?thesis using inv GiveUp(1) unfolding lockInv_def by auto
next
  case (Grant i k)
  have "holders k' m' = holders k' m + (if k' = k then 1 else 0)" for k'
    using holders_setClient[of i "setLock k True m" k' "Holds k"] Grant by auto
  moreover have "Wants k' \<in> set (clients m') \<Longrightarrow> Wants k' \<in> set (clients m)" for k'
    using Grant set_update_subset_insert[of "clients m" i "Holds k"] by auto
  ultimately show ?thesis using inv Grant(1,4) unfolding lockInv_def by (auto simp: gok_gput map_of_gput)
next
  case (Release i k)
  have "holders k' m' + (if k' = k then 1 else 0) = holders k' m" for k'
    using holders_setClient[of i "setLock k False m" k' Idle] Release by auto
  then have "holders k' m' = holders k' m - (if k' = k then 1 else 0)" for k' by (metis add_diff_cancel_right')
  moreover have "Wants k' \<in> set (clients m') \<Longrightarrow> Wants k' \<in> set (clients m)" for k'
    using Release set_update_subset_insert[of "clients m" i Idle] by auto
  ultimately show ?thesis using inv Release(1,4) unfolding lockInv_def by (auto simp: gok_gput map_of_gput split: if_splits)
qed

lemma lockInv_reachable: "lockReachable n m \<Longrightarrow> lockInv m"
proof (induction rule: lockReachable.induct)
  case LStart
  then show ?case by (auto simp: lockInv_def newKeyMap_def holders_def)
qed (rule lockInv_step)

lemma two_holders:
  assumes "i < j" and "j < length xs" and "P (xs ! i)" and "P (xs ! j)"
  shows "2 \<le> length (filter P xs)"
proof -
  have "{i, j} \<subseteq> {k. k < length xs \<and> P (xs ! k)}" using assms by auto
  then have "card {i, j} \<le> card {k. k < length xs \<and> P (xs ! k)}" by (intro card_mono) auto
  then show ?thesis using assms(1) by (simp add: length_filter_conv_card)
qed

text \<open>
  C33. Key locks exclude each other and are never lost. In every interleaving of requests, grants, cancelled
  requests and releases, two clients never hold the same key, a holder's release finds its token (it does not
  block), and a client that wants a key nobody holds can be granted it.
\<close>

theorem keylock_exclusive:
  assumes "lockReachable n m"
  shows "(\<forall>i j k. i < j \<longrightarrow> j < length (clients m) \<longrightarrow> clients m ! i = Holds k \<longrightarrow> clients m ! j \<noteq> Holds k) \<and>
    (\<forall>i k. i < length (clients m) \<longrightarrow> clients m ! i = Holds k \<longrightarrow> lockStep m (setClient i Idle (setLock k False m))) \<and>
    (\<forall>i k. i < length (clients m) \<longrightarrow> clients m ! i = Wants k \<longrightarrow> Holds k \<notin> set (clients m) \<longrightarrow>
       lockStep m (setClient i (Holds k) (setLock k True m)))"
proof -
  have inv: "lockInv m" using lockInv_reachable[OF assms] .
  have one: "holders k m \<le> 1" for k using inv by (simp add: lockInv_def)
  have token: "Holds k \<in> set (clients m) \<longleftrightarrow> map_of (locks m) k = Some True" for k
  proof -
    have "Holds k \<in> set (clients m) \<longleftrightarrow> holders k m \<noteq> 0" by (auto simp: holders_def filter_empty_conv)
    then show ?thesis using inv by (simp add: lockInv_def)
  qed
  have free: "map_of (locks m) k = Some False" if "Wants k \<in> set (clients m)" "Holds k \<notin> set (clients m)" for k
    using inv that token[of k] by (auto simp: lockInv_def)
  show ?thesis
  proof (intro conjI allI impI)
    fix i j k assume "i < j" "j < length (clients m)" "clients m ! i = Holds k"
    then show "clients m ! j \<noteq> Holds k" using two_holders[of i j "clients m" "\<lambda>c. c = Holds k"] one[of k] by (auto simp: holders_def)
  next
    fix i k assume i: "i < length (clients m)" "clients m ! i = Holds k"
    then show "lockStep m (setClient i Idle (setLock k False m))" using token[of k] lockStep.Release[OF i] nth_mem[OF i(1)] by auto
  next
    fix i k assume i: "i < length (clients m)" "clients m ! i = Wants k" "Holds k \<notin> set (clients m)"
    then show "lockStep m (setClient i (Holds k) (setLock k True m))" using free[of k] lockStep.Grant[OF i(1,2)] nth_mem[OF i(1)] by auto
  qed
qed

theorem keylock_exclusive_witness:
  "lockStep (setClient 0 (Wants 7) (ensureLock (7 :: nat) (newKeyMap 2)))
     (setClient 0 (Holds 7) (setLock 7 True (setClient 0 (Wants 7) (ensureLock (7 :: nat) (newKeyMap 2)))))"
proof -
  let ?m = "setClient 0 (Wants 7) (ensureLock (7 :: nat) (newKeyMap 2))"
  have "lockStep (newKeyMap 2) ?m" by (rule lockStep.Request) (simp_all add: newKeyMap_def)
  then have r: "lockReachable 2 ?m" by (rule lockReachable.LStep[OF lockReachable.LStart])
  have "clients ?m = [Wants 7, Idle]" by (simp add: newKeyMap_def numeral_2_eq_2)
  then show ?thesis using keylock_exclusive[OF r] by simp
qed

end
