(* ===== verification/Advisories.thy ===== *)
theory Advisories
  imports Identity
begin

text \<open>
  Advisories of a run: \<^verbatim>\<open>pkg/store/warning.go\<close> (direct warnings, warnings of accepted assessments, the compact
  report) and \<^verbatim>\<open>advisory.go\<close> (supplied overrides).

  The index of direct warnings is keyed by printed forms; \<open>quote\<close> is \<^verbatim>\<open>fmt.Sprintf("%q", ...)\<close> of the detail
  and \<open>marshal\<close> the JSON of the related resources, both parameters here. Nil and empty slices are the
  same list. The producers' contributions that \<^verbatim>\<open>Warnings\<close> also reads from the shards are not modelled.
\<close>

section \<open>Direct warnings\<close>

type_synonym warningKey = "NamedResource \<times> string \<times> string \<times> string \<times> string"

record warningLog =
  warnIndex :: "warningKey list"
  warnOrder :: "Warning list"

definition warningKeyOf :: "(string list \<Rightarrow> string) \<Rightarrow> (NamedResource list \<Rightarrow> string) \<Rightarrow> Warning \<Rightarrow> warningKey" where
  "warningKeyOf quote marshal w =
     (wResource w, wCategory w, wMessage w, if wDetail w \<noteq> [] then quote (wDetail w) else [],
      if wRelated w \<noteq> [] then marshal (wRelated w) else [])"

definition addWarning :: "(string list \<Rightarrow> string) \<Rightarrow> (NamedResource list \<Rightarrow> string) \<Rightarrow> warningLog \<Rightarrow> Warning \<Rightarrow> warningLog" where
  "addWarning quote marshal s w =
     (let key = warningKeyOf quote marshal w
      in if key \<in> set (warnIndex s) then s
         else s\<lparr>warnIndex := key # warnIndex s, warnOrder := warnOrder s @ [w\<lparr>wCount := 1\<rparr>]\<rparr>)"

section \<open>The report\<close>

fun appendNew :: "nat \<Rightarrow> Warning list \<Rightarrow> Warning list \<Rightarrow> Warning list" where
  "appendNew start [] out = out"
| "appendNew start (w # ws) out =
     appendNew start ws (if list_ex (\<lambda>x. compareWarning x w = 0) (drop start out) then out else out @ [w])"

definition appendAssessmentWarnings :: "Warning list list \<Rightarrow> Warning list \<Rightarrow> Warning list" where
  "appendAssessmentWarnings bundles out = foldl (\<lambda>out ws. appendNew (length out) ws out) out bundles"

definition WarnSOPSUnreadable :: string where "WarnSOPSUnreadable = ''SOPSUnreadable''"

text \<open>The condition of the inner loop: \<open>x\<close> starts the group, \<open>y\<close> may join it.\<close>

definition joins :: "Warning \<Rightarrow> Warning \<Rightarrow> bool" where
  "joins x y \<longleftrightarrow> wCategory x = WarnSOPSUnreadable \<and> wCategory y = wCategory x \<and> wResource y = wResource x \<or> compareWarning x y = 0"

definition compactOne :: "(NamedResource \<Rightarrow> DiagnosticIdentity) \<Rightarrow> Warning \<Rightarrow> Warning list \<Rightarrow> Warning" where
  "compactOne subjectOf x others =
     (let w = x\<lparr>wCount := 1\<rparr>;
          w = (if ID (wSubject w) = zeroResource \<and> wResource w \<noteq> zeroResource then w\<lparr>wSubject := subjectOf (wResource w)\<rparr> else w)
      in if wCategory w = WarnSOPSUnreadable
         then w\<lparr>wDetail := remdups_adj (sort (wDetail w @ concat (map wDetail others)))\<rparr>
         else w\<lparr>wCount := 1 + length others\<rparr>)"

function compactWarnings :: "(NamedResource \<Rightarrow> DiagnosticIdentity) \<Rightarrow> Warning list \<Rightarrow> Warning list" where
  "compactWarnings subjectOf [] = []"
| "compactWarnings subjectOf (x # xs) =
     compactOne subjectOf x (takeWhile (joins x) xs) # compactWarnings subjectOf (dropWhile (joins x) xs)"
  by pat_completeness auto
termination
  by (relation "measure (length \<circ> snd)") (auto simp: le_imp_less_Suc length_dropWhile_le)

definition reportWarnings :: "(NamedResource \<Rightarrow> DiagnosticIdentity) \<Rightarrow> Warning list list \<Rightarrow> warningLog \<Rightarrow> Warning list" where
  "reportWarnings subjectOf bundles s =
     compactWarnings subjectOf (sortFunc compareWarning (appendAssessmentWarnings bundles (warnOrder s)))"

section \<open>Supplied overrides\<close>

record SuppliedOverride =
  soResource :: NamedResource
  soSupplyPath :: string
  soKeys :: "string list"

definition recordSuppliedOverride :: "SuppliedOverride \<Rightarrow> SuppliedOverride list \<Rightarrow> SuppliedOverride list" where
  "recordSuppliedOverride x overrides =
     (if list_ex (\<lambda>c. soResource c = soResource x \<and> soSupplyPath c = soSupplyPath x \<and> soKeys c = soKeys x) overrides
      then overrides else overrides @ [x])"

definition carryAdvisories :: "SuppliedOverride list option \<Rightarrow> SuppliedOverride list \<Rightarrow> SuppliedOverride list" where
  "carryAdvisories previous overrides = (case previous of
     None \<Rightarrow> overrides
   | Some prev \<Rightarrow> foldl (\<lambda>os x. recordSuppliedOverride x os) overrides prev)"

definition advisoryEvidence :: "SuppliedOverride list list \<Rightarrow> SuppliedOverride list" where
  "advisoryEvidence bundles = concat bundles"

section \<open>A direct warning is kept once\<close>

definition directPayload :: "Warning \<Rightarrow> NamedResource \<times> string \<times> string \<times> string list \<times> NamedResource list" where
  "directPayload w = (wResource w, wCategory w, wMessage w, wDetail w, wRelated w)"

lemma printed_inject:
  assumes "inj_on f A" and "\<forall>xs. xs \<noteq> [] \<longrightarrow> f xs \<noteq> []" and "xs \<in> A" and "ys \<in> A"
  shows "(if xs \<noteq> [] then f xs else []) = (if ys \<noteq> [] then f ys else []) \<longleftrightarrow> xs = ys"
  using assms by (metis inj_onD)

lemma warningKeyOf_inject:
  assumes "inj_on quote (wDetail ` W)" and "inj_on marshal (wRelated ` W)"
    and "\<forall>ds. ds \<noteq> [] \<longrightarrow> quote ds \<noteq> []" and "\<forall>rs. rs \<noteq> [] \<longrightarrow> marshal rs \<noteq> []" and "v \<in> W" and "w \<in> W"
  shows "warningKeyOf quote marshal v = warningKeyOf quote marshal w \<longleftrightarrow> directPayload v = directPayload w"
  unfolding warningKeyOf_def directPayload_def prod.inject
    printed_inject[OF assms(1,3) imageI[OF assms(5)] imageI[OF assms(6)]]
    printed_inject[OF assms(2,4) imageI[OF assms(5)] imageI[OF assms(6)]] ..

lemma directPayload_count [simp]: "directPayload (w\<lparr>wCount := n\<rparr>) = directPayload w"
  by (simp add: directPayload_def)

lemma warnIndex_set:
  "set (warnIndex (foldl (addWarning quote marshal) \<lparr>warnIndex = [], warnOrder = []\<rparr> ws)) = warningKeyOf quote marshal ` set ws"
  by (induction ws rule: rev_induct) (auto simp: addWarning_def Let_def)

text \<open>
  Over every sequence of \<open>AddWarning\<close> calls the log holds each complete payload (resource, category,
  message, detail and related resources) once, in the order of first occurrence, counted as one, whatever count came in;
  a payload is in the log exactly when it was added. The printed forms have to tell the details and the related
  resources of the added warnings apart, and are not empty when those are not.
\<close>

theorem addWarning_keeps_once:
  assumes "inj_on quote (wDetail ` set ws)" and "inj_on marshal (wRelated ` set ws)"
    and "\<forall>ds. ds \<noteq> [] \<longrightarrow> quote ds \<noteq> []" and "\<forall>rs. rs \<noteq> [] \<longrightarrow> marshal rs \<noteq> []"
  shows "map directPayload (warnOrder (foldl (addWarning quote marshal) \<lparr>warnIndex = [], warnOrder = []\<rparr> ws)) =
      rev (remdups (rev (map directPayload ws))) \<and>
    (\<forall>w \<in> set (warnOrder (foldl (addWarning quote marshal) \<lparr>warnIndex = [], warnOrder = []\<rparr> ws)). wCount w = 1)"
  using assms(1,2)
proof (induction ws rule: rev_induct)
  case (snoc w ws)
  define s where "s = foldl (addWarning quote marshal) \<lparr>warnIndex = [], warnOrder = []\<rparr> ws"
  have inj: "inj_on quote (wDetail ` set ws)" "inj_on marshal (wRelated ` set ws)"
    using snoc.prems by (auto elim: inj_on_subset)
  have IH: "map directPayload (warnOrder s) = rev (remdups (rev (map directPayload ws)))" "\<forall>w \<in> set (warnOrder s). wCount w = 1"
    using snoc.IH[OF inj] unfolding s_def by blast+
  have step: "foldl (addWarning quote marshal) \<lparr>warnIndex = [], warnOrder = []\<rparr> (ws @ [w]) = addWarning quote marshal s w"
    by (simp add: s_def)
  have "warningKeyOf quote marshal w = warningKeyOf quote marshal v \<longleftrightarrow> directPayload w = directPayload v" if "v \<in> set ws" for v
    using warningKeyOf_inject[OF snoc.prems assms(3,4), of w v] that by simp
  then have "warningKeyOf quote marshal w \<in> set (warnIndex s) \<longleftrightarrow> directPayload w \<in> directPayload ` set ws"
    unfolding s_def warnIndex_set image_iff by blast
  then show ?case unfolding step using IH by (auto simp: addWarning_def Let_def)
qed simp

definition sampleWarning :: "string \<Rightarrow> string list \<Rightarrow> nat \<Rightarrow> Warning" where
  "sampleWarning category detail n =
     \<lparr>wResource = zeroResource, wSubject = \<lparr>ID = zeroResource, Resource = zeroResource, Path = []\<rparr>, wRelated = [],
      wCategory = category, wMessage = ''m'', wDetail = detail, wCount = n\<rparr>"

definition sampleQuote :: "string list \<Rightarrow> string" where
  "sampleQuote ds = ''['' @ concat ds @ '']''"

theorem addWarning_keeps_once_witness:
  "map directPayload (warnOrder (foldl (addWarning sampleQuote (\<lambda>_. ''[]'')) \<lparr>warnIndex = [], warnOrder = []\<rparr>
      [sampleWarning ''a'' [''k''] 3, sampleWarning ''a'' [''l''] 1, sampleWarning ''a'' [''k''] 7])) =
    [directPayload (sampleWarning ''a'' [''k''] 1), directPayload (sampleWarning ''a'' [''l''] 1)]"
proof -
  have "inj_on sampleQuote (wDetail ` set [sampleWarning ''a'' [''k''] 3, sampleWarning ''a'' [''l''] 1, sampleWarning ''a'' [''k''] 7])"
    "inj_on (\<lambda>_. ''[]'') (wRelated ` set [sampleWarning ''a'' [''k''] 3, sampleWarning ''a'' [''l''] 1, sampleWarning ''a'' [''k''] 7])"
    "\<forall>ds. ds \<noteq> [] \<longrightarrow> sampleQuote ds \<noteq> []" "\<forall>rs. rs \<noteq> [] \<longrightarrow> (\<lambda>_ :: NamedResource list. ''[]'') rs \<noteq> []"
    by (auto simp: inj_on_def sampleQuote_def sampleWarning_def)
  then show ?thesis
    using addWarning_keeps_once[of sampleQuote "[sampleWarning ''a'' [''k''] 3, sampleWarning ''a'' [''l''] 1, sampleWarning ''a'' [''k''] 7]" "\<lambda>_. ''[]''"]
    by (simp add: sampleWarning_def directPayload_def)
qed

section \<open>The compact report\<close>

text \<open>What is reported together: all unreadable keys of one resource, or all warnings with the same payload.\<close>

definition warningClass :: "Warning \<Rightarrow> NamedResource + (string \<times> NamedResource \<times> NamedResource list \<times> string \<times> string list)" where
  "warningClass w = (if wCategory w = WarnSOPSUnreadable then Inl (wResource w) else Inr (warningPayload w))"

lemma joins_class: "joins x y \<longleftrightarrow> warningClass x = warningClass y"
  unfolding joins_def compareWarning_eq_0 warningClass_def by (auto simp: warningPayload_def)

text \<open>Sorted warnings of one class stand together.\<close>

lemma cmp_le_0: "cmp a b \<le> 0 \<longleftrightarrow> a \<le> b"
  by (auto simp: cmp_def)

lemma compareWarning_le:
  assumes "compareWarning a b \<le> 0"
  shows "wCategory a \<le> wCategory b" "wCategory a = wCategory b \<Longrightarrow> wResource a \<le> wResource b"
  using assms unfolding compareWarning_def less_eq_NamedResource_def by (auto simp: cmp_le_0 split: if_splits)

lemma class_contiguous:
  assumes "compareWarning x y \<le> 0" and "compareWarning y z \<le> 0" and "warningClass x = warningClass z"
  shows "warningClass y = warningClass x"
proof (cases "wCategory x = WarnSOPSUnreadable")
  case True
  then have z: "wCategory z = wCategory x" "wResource z = wResource x" using assms(3) by (auto simp: warningClass_def split: if_splits)
  then have "wCategory y = wCategory x" using compareWarning_le(1)[OF assms(1)] compareWarning_le(1)[OF assms(2)] by simp
  moreover from this have "wResource y = wResource x"
    using compareWarning_le(2)[OF assms(1)] compareWarning_le(2)[OF assms(2)] z by (simp add: order_antisym)
  ultimately show ?thesis by (simp add: warningClass_def True)
next
  case False
  then have "compareWarning x z = 0" using assms(3) unfolding compareWarning_eq_0 by (auto simp: warningClass_def split: if_splits)
  then have "compareWarning z x \<le> 0" using warning_order.swap[of x z] by simp
  then have "compareWarning y x \<le> 0" using warning_order.trans[OF assms(2)] by blast
  then have "compareWarning x y = 0" using assms(1) warning_order.swap[of x y] by simp
  then show ?thesis using joins_class[of x y] by (simp add: joins_def)
qed

lemma class_split:
  assumes "sorted_wrt (\<lambda>a b. compareWarning a b \<le> 0) (x # xs)"
  shows "takeWhile (joins x) xs = filter (\<lambda>y. warningClass y = warningClass x) xs"
    and "\<forall>y \<in> set (dropWhile (joins x) xs). warningClass y \<noteq> warningClass x"
proof -
  show none: "\<forall>y \<in> set (dropWhile (joins x) xs). warningClass y \<noteq> warningClass x"
  proof (cases "dropWhile (joins x) xs")
    case (Cons z zs)
    have z: "\<not> joins x z" using hd_dropWhile[of "joins x" xs] Cons by simp
    have sorted: "sorted_wrt (\<lambda>a b. compareWarning a b \<le> 0) (z # zs)"
      using assms Cons sorted_wrt_dropWhile[of "\<lambda>a b. compareWarning a b \<le> 0" xs "joins x"] by simp
    have "z \<in> set xs" using Cons set_dropWhileD[of z "joins x" xs] by simp
    then have xz: "compareWarning x z \<le> 0" using assms by simp
    have "warningClass y \<noteq> warningClass x" if "y \<in> set zs" for y
      using class_contiguous[OF xz, of y] sorted that z joins_class[of x z] by auto
    then show ?thesis using Cons z joins_class[of x z] by auto
  next
    case Nil
    then show ?thesis by (simp only: list.set(1) ball_simps)
  qed
  have "takeWhile (joins x) xs = filter (\<lambda>y. warningClass y = warningClass x) (takeWhile (joins x) xs)"
    by (rule sym, rule filter_True) (use joins_class in \<open>auto dest: set_takeWhileD\<close>)
  also have "\<dots> = filter (\<lambda>y. warningClass y = warningClass x) (takeWhile (joins x) xs @ dropWhile (joins x) xs)"
    unfolding filter_append using none by (simp add: filter_empty_conv del: takeWhile_dropWhile_id)
  finally show "takeWhile (joins x) xs = filter (\<lambda>y. warningClass y = warningClass x) xs" by simp
qed

lemma compactOne_class: "warningClass (compactOne subjectOf x ys) = warningClass x"
  by (simp add: compactOne_def warningClass_def warningPayload_def Let_def)

text \<open>Each reported warning is made from all warnings of its class, and each class is reported once.\<close>

lemma compactWarnings_classes:
  assumes "sorted_wrt (\<lambda>a b. compareWarning a b \<le> 0) xs"
  shows "distinct (map warningClass (compactWarnings subjectOf xs)) \<and>
    set (map warningClass (compactWarnings subjectOf xs)) = warningClass ` set xs \<and>
    (\<forall>w \<in> set (compactWarnings subjectOf xs). \<exists>x ys. filter (\<lambda>y. warningClass y = warningClass w) xs = x # ys \<and> w = compactOne subjectOf x ys)"
  using assms
proof (induction subjectOf xs rule: compactWarnings.induct)
  case (2 subjectOf x xs)
  let ?rest = "dropWhile (joins x) xs" and ?same = "takeWhile (joins x) xs"
  note split = class_split[OF "2.prems"]
  have sorted: "sorted_wrt (\<lambda>a b. compareWarning a b \<le> 0) ?rest" using "2.prems" by (simp add: sorted_wrt_dropWhile)
  have IH: "distinct (map warningClass (compactWarnings subjectOf ?rest))"
      "set (map warningClass (compactWarnings subjectOf ?rest)) = warningClass ` set ?rest"
      "\<forall>w \<in> set (compactWarnings subjectOf ?rest). \<exists>x ys. filter (\<lambda>y. warningClass y = warningClass w) ?rest = x # ys \<and> w = compactOne subjectOf x ys"
    using "2.IH"[OF sorted] by blast+
  have xs: "xs = ?same @ ?rest" by simp
  have same: "\<forall>y \<in> set ?same. warningClass y = warningClass x" using joins_class by (auto dest: set_takeWhileD)
  have cover: "warningClass ` set (x # xs) = insert (warningClass x) (warningClass ` set ?rest)"
    by (subst xs) (use same in \<open>auto simp del: takeWhile_dropWhile_id\<close>)
  have others: "filter (\<lambda>y. warningClass y = k) (x # xs) = filter (\<lambda>y. warningClass y = k) ?rest" if "k \<noteq> warningClass x" for k
    by (subst xs) (use same that in \<open>auto simp: filter_empty_conv simp del: takeWhile_dropWhile_id\<close>)
  have fresh: "warningClass x \<notin> warningClass ` set ?rest" using split(2) by auto
  have rest: "\<exists>x' ys. filter (\<lambda>y. warningClass y = warningClass w) (x # xs) = x' # ys \<and> w = compactOne subjectOf x' ys"
    if w: "w \<in> set (compactWarnings subjectOf ?rest)" for w
  proof -
    have "warningClass w \<in> warningClass ` set ?rest" using w IH(2) by auto
    then have "warningClass w \<noteq> warningClass x" using fresh by auto
    then show ?thesis using others IH(3) w by simp
  qed
  show ?case
  proof (intro conjI ballI)
    show "distinct (map warningClass (compactWarnings subjectOf (x # xs)))" using IH(1,2) fresh by (simp add: compactOne_class)
    show "set (map warningClass (compactWarnings subjectOf (x # xs))) = warningClass ` set (x # xs)"
      unfolding cover using IH(2) by (simp add: compactOne_class)
    fix w assume "w \<in> set (compactWarnings subjectOf (x # xs))"
    then consider "w = compactOne subjectOf x ?same" | "w \<in> set (compactWarnings subjectOf ?rest)" by auto
    then show "\<exists>x' ys. filter (\<lambda>y. warningClass y = warningClass w) (x # xs) = x' # ys \<and> w = compactOne subjectOf x' ys"
    proof cases
      case 1
      then have "warningClass w = warningClass x" by (simp add: compactOne_class)
      then show ?thesis using 1 split(1) by (intro exI[of _ x] exI[of _ ?same]) simp
    qed (rule rest)
  qed
qed simp

text \<open>
  C34. The compact report loses nothing and repeats nothing. For sorted warnings, each payload is reported
  once with the number of its occurrences; the unreadable keys of a resource are reported once for the
  resource, as the sorted set of all of them.
\<close>

theorem compactWarnings_exact:
  assumes "sorted_wrt (\<lambda>a b. compareWarning a b \<le> 0) xs"
  shows "distinct (map warningClass (compactWarnings subjectOf xs)) \<and>
    set (map warningClass (compactWarnings subjectOf xs)) = warningClass ` set xs \<and>
    (\<forall>w \<in> set (compactWarnings subjectOf xs).
       if wCategory w = WarnSOPSUnreadable
       then wCount w = 1 \<and> sorted_wrt (<) (wDetail w) \<and>
            set (wDetail w) = \<Union> (set ` wDetail ` {x \<in> set xs. wCategory x = WarnSOPSUnreadable \<and> wResource x = wResource w})
       else wCount w = length (filter (\<lambda>x. warningPayload x = warningPayload w) xs))"
proof (intro conjI ballI)
  note spec = compactWarnings_classes[OF assms, of subjectOf]
  show "distinct (map warningClass (compactWarnings subjectOf xs))"
    "set (map warningClass (compactWarnings subjectOf xs)) = warningClass ` set xs" using spec by blast+
  fix w assume "w \<in> set (compactWarnings subjectOf xs)"
  then obtain x ys where x: "filter (\<lambda>y. warningClass y = warningClass w) xs = x # ys" "w = compactOne subjectOf x ys"
    using spec by blast
  have members: "set (x # ys) = {y \<in> set xs. warningClass y = warningClass w}" using x(1) by (metis set_filter)
  show "if wCategory w = WarnSOPSUnreadable
       then wCount w = 1 \<and> sorted_wrt (<) (wDetail w) \<and>
            set (wDetail w) = \<Union> (set ` wDetail ` {x \<in> set xs. wCategory x = WarnSOPSUnreadable \<and> wResource x = wResource w})
       else wCount w = length (filter (\<lambda>x. warningPayload x = warningPayload w) xs)"
  proof (cases "wCategory w = WarnSOPSUnreadable")
    case True
    then have cat: "wCategory x = WarnSOPSUnreadable" using x(2) by (auto simp: compactOne_def Let_def split: if_splits)
    have class_eq: "warningClass y = warningClass w \<longleftrightarrow> wCategory y = WarnSOPSUnreadable \<and> wResource y = wResource w" for y
      using True by (auto simp: warningClass_def)
    have "wDetail w = remdups_adj (sort (concat (map wDetail (x # ys))))" "wCount w = 1"
      using x(2) cat by (simp_all add: compactOne_def Let_def)
    moreover have "set (concat (map wDetail (x # ys))) = \<Union> (set ` wDetail ` {y \<in> set xs. wCategory y = WarnSOPSUnreadable \<and> wResource y = wResource w})"
      using members class_eq by (simp only: set_concat set_map)
    ultimately show ?thesis using True by (simp only: if_True strict_sorted_remdups_adj sorted_sort remdups_adj_set set_sort simp_thms)
  next
    case False
    then have cat: "wCategory x \<noteq> WarnSOPSUnreadable" using x(2) by (auto simp: compactOne_def Let_def split: if_splits)
    have "warningClass y = warningClass w \<longleftrightarrow> warningPayload y = warningPayload w" for y
      using False by (auto simp: warningClass_def warningPayload_def)
    moreover have "wCount w = length (x # ys)" using x(2) cat by (simp add: compactOne_def Let_def)
    ultimately show ?thesis using False x(1) by simp
  qed
qed

theorem compactWarnings_exact_witness:
  "map wDetail (compactWarnings (\<lambda>id. \<lparr>ID = id, Resource = id, Path = []\<rparr>)
      [sampleWarning WarnSOPSUnreadable [''l''] 1, sampleWarning WarnSOPSUnreadable [''k''] 1]) = [[''k'', ''l'']] \<and>
   distinct (map warningClass (compactWarnings (\<lambda>id. \<lparr>ID = id, Resource = id, Path = []\<rparr>)
      [sampleWarning WarnSOPSUnreadable [''k''] 1, sampleWarning WarnSOPSUnreadable [''l''] 1]))"
proof
  show "map wDetail (compactWarnings (\<lambda>id. \<lparr>ID = id, Resource = id, Path = []\<rparr>)
      [sampleWarning WarnSOPSUnreadable [''l''] 1, sampleWarning WarnSOPSUnreadable [''k''] 1]) = [[''k'', ''l'']]" by code_simp
  have "sorted_wrt (\<lambda>a b. compareWarning a b \<le> 0)
      [sampleWarning WarnSOPSUnreadable [''k''] 1, sampleWarning WarnSOPSUnreadable [''l''] 1]" by code_simp
  then show "distinct (map warningClass (compactWarnings (\<lambda>id. \<lparr>ID = id, Resource = id, Path = []\<rparr>)
      [sampleWarning WarnSOPSUnreadable [''k''] 1, sampleWarning WarnSOPSUnreadable [''l''] 1]))"
    by (rule compactWarnings_exact[THEN conjunct1])
qed

end
