(* ===== verification/Kinds.thy ===== *)
theory Kinds
  imports Identity
begin

text \<open>
  The registry of kinds: \<^verbatim>\<open>pkg/manifest/kind.go\<close>. Decoders and API versions come from upstream packages and are
  left out of the entries; which kinds can bind a local source is kept as a flag.
\<close>

record KindInfo =
  kGroup :: string
  kKind :: string
  Tracked :: bool
  Runnable :: bool
  StatusKind :: bool
  Discovery :: bool
  TestKind :: bool
  ParentKind :: bool
  Data :: bool
  Structural :: bool
  SourceOnly :: bool
  TransientOutput :: bool
  Render :: bool
  SourceArtifact :: bool
  bindsLocal :: bool

definition plainKind :: "string \<Rightarrow> string \<Rightarrow> KindInfo" where
  "plainKind g k =
     \<lparr>kGroup = g, kKind = k, Tracked = False, Runnable = False, StatusKind = False, Discovery = False, TestKind = False,
      ParentKind = False, Data = False, Structural = False, SourceOnly = False, TransientOutput = False, Render = False,
      SourceArtifact = False, bindsLocal = False\<rparr>"

definition helmReleaseDomain :: string where "helmReleaseDomain = ''helm.toolkit.fluxcd.io''"
definition sourceDomain :: string where "sourceDomain = ''source.toolkit.fluxcd.io''"
definition fluxOperatorDomain :: string where "fluxOperatorDomain = ''fluxcd.controlplane.io''"

section \<open>The table\<close>

definition renderKinds :: "KindInfo list" where
  "renderKinds =
    [(plainKind fluxKustomizeDomain ''Kustomization'')
       \<lparr>Tracked := True, Runnable := True, StatusKind := True, Discovery := True, TestKind := True, ParentKind := True,
        Structural := True, Render := True\<rparr>,
     (plainKind helmReleaseDomain ''HelmRelease'')
       \<lparr>Tracked := True, Runnable := True, StatusKind := True, TestKind := True, ParentKind := True, SourceOnly := True,
        TransientOutput := True, Render := True\<rparr>]"

definition sourceKinds :: "KindInfo list" where
  "sourceKinds =
    [(plainKind sourceDomain ''GitRepository'')
       \<lparr>Tracked := True, Runnable := True, StatusKind := True, Discovery := True, TestKind := True, SourceArtifact := True,
        bindsLocal := True\<rparr>,
     (plainKind sourceDomain ''OCIRepository'')
       \<lparr>Tracked := True, Runnable := True, StatusKind := True, Discovery := True, TestKind := True, SourceArtifact := True,
        bindsLocal := True\<rparr>,
     (plainKind sourceDomain ''HelmRepository'')
       \<lparr>Tracked := True, Runnable := True, StatusKind := True, Discovery := True, TestKind := True\<rparr>,
     (plainKind sourceDomain ''HelmChart'')
       \<lparr>Tracked := True, Runnable := True, StatusKind := True, Discovery := True\<rparr>,
     (plainKind sourceDomain ''ExternalArtifact'')
       \<lparr>Tracked := True, Runnable := True, StatusKind := True, Discovery := True, SourceArtifact := True\<rparr>,
     (plainKind sourceDomain ''Bucket'')
       \<lparr>Tracked := True, Runnable := True, StatusKind := True, Discovery := True, TestKind := True, SourceArtifact := True,
        bindsLocal := True\<rparr>]"

definition inputKinds :: "KindInfo list" where
  "inputKinds =
    [(plainKind fluxOperatorDomain ''ResourceSet'')
       \<lparr>Tracked := True, Runnable := True, Discovery := True, ParentKind := True\<rparr>,
     (plainKind fluxOperatorDomain ''ResourceSetInputProvider'') \<lparr>Tracked := True, Discovery := True\<rparr>,
     (plainKind [] ''ConfigMap'') \<lparr>Tracked := True, Data := True\<rparr>,
     (plainKind [] ''Secret'') \<lparr>Tracked := True, Data := True\<rparr>,
     (plainKind ''source.extensions.fluxcd.io'' ''ArtifactGenerator'')
       \<lparr>Tracked := True, Runnable := True, StatusKind := True, Discovery := True\<rparr>]"

definition kindTable :: "KindInfo list" where
  "kindTable = renderKinds @ sourceKinds @ inputKinds"

text \<open>The index maps a kind to its position; later entries of a kind would win.\<close>

definition kindIndex :: "string \<Rightarrow> nat option" where
  "kindIndex = foldl (\<lambda>m i. m(kKind (kindTable ! i) \<mapsto> i)) Map.empty [0..<length kindTable]"

definition kindInfo :: "NamedResource \<Rightarrow> KindInfo" where
  "kindInfo n = (case kindIndex (Kind n) of
     Some i \<Rightarrow> if kGroup (kindTable ! i) = Group n then kindTable ! i else plainKind (Group n) (Kind n)
   | None \<Rightarrow> plainKind (Group n) (Kind n))"

definition canBindLocal :: "NamedResource \<Rightarrow> bool" where
  "canBindLocal n = (case kindIndex (Kind n) of
     Some i \<Rightarrow> kGroup (kindTable ! i) = Group n \<and> bindsLocal (kindTable ! i) \<and> Name n \<noteq> [] \<and> Namespace n \<noteq> []
   | None \<Rightarrow> False)"

section \<open>Lookups find the entry of the group and kind\<close>

lemma kind_fields: "length kindTable = 13" "distinct (map kKind kindTable)"
  by (simp_all add: kindTable_def renderKinds_def sourceKinds_def inputKinds_def plainKind_def)

lemma foldl_index:
  "distinct (map f is) \<Longrightarrow> foldl (\<lambda>m i. m(f i \<mapsto> i)) m is k = Some i \<longleftrightarrow>
     i \<in> set is \<and> f i = k \<or> k \<notin> f ` set is \<and> m k = Some i"
  by (induction "is" arbitrary: m) auto

lemma kindIndex_Some: "kindIndex k = Some i \<longleftrightarrow> i < length kindTable \<and> kKind (kindTable ! i) = k"
proof -
  have "distinct (map (\<lambda>i. kKind (kindTable ! i)) [0..<length kindTable])"
    using kind_fields(2) by (auto simp: distinct_conv_nth)
  from foldl_index[OF this] show ?thesis unfolding kindIndex_def by simp
qed

lemma kindInfo_registered:
  assumes "e \<in> set kindTable" and "kGroup e = Group n" and "kKind e = Kind n"
  shows "kindInfo n = e"
proof -
  obtain i where i: "i < length kindTable" "kindTable ! i = e" using assms(1) by (auto simp: in_set_conv_nth)
  then have "kindIndex (Kind n) = Some i" using assms(3) by (simp add: kindIndex_Some)
  then show ?thesis using i(2) assms(2) by (simp add: kindInfo_def)
qed

lemma kindInfo_unregistered:
  assumes "\<forall>e \<in> set kindTable. kGroup e \<noteq> Group n \<or> kKind e \<noteq> Kind n"
  shows "kindInfo n = plainKind (Group n) (Kind n)"
  using assms by (auto simp: kindInfo_def kindIndex_Some split: option.splits)

lemma kindInfo_names: "kGroup (kindInfo n) = Group n" "kKind (kindInfo n) = Kind n"
  by (auto simp: kindInfo_def kindIndex_Some plainKind_def split: option.splits)

end
