(* ===== verification/Decisions.thy ===== *)
theory Decisions
  imports Kinds "HOL-Library.Word"
begin

text \<open>
  Admission decisions: \<^verbatim>\<open>pkg/selection/decision.go\<close>, \<^verbatim>\<open>request.go\<close> and the publication of decisions by the
  session (\<^verbatim>\<open>session.go\<close>).

  A decision maps identities to a byte of roles, spread over 64 buckets. Buckets are Go maps that decisions
  share until one of them is written, so they live in a heap and a decision holds their addresses. The hash that
  picks a bucket is seeded at random, so it is an argument. The decision \<^verbatim>\<open>nil\<close> is \<open>None\<close>.
\<close>

unbundle bit_operations_syntax

section \<open>Roles\<close>

definition needed :: "8 word" where "needed = 2 ^ 0"
definition selected :: "8 word" where "selected = 2 ^ 1"
definition dirty :: "8 word" where "dirty = 2 ^ 2"
definition ordinary :: "8 word" where "ordinary = 2 ^ 3"
definition promoted :: "8 word" where "promoted = 2 ^ 4"

definition decisionBuckets :: nat where "decisionBuckets = 64"

type_synonym mapHeap = "(NamedResource, 8 word) gomap list"

record Decision =
  buckets :: "nat option list"
  revision :: "64 word"
  execution :: bool

type_synonym hasher = "NamedResource \<Rightarrow> 64 word"

definition bucketOf :: "hasher \<Rightarrow> NamedResource \<Rightarrow> nat" where
  "bucketOf h n = unat (h n) mod decisionBuckets"

definition mapAt :: "mapHeap \<Rightarrow> nat option \<Rightarrow> (NamedResource, 8 word) gomap" where
  "mapAt hp a = (case a of None \<Rightarrow> [] | Some i \<Rightarrow> hp ! i)"

definition roleIn :: "(NamedResource, 8 word) gomap \<Rightarrow> NamedResource \<Rightarrow> 8 word" where
  "roleIn m n = (case map_of m n of None \<Rightarrow> 0 | Some r \<Rightarrow> r)"

definition rolesOf :: "hasher \<Rightarrow> mapHeap \<Rightarrow> Decision \<Rightarrow> NamedResource \<Rightarrow> 8 word" where
  "rolesOf h hp d n = roleIn (mapAt hp (buckets d ! bucketOf h n)) n"

definition roles :: "hasher \<Rightarrow> mapHeap \<Rightarrow> Decision option \<Rightarrow> NamedResource \<Rightarrow> 8 word" where
  "roles h hp d n = (case d of None \<Rightarrow> needed OR selected OR dirty OR ordinary | Some d \<Rightarrow> rolesOf h hp d n)"

definition reconciles :: "hasher \<Rightarrow> mapHeap \<Rightarrow> Decision option \<Rightarrow> NamedResource \<Rightarrow> bool" where
  "reconciles h hp d n \<longleftrightarrow> roles h hp d n AND needed \<noteq> 0"

definition outputs :: "hasher \<Rightarrow> mapHeap \<Rightarrow> Decision option \<Rightarrow> NamedResource \<Rightarrow> bool" where
  "outputs h hp d n \<longleftrightarrow> roles h hp d n AND selected \<noteq> 0"

definition changedRole :: "hasher \<Rightarrow> mapHeap \<Rightarrow> Decision option \<Rightarrow> NamedResource \<Rightarrow> bool" where
  "changedRole h hp d n \<longleftrightarrow> roles h hp d n AND dirty \<noteq> 0"

definition ordinaryDemand :: "hasher \<Rightarrow> mapHeap \<Rightarrow> Decision option \<Rightarrow> NamedResource \<Rightarrow> bool" where
  "ordinaryDemand h hp d n \<longleftrightarrow> roles h hp d n AND ordinary \<noteq> 0"

definition ordering :: "hasher \<Rightarrow> mapHeap \<Rightarrow> Decision option \<Rightarrow> NamedResource \<Rightarrow> bool \<Rightarrow> bool \<Rightarrow> bool" where
  "ordering h hp d n present indexed \<longleftrightarrow> d = None \<or> reconciles h hp d n \<or> \<not> present \<and> \<not> indexed"

definition selectedNamespaces :: "mapHeap \<Rightarrow> Decision option \<Rightarrow> string set option" where
  "selectedNamespaces hp d = (case d of None \<Rightarrow> None | Some d \<Rightarrow>
     let names = [Namespace n. b \<leftarrow> buckets d, (n, r) \<leftarrow> mapAt hp b, r AND selected \<noteq> 0, \<not> reportHidden n, Namespace n \<noteq> []]
     in if names = [] then None else Some (set names))"

section \<open>Requests and projections\<close>

record Request =
  Roots :: "NamedResource list"
  Changed :: bool
  Labels :: "(string, string) gomap"

definition includesRenderKinds :: "Request \<Rightarrow> bool \<Rightarrow> bool" where
  "includesRenderKinds q byName \<longleftrightarrow>
     (\<not> byName \<or> Name (hd (Roots q)) = []) \<and>
     list_all (\<lambda>r. (\<not> byName \<or> Name r = []) \<and> Namespace r = Namespace (hd (Roots q))) (Roots q) \<and>
     list_all (\<lambda>e. Render e \<longrightarrow> list_ex (\<lambda>r. Group r = kGroup e \<and> Kind r = kKind e) (Roots q)) kindTable"

definition matchesRequest :: "Request \<Rightarrow> NamedResource \<Rightarrow> bool \<Rightarrow> bool" where
  "matchesRequest q n byName \<longleftrightarrow>
     Roots q = [] \<or>
     list_ex (\<lambda>r. Group r = Group n \<and> Kind r = Kind n \<and> (\<not> byName \<or> Name r = [] \<or> Name r = Name n) \<and>
       (Namespace r = [] \<or> Namespace n = [] \<or> Namespace r = Namespace n)) (Roots q) \<or>
     includesRenderKinds q byName \<and>
       (Namespace (hd (Roots q)) = [] \<or> Namespace n = [] \<or> Namespace n = Namespace (hd (Roots q)))"

definition restrictedRequest :: "Request \<Rightarrow> bool" where
  "restrictedRequest q \<longleftrightarrow>
     \<not> (\<not> Changed q \<and> (Roots q = [] \<or> includesRenderKinds q True \<and> Namespace (hd (Roots q)) = []))"

text \<open>The readers of a file that the decision excludes are pruned from the index; a file without readers is dropped.\<close>

definition projectIndex ::
  "hasher \<Rightarrow> mapHeap \<Rightarrow> Decision option \<Rightarrow> (string, NamedResource list) gomap option \<Rightarrow> (string, NamedResource list) gomap option" where
  "projectIndex h hp d index =
     (case index of None \<Rightarrow> None | Some readers \<Rightarrow>
      if d = None then index
      else Some (foldl (\<lambda>m (file, rs).
        if list_ex (\<lambda>r. \<not> reconciles h hp d r) rs
        then let kept = filter (reconciles h hp d) rs in if kept = [] then gdel file m else gput file kept m
        else m) readers readers))"

text \<open>
  Documents of an emission are collected under its reporting parent, in the order of the emissions, unless neither
  the emitter nor the document is admitted. Emitters that scope their documents themselves are collected whole.
\<close>

record 'doc EmissionFacts =
  emitter :: NamedResource
  documentScope :: bool
  emissionParent :: NamedResource
  facts :: "('doc \<times> NamedResource) list"

fun addToBatch :: "NamedResource \<Rightarrow> 'doc \<Rightarrow> (NamedResource \<times> 'doc list) list \<Rightarrow> (NamedResource \<times> 'doc list) list" where
  "addToBatch p doc [] = [(p, [doc])]"
| "addToBatch p doc ((q, docs) # bs) = (if q = p then (q, docs @ [doc]) # bs else (q, docs) # addToBatch p doc bs)"

definition collectEmissions ::
  "hasher \<Rightarrow> mapHeap \<Rightarrow> Decision option \<Rightarrow> 'doc EmissionFacts list \<Rightarrow> (NamedResource \<times> 'doc list) list" where
  "collectEmissions h hp d es =
     foldl (\<lambda>bs e. foldl (\<lambda>bs (doc, n).
       if \<not> documentScope e \<and> \<not> outputs h hp d (emitter e) \<and> \<not> reconciles h hp d n then bs
       else addToBatch (emissionParent e) doc bs) bs (facts e)) [] es"

section \<open>Including an admission\<close>

record Admission =
  Ordinary :: "NamedResource list"
  Needed :: "NamedResource list"
  Selected :: "NamedResource list"
  Dirty :: "NamedResource list"

text \<open>The roles an identity has after one more role is added to the previous ones.\<close>

definition nextRoles :: "8 word \<Rightarrow> 8 word \<Rightarrow> 8 word \<Rightarrow> bool \<Rightarrow> 8 word" where
  "nextRoles committed previous role exe =
     (let rs = previous OR needed OR role;
          rs = (if role = selected then rs OR ordinary else rs);
          rs = (if committed AND needed \<noteq> 0 \<and> committed AND ordinary = 0 \<and> rs AND ordinary \<noteq> 0 \<and> exe \<and> rs AND dirty = 0
                then rs OR dirty OR promoted else rs)
      in if role = dirty then rs AND NOT promoted else rs)"

definition admits :: "8 word \<Rightarrow> 8 word \<Rightarrow> bool \<Rightarrow> bool" where
  "admits committed rs exe \<longleftrightarrow> exe \<and> (committed AND needed = 0 \<or> committed AND ordinary \<noteq> rs AND ordinary \<or>
     committed AND dirty = 0 \<and> rs AND dirty \<noteq> 0)"

record inclusion =
  iheap :: mapHeap
  inext :: Decision
  icopied :: "bool list"
  ichanged :: bool
  iincluded :: "NamedResource list"

definition committedRoles :: "hasher \<Rightarrow> mapHeap \<Rightarrow> Decision \<Rightarrow> NamedResource \<Rightarrow> 8 word" where
  "committedRoles h hp d n = (if execution d then rolesOf h hp d n else 0)"

text \<open>The first write to a bucket clones it; a nil bucket becomes an empty map.\<close>

definition cloneBucket :: "nat \<Rightarrow> inclusion \<Rightarrow> inclusion" where
  "cloneBucket b s =
     (if icopied s ! b then s
      else s\<lparr>iheap := iheap s @ [mapAt (iheap s) (buckets (inext s) ! b)],
             inext := (inext s)\<lparr>buckets := (buckets (inext s))[b := Some (length (iheap s))]\<rparr>,
             icopied := (icopied s)[b := True]\<rparr>)"

definition writeBucket :: "nat \<Rightarrow> NamedResource \<Rightarrow> 8 word \<Rightarrow> inclusion \<Rightarrow> inclusion" where
  "writeBucket b n rs s = (case buckets (inext s) ! b of
     None \<Rightarrow> s
   | Some a \<Rightarrow> s\<lparr>iheap := (iheap s)[a := gput n rs (iheap s ! a)]\<rparr>)"

definition includeRole :: "hasher \<Rightarrow> Decision \<Rightarrow> bool \<Rightarrow> 8 word \<Rightarrow> inclusion \<Rightarrow> NamedResource \<Rightarrow> inclusion" where
  "includeRole h d exe role s n =
     (let b = bucketOf h n;
          previous = rolesOf h (iheap s) (inext s) n;
          committed = committedRoles h (iheap s) d n;
          rs = nextRoles committed previous role exe
      in if previous = rs then s
         else let s = writeBucket b n rs (cloneBucket b s)
              in s\<lparr>ichanged := True, iincluded := (if admits committed rs exe then iincluded s @ [n] else iincluded s)\<rparr>)"

definition includeAxis :: "hasher \<Rightarrow> Decision \<Rightarrow> bool \<Rightarrow> inclusion \<Rightarrow> NamedResource list \<times> 8 word \<Rightarrow> inclusion" where
  "includeAxis h d exe s axis =
     (if \<not> exe \<and> (snd axis = selected \<or> snd axis = dirty) then s
      else foldl (includeRole h d exe (snd axis)) s (filter (\<lambda>n. n \<noteq> zeroResource) (fst axis)))"

definition axes :: "Admission \<Rightarrow> (NamedResource list \<times> 8 word) list" where
  "axes u = [(Ordinary u, ordinary), (Needed u, needed), (Selected u, selected), (Dirty u, dirty)]"

definition startInclusion :: "mapHeap \<Rightarrow> Decision \<Rightarrow> bool \<Rightarrow> inclusion" where
  "startInclusion hp d exe =
     \<lparr>iheap = hp,
      inext = (if exe \<and> \<not> execution d then d\<lparr>buckets := replicate decisionBuckets None\<rparr> else d),
      icopied = replicate decisionBuckets False,
      ichanged = (execution d \<noteq> (execution d \<or> exe)),
      iincluded = []\<rparr>"

definition includeUpdate :: "hasher \<Rightarrow> mapHeap \<Rightarrow> Decision \<Rightarrow> Admission \<Rightarrow> bool \<Rightarrow> mapHeap \<times> Decision \<times> NamedResource list" where
  "includeUpdate h hp d u exe =
     (if execution d \<and> \<not> exe then (hp, d, [])
      else let s = foldl (includeAxis h d exe) (startInclusion hp d exe) (axes u)
           in if \<not> ichanged s then (iheap s, d, [])
              else (iheap s, (inext s)\<lparr>execution := (execution d \<or> exe), revision := revision d + 1\<rparr>,
                    remdups_adj (sortFunc compareResource (iincluded s))))"

section \<open>Copy on write\<close>

definition heapOk :: "mapHeap \<Rightarrow> Decision \<Rightarrow> bool" where
  "heapOk hp d \<longleftrightarrow> length (buckets d) = decisionBuckets \<and> (\<forall>a. Some a \<in> set (buckets d) \<longrightarrow> a < length hp) \<and> (\<forall>m \<in> set hp. gok m)"

text \<open>
  While an update is included, the buckets that were written are fresh and belong to one position each, the
  others are still those of the old decision, and the old heap is untouched.
\<close>

definition inclOk :: "mapHeap \<Rightarrow> inclusion \<Rightarrow> bool" where
  "inclOk hp s \<longleftrightarrow> heapOk (iheap s) (inext s) \<and> length (icopied s) = decisionBuckets \<and> prefix hp (iheap s) \<and>
     (\<forall>b < decisionBuckets. if icopied s ! b then \<exists>a \<ge> length hp. buckets (inext s) ! b = Some a
                            else \<forall>a. buckets (inext s) ! b = Some a \<longrightarrow> a < length hp) \<and>
     (\<forall>b < decisionBuckets. \<forall>c < decisionBuckets. icopied s ! b \<longrightarrow> icopied s ! c \<longrightarrow>
        buckets (inext s) ! b = buckets (inext s) ! c \<longrightarrow> b = c)"

lemma bucketOf_less [simp]: "bucketOf h n < decisionBuckets"
  by (simp add: bucketOf_def decisionBuckets_def)

lemma heapOk_nth: "heapOk hp d \<Longrightarrow> b < decisionBuckets \<Longrightarrow> buckets d ! b = Some a \<Longrightarrow> a < length hp"
  unfolding heapOk_def by (metis nth_mem)

lemma heapOk_mapAt: "heapOk hp d \<Longrightarrow> b < decisionBuckets \<Longrightarrow> gok (mapAt hp (buckets d ! b))"
  using heapOk_nth[of hp d b] by (auto simp: mapAt_def heapOk_def split: option.splits)

lemma mapAt_prefix:
  assumes "prefix hp hp'" and "\<forall>a. r = Some a \<longrightarrow> a < length hp"
  shows "mapAt hp' r = mapAt hp r"
  using assms by (auto simp: mapAt_def prefix_def nth_append split: option.splits)

lemma rolesOf_prefix: "heapOk hp d \<Longrightarrow> prefix hp hp' \<Longrightarrow> rolesOf h hp' d n = rolesOf h hp d n"
  unfolding rolesOf_def using mapAt_prefix[of hp hp' "buckets d ! bucketOf h n"] heapOk_nth[of hp d "bucketOf h n"] by simp

lemma heapOk_prefix: "heapOk hp d \<Longrightarrow> prefix hp hp' \<Longrightarrow> \<forall>m \<in> set hp'. gok m \<Longrightarrow> heapOk hp' d"
  unfolding heapOk_def using prefix_length_le[of hp hp'] by fastforce

text \<open>A cloned bucket holds the same roles, at an address nobody else has.\<close>

lemma cloneBucket_ok:
  assumes "inclOk hp s" and "b < decisionBuckets"
  shows "inclOk hp (cloneBucket b s)" and "icopied (cloneBucket b s) ! b"
    and "c < decisionBuckets \<Longrightarrow> mapAt (iheap (cloneBucket b s)) (buckets (inext (cloneBucket b s)) ! c) = mapAt (iheap s) (buckets (inext s) ! c)"
proof -
  have ok: "heapOk (iheap s) (inext s)" and len: "length (icopied s) = decisionBuckets" "length (buckets (inext s)) = decisionBuckets"
    and pre: "prefix hp (iheap s)" using assms(1) by (auto simp: inclOk_def heapOk_def)
  let ?m = "mapAt (iheap s) (buckets (inext s) ! b)"
  have gok: "gok ?m" by (rule heapOk_mapAt[OF ok assms(2)])
  have old: "a < length (iheap s)" if "c < decisionBuckets" "buckets (inext s) ! c = Some a" for c a
    using heapOk_nth[OF ok that] .
  have other: "buckets (inext s) ! c \<noteq> Some (length (iheap s))" "Some (length (iheap s)) \<noteq> buckets (inext s) ! c"
    if "c < decisionBuckets" for c
    using old[OF that, of "length (iheap s)"] by auto
  show "icopied (cloneBucket b s) ! b" using assms(2) len by (simp add: cloneBucket_def)
  show "mapAt (iheap (cloneBucket b s)) (buckets (inext (cloneBucket b s)) ! c) = mapAt (iheap s) (buckets (inext s) ! c)"
    if c: "c < decisionBuckets" for c
  proof (cases "icopied s ! b \<or> c \<noteq> b")
    case True
    have "mapAt (iheap s @ [?m]) (buckets (inext s) ! c) = mapAt (iheap s) (buckets (inext s) ! c)"
      by (rule mapAt_prefix) (use old[OF c] in auto)
    then show ?thesis using True by (auto simp: cloneBucket_def)
  next
    case False
    then show ?thesis using len c by (simp add: cloneBucket_def mapAt_def)
  qed
  have heap: "heapOk (iheap s @ [?m]) ((inext s)\<lparr>buckets := (buckets (inext s))[b := Some (length (iheap s))]\<rparr>)"
    using ok gok len by (auto simp: heapOk_def dest!: set_update_subset_insert[THEN subsetD] intro: less_SucI)
  show "inclOk hp (cloneBucket b s)"
  proof (cases "icopied s ! b")
    case False
    have "prefix hp (iheap s @ [?m])" using pre by (rule prefix_prefix)
    moreover have "length hp \<le> length (iheap s)" using pre by (rule prefix_length_le)
    ultimately show ?thesis using assms False heap len other
      unfolding inclOk_def cloneBucket_def by (auto simp: nth_list_update)
  qed (simp add: cloneBucket_def assms(1))
qed

lemma rolesOf_clone: "inclOk hp s \<Longrightarrow> b < decisionBuckets \<Longrightarrow> rolesOf h (iheap (cloneBucket b s)) (inext (cloneBucket b s)) n = rolesOf h (iheap s) (inext s) n"
  by (simp add: rolesOf_def cloneBucket_ok(3))

lemma roleIn_gput: "gok m \<Longrightarrow> roleIn (gput n r m) k = (if k = n then r else roleIn m k)"
  by (simp add: roleIn_def map_of_gput)

text \<open>A write changes one role of the new decision and nothing of the old heap.\<close>

lemma writeBucket_ok:
  assumes "inclOk hp s" and "icopied s ! bucketOf h n"
  shows "inclOk hp (writeBucket (bucketOf h n) n r s)"
    and "rolesOf h (iheap (writeBucket (bucketOf h n) n r s)) (inext (writeBucket (bucketOf h n) n r s)) k =
      (if k = n then r else rolesOf h (iheap s) (inext s) k)"
proof -
  let ?b = "bucketOf h n"
  have ok: "heapOk (iheap s) (inext s)" using assms(1) by (simp add: inclOk_def)
  from assms(1)[unfolded inclOk_def] assms(2) obtain a where a: "length hp \<le> a" "buckets (inext s) ! ?b = Some a"
    using bucketOf_less by metis
  have less: "a < length (iheap s)" by (rule heapOk_nth[OF ok bucketOf_less a(2)])
  let ?hp = "(iheap s)[a := gput n r (iheap s ! a)]"
  have wrote: "writeBucket ?b n r s = s\<lparr>iheap := ?hp\<rparr>" using a(2) by (simp add: writeBucket_def)
  have goks: "\<forall>m \<in> set (iheap s). gok m" using ok by (simp add: heapOk_def)
  then have put: "gok (gput n r (iheap s ! a))" using less by (simp add: gok_gput)
  then have "heapOk ?hp (inext s)" using ok goks by (auto simp: heapOk_def dest!: set_update_subset_insert[THEN subsetD])
  moreover have "prefix hp ?hp" using assms(1) a(1) by (auto simp: inclOk_def prefix_def list_update_append)
  ultimately show "inclOk hp (writeBucket ?b n r s)" unfolding wrote using assms(1) by (simp add: inclOk_def)
  have only: "buckets (inext s) ! c = Some a \<Longrightarrow> c < decisionBuckets \<Longrightarrow> c = ?b" for c
    using assms a unfolding inclOk_def by (metis bucketOf_less not_le)
  have other: "mapAt ?hp (buckets (inext s) ! c) = mapAt (iheap s) (buckets (inext s) ! c)" if "c < decisionBuckets" "c \<noteq> ?b" for c
  proof -
    have "buckets (inext s) ! c \<noteq> Some a" using only[of c] that by blast
    then show ?thesis by (auto simp: mapAt_def split: option.splits)
  qed
  have same: "mapAt ?hp (buckets (inext s) ! ?b) = gput n r (mapAt (iheap s) (buckets (inext s) ! ?b))"
    using a(2) less by (simp add: mapAt_def)
  show "rolesOf h (iheap (writeBucket ?b n r s)) (inext (writeBucket ?b n r s)) k = (if k = n then r else rolesOf h (iheap s) (inext s) k)"
  proof (cases "bucketOf h k = ?b")
    case True
    then show ?thesis using same heapOk_mapAt[OF ok bucketOf_less] by (simp add: wrote rolesOf_def roleIn_gput)
  qed (use other[of "bucketOf h k"] in \<open>auto simp: wrote rolesOf_def\<close>)
qed

section \<open>One role at a time\<close>

lemma committed_prefix: "heapOk hp d \<Longrightarrow> prefix hp hp' \<Longrightarrow> committedRoles h hp' d n = committedRoles h hp d n"
  unfolding committedRoles_def by (simp only: rolesOf_prefix[of hp d hp' h n])

text \<open>What one call does to the roles the new decision holds, whatever the buckets are.\<close>

lemma includeRole_ok:
  fixes h :: hasher and n :: NamedResource and role :: "8 word" and exe :: bool
  assumes "heapOk hp d" and "inclOk hp s"
  defines "previous \<equiv> rolesOf h (iheap s) (inext s) n"
  defines "rs \<equiv> nextRoles (committedRoles h hp d n) previous role exe"
  shows "inclOk hp (includeRole h d exe role s n)"
    and "rolesOf h (iheap (includeRole h d exe role s n)) (inext (includeRole h d exe role s n)) k =
      (if k = n then rs else rolesOf h (iheap s) (inext s) k)"
    and "ichanged (includeRole h d exe role s n) \<longleftrightarrow> ichanged s \<or> previous \<noteq> rs"
    and "iincluded (includeRole h d exe role s n) =
      iincluded s @ (if previous \<noteq> rs \<and> admits (committedRoles h hp d n) rs exe then [n] else [])"
    and "execution (inext (includeRole h d exe role s n)) = execution (inext s)"
proof -
  have pre: "prefix hp (iheap s)" using assms(2) by (simp add: inclOk_def)
  note committed = committed_prefix[OF assms(1) pre]
  let ?c = "cloneBucket (bucketOf h n) s"
  have clone: "inclOk hp ?c" "icopied ?c ! bucketOf h n" using cloneBucket_ok[OF assms(2) bucketOf_less] by blast+
  note written = writeBucket_ok[OF clone, of rs]
  have rest: "ichanged ?c = ichanged s" "iincluded ?c = iincluded s" "execution (inext ?c) = execution (inext s)"
    by (simp_all add: cloneBucket_def)
  have rest': "iincluded (writeBucket b n rs t) = iincluded t" "execution (inext (writeBucket b n rs t)) = execution (inext t)" for b t
    by (simp_all add: writeBucket_def split: option.splits)
  have upd: "inclOk hp (t\<lparr>ichanged := x, iincluded := y\<rparr>) = inclOk hp t" for t x y by (simp add: inclOk_def)
  show "inclOk hp (includeRole h d exe role s n)"
    "rolesOf h (iheap (includeRole h d exe role s n)) (inext (includeRole h d exe role s n)) k =
      (if k = n then rs else rolesOf h (iheap s) (inext s) k)"
    "ichanged (includeRole h d exe role s n) \<longleftrightarrow> ichanged s \<or> previous \<noteq> rs"
    "iincluded (includeRole h d exe role s n) =
      iincluded s @ (if previous \<noteq> rs \<and> admits (committedRoles h hp d n) rs exe then [n] else [])"
    "execution (inext (includeRole h d exe role s n)) = execution (inext s)"
    using assms(2) written rest rest' rolesOf_clone[OF assms(2) bucketOf_less]
    unfolding includeRole_def Let_def committed previous_def[symmetric] rs_def[symmetric] upd
    by (auto simp: upd previous_def)
qed

section \<open>All roles of an update\<close>

lemma role_bits [simp]:
  "bit needed k \<longleftrightarrow> k = 0" "bit selected k \<longleftrightarrow> k = 1" "bit dirty k \<longleftrightarrow> k = 2" "bit ordinary k \<longleftrightarrow> k = 3" "bit promoted k \<longleftrightarrow> k = 4"
  unfolding needed_def selected_def dirty_def ordinary_def promoted_def bit_exp_iff possible_bit_word by auto

lemma and_role [simp]:
  "r AND needed = 0 \<longleftrightarrow> \<not> bit r 0" "r AND selected = 0 \<longleftrightarrow> \<not> bit r 1" "r AND dirty = 0 \<longleftrightarrow> \<not> bit r 2" "r AND ordinary = 0 \<longleftrightarrow> \<not> bit r 3"
  unfolding needed_def selected_def dirty_def ordinary_def by (rule and_exp_eq_0_iff_not_bit)+

lemma ordinary_eq: "a AND ordinary = b AND ordinary \<longleftrightarrow> bit a 3 = bit b 3"
proof
  assume "a AND ordinary = b AND ordinary"
  then have "bit (a AND ordinary) 3 = bit (b AND ordinary) 3" by simp
  then show "bit a 3 = bit b 3" by (simp add: bit_and_iff)
qed (auto intro!: bit_word_eqI simp: bit_and_iff)

lemma role_distinct [simp]:
  "needed \<noteq> selected" "needed \<noteq> dirty" "selected \<noteq> dirty" "ordinary \<noteq> selected" "ordinary \<noteq> dirty" "selected \<noteq> ordinary" "needed \<noteq> ordinary"
  "dirty \<noteq> selected" "dirty \<noteq> ordinary" "ordinary \<noteq> needed" "selected \<noteq> needed" "dirty \<noteq> needed"
  by (simp_all add: needed_def selected_def dirty_def ordinary_def)

definition inputRoles :: "8 word set" where
  "inputRoles = {ordinary, needed, selected, dirty}"

text \<open>An identity that was needed only for others, and is now wanted for itself, has to be executed again.\<close>

definition promotes :: "8 word \<Rightarrow> bool \<Rightarrow> bool \<Rightarrow> bool" where
  "promotes c exe demand \<longleftrightarrow> bit c 0 \<and> \<not> bit c 3 \<and> exe \<and> demand"

definition joinRoles :: "8 word \<Rightarrow> 8 word \<Rightarrow> bool \<Rightarrow> 8 word list \<Rightarrow> 8 word" where
  "joinRoles c base exe rs = foldl (\<lambda>p role. nextRoles c p role exe) base rs"

lemma nextRoles_bits:
  fixes c previous role :: "8 word" and exe :: bool
  assumes "role \<in> inputRoles"
  defines "p \<equiv> promotes c exe (bit previous 3 \<or> role = ordinary \<or> role = selected) \<and> \<not> (bit previous 2 \<or> role = dirty)"
  shows "bit (nextRoles c previous role exe) k \<longleftrightarrow> k < 8 \<and>
    (if k = 0 then True else if k = 1 then bit previous 1 \<or> role = selected
     else if k = 2 then bit previous 2 \<or> role = dirty \<or> p
     else if k = 3 then bit previous 3 \<or> role = ordinary \<or> role = selected
     else if k = 4 then role \<noteq> dirty \<and> (bit previous 4 \<or> p) else bit previous k)"
proof (cases "k < 8")
  case True
  then have possible: "possible_bit TYPE(8 word) k" by (simp add: possible_bit_word)
  consider "role = ordinary" | "role = needed" | "role = selected" | "role = dirty" using assms(1) by (auto simp: inputRoles_def)
  then show ?thesis using True possible
    by cases (simp add: nextRoles_def Let_def p_def promotes_def bit_or_iff bit_and_iff bit_not_iff, blast?)+
qed (auto dest: bit_imp_possible_bit simp: possible_bit_word)

lemma joinRoles_simps [simp]:
  "joinRoles c base exe [] = base" "joinRoles c base exe (rs @ [role]) = nextRoles c (joinRoles c base exe rs) role exe"
  by (simp_all add: joinRoles_def)

text \<open>The order in which roles come in does not matter.\<close>

lemma joinRoles_bits:
  fixes exe :: bool
  assumes "set rs \<subseteq> inputRoles" and "base = c \<or> c = 0"
  defines "p \<equiv> promotes c exe (ordinary \<in> set rs \<or> selected \<in> set rs)"
  shows "bit (joinRoles c base exe rs) k \<longleftrightarrow> k < 8 \<and>
    (if k = 0 then bit base 0 \<or> rs \<noteq> [] else if k = 1 then bit base 1 \<or> selected \<in> set rs
     else if k = 2 then bit base 2 \<or> dirty \<in> set rs \<or> p
     else if k = 3 then bit base 3 \<or> ordinary \<in> set rs \<or> selected \<in> set rs
     else if k = 4 then dirty \<notin> set rs \<and> (bit base 4 \<or> p \<and> \<not> bit base 2) else bit base k)"
  using assms(1) unfolding p_def
proof (induction rs arbitrary: k rule: rev_induct)
  case Nil
  then show ?case using bit_imp_possible_bit[of base k] by (auto simp: promotes_def possible_bit_word)
next
  case (snoc role rs)
  have role: "role \<in> inputRoles" and rs: "set rs \<subseteq> inputRoles" using snoc.prems by auto
  let ?p = "promotes c exe (ordinary \<in> set rs \<or> selected \<in> set rs)" and ?j = "joinRoles c base exe rs"
  have J: "bit ?j 0 \<longleftrightarrow> bit base 0 \<or> rs \<noteq> []" "bit ?j 1 \<longleftrightarrow> bit base 1 \<or> selected \<in> set rs"
    "bit ?j 2 \<longleftrightarrow> bit base 2 \<or> dirty \<in> set rs \<or> ?p" "bit ?j 3 \<longleftrightarrow> bit base 3 \<or> ordinary \<in> set rs \<or> selected \<in> set rs"
    "bit ?j 4 \<longleftrightarrow> dirty \<notin> set rs \<and> (bit base 4 \<or> ?p \<and> \<not> bit base 2)"
    using snoc.IH[OF rs] by simp_all
  have base: "bit c 0 \<Longrightarrow> bit base 3 = bit c 3" using assms(2) by auto
  note step = nextRoles_bits[OF role, of c ?j exe]
  consider "k = 0" | "k = 1" | "k = 2" | "k = 3" | "k = 4" | "k > 4" by linarith
  then show ?case
  proof cases
    case 3
    then show ?thesis using base by (simp add: step J promotes_def) blast
  next
    case 5
    then show ?thesis using base by (simp add: step J promotes_def) blast
  qed (use step J snoc.IH[OF rs, of k] in auto)
qed

lemma joinRoles_grows:
  assumes "set rs \<subseteq> inputRoles" and "role \<in> inputRoles" and "base = c \<or> c = 0" and "joinRoles c base exe (rs @ [role]) = base"
  shows "joinRoles c base exe rs = base"
proof (rule bit_word_eqI)
  fix k assume k: "k < LENGTH(8)"
  have all: "set (rs @ [role]) \<subseteq> inputRoles" using assms(1,2) by simp
  have J: "bit base k \<longleftrightarrow> bit (joinRoles c base exe (rs @ [role])) k" for k using assms(4) by simp
  note bits = joinRoles_bits[OF all assms(3), of exe] and bits' = joinRoles_bits[OF assms(1,3), of exe]
  consider "k = 0" | "k = 1" | "k = 2" | "k = 3" | "k = 4" | "k > 4" by linarith
  then show "bit (joinRoles c base exe rs) k = bit base k"
    by cases (use k J[of k, unfolded bits] J[of 2, unfolded bits] in \<open>auto simp: bits' promotes_def\<close>)
qed

lemma nextRoles_needed: "role \<in> inputRoles \<Longrightarrow> bit (nextRoles c p role exe) 0"
  by (simp add: nextRoles_bits)

lemma admits_iff:
  "admits c r exe \<longleftrightarrow> exe \<and> (\<not> bit c 0 \<or> bit c 3 \<noteq> bit r 3 \<or> \<not> bit c 2 \<and> bit r 2)"
  unfolding admits_def ordinary_eq by simp

lemma admits_next:
  assumes "set rs \<subseteq> inputRoles" and "role \<in> inputRoles" and "base = c \<or> c = 0" and "admits c (joinRoles c base exe rs) exe"
  shows "admits c (joinRoles c base exe (rs @ [role])) exe"
proof -
  have all: "set (rs @ [role]) \<subseteq> inputRoles" using assms(1,2) by simp
  show ?thesis using assms(3,4) unfolding admits_iff joinRoles_bits[OF assms(1,3)] joinRoles_bits[OF all assms(3)]
    by (auto simp: promotes_def)
qed

section \<open>The whole update\<close>

definition work :: "Admission \<Rightarrow> bool \<Rightarrow> (8 word \<times> NamedResource) list" where
  "work u exe = concat (map (\<lambda>(ns, role). if \<not> exe \<and> (role = selected \<or> role = dirty) then []
     else map (Pair role) (filter (\<lambda>n. n \<noteq> zeroResource) ns)) (axes u))"

definition includeOne :: "hasher \<Rightarrow> Decision \<Rightarrow> bool \<Rightarrow> inclusion \<Rightarrow> 8 word \<times> NamedResource \<Rightarrow> inclusion" where
  "includeOne h d exe s rn = includeRole h d exe (fst rn) s (snd rn)"

lemma foldl_includeOne_Pair: "foldl (includeOne h d exe) s (map (Pair role) ns) = foldl (includeRole h d exe role) s ns"
  by (induction ns arbitrary: s) (simp_all add: includeOne_def)

lemma includeAxes_work: "foldl (includeAxis h d exe) s (axes u) = foldl (includeOne h d exe) s (work u exe)"
  by (simp add: axes_def work_def includeAxis_def foldl_includeOne_Pair)

definition rolesFor :: "NamedResource \<Rightarrow> (8 word \<times> NamedResource) list \<Rightarrow> 8 word list" where
  "rolesFor n todo = map fst (filter (\<lambda>rn. snd rn = n) todo)"

lemma rolesFor_simps [simp]:
  "rolesFor n [] = []" "rolesFor n (todo @ [rn]) = (if snd rn = n then rolesFor n todo @ [fst rn] else rolesFor n todo)"
  by (simp_all add: rolesFor_def)

lemma set_rolesFor: "set (rolesFor n todo) \<subseteq> fst ` set todo"
  by (auto simp: rolesFor_def)

definition startRole :: "hasher \<Rightarrow> mapHeap \<Rightarrow> Decision \<Rightarrow> bool \<Rightarrow> NamedResource \<Rightarrow> 8 word" where
  "startRole h hp d exe n = (if exe \<and> \<not> execution d then 0 else rolesOf h hp d n)"

lemma start_facts:
  assumes "heapOk hp d"
  shows "inclOk hp (startInclusion hp d exe)" "iheap (startInclusion hp d exe) = hp"
    "rolesOf h hp (inext (startInclusion hp d exe)) n = startRole h hp d exe n"
    "ichanged (startInclusion hp d exe) \<longleftrightarrow> exe \<and> \<not> execution d" "iincluded (startInclusion hp d exe) = []"
  using assms heapOk_nth[OF assms] by (auto simp: startInclusion_def inclOk_def heapOk_def startRole_def rolesOf_def roleIn_def mapAt_def)

lemma base_committed:
  assumes "\<not> (execution d \<and> \<not> exe)"
  shows "startRole h hp d exe n = committedRoles h hp d n \<or> committedRoles h hp d n = 0"
  using assms by (simp add: startRole_def committedRoles_def)

text \<open>The roles an identity ends with: those it starts with, joined by those the update gives it.\<close>

definition endRole :: "hasher \<Rightarrow> mapHeap \<Rightarrow> Decision \<Rightarrow> bool \<Rightarrow> (8 word \<times> NamedResource) list \<Rightarrow> NamedResource \<Rightarrow> 8 word" where
  "endRole h hp d exe todo n = joinRoles (committedRoles h hp d n) (startRole h hp d exe n) exe (rolesFor n todo)"

lemma endRole_simps [simp]:
  "endRole h hp d exe [] n = startRole h hp d exe n"
  "endRole h hp d exe (todo @ [(role, m)]) n =
     (if m = n then nextRoles (committedRoles h hp d n) (endRole h hp d exe todo n) role exe else endRole h hp d exe todo n)"
  by (simp_all add: endRole_def)

lemma include_fold:
  fixes h :: hasher
  assumes "heapOk hp d" and "\<not> (execution d \<and> \<not> exe)" and "fst ` set todo \<subseteq> inputRoles"
  defines "s \<equiv> foldl (includeOne h d exe) (startInclusion hp d exe) todo"
  shows "inclOk hp s \<and> (\<forall>n. rolesOf h (iheap s) (inext s) n = endRole h hp d exe todo n) \<and>
    (ichanged s \<longleftrightarrow> exe \<and> \<not> execution d \<or> (\<exists>n. endRole h hp d exe todo n \<noteq> startRole h hp d exe n)) \<and>
    (\<forall>n. n \<in> set (iincluded s) \<longleftrightarrow> n \<in> snd ` set todo \<and> admits (committedRoles h hp d n) (endRole h hp d exe todo n) exe)"
  using assms(3) unfolding s_def
proof (induction todo rule: rev_induct)
  case Nil
  then show ?case using start_facts[OF assms(1)] by simp
next
  case (snoc rn todo)
  obtain role n where rn: "rn = (role, n)" by (cases rn)
  let ?s = "foldl (includeOne h d exe) (startInclusion hp d exe) todo" and ?c = "committedRoles h hp d n"
  let ?e = "endRole h hp d exe todo" and ?e' = "endRole h hp d exe (todo @ [rn])" and ?b = "startRole h hp d exe"
  have role: "role \<in> inputRoles" and todo: "fst ` set todo \<subseteq> inputRoles" using snoc.prems rn by auto
  have IH: "inclOk hp ?s" "\<And>n. rolesOf h (iheap ?s) (inext ?s) n = ?e n"
      "ichanged ?s \<longleftrightarrow> exe \<and> \<not> execution d \<or> (\<exists>n. ?e n \<noteq> ?b n)"
      "\<And>n. n \<in> set (iincluded ?s) \<longleftrightarrow> n \<in> snd ` set todo \<and> admits (committedRoles h hp d n) (?e n) exe"
    using snoc.IH[OF todo] by blast+
  note step = includeRole_ok[OF assms(1) IH(1), where h = h and n = n and role = role and exe = exe, unfolded IH(2)]
  have s': "foldl (includeOne h d exe) (startInclusion hp d exe) (todo @ [rn]) = includeRole h d exe role ?s n"
    by (simp add: rn includeOne_def)
  have e': "?e' k = (if k = n then nextRoles ?c (?e n) role exe else ?e k)" for k by (auto simp: rn)
  have rs: "set (rolesFor n todo) \<subseteq> inputRoles" using set_rolesFor todo by blast
  note bc = base_committed[OF assms(2), of h hp n]
  have undo: "?e n = ?b n" if "?e' n = ?b n"
    using joinRoles_grows[OF rs role bc] that by (simp add: endRole_def rn)
  have changed: "(?e n \<noteq> ?b n \<or> ?e n \<noteq> ?e' n) = (?e' n \<noteq> ?b n)" using undo by auto
  have keep: "admits ?c (?e' n) exe" if "admits ?c (?e n) exe"
    using admits_next[OF rs role bc] that by (simp add: endRole_def rn)
  have first: "\<not> admits ?c (?e' n) exe" if "n \<notin> snd ` set todo" "?e n = ?e' n"
  proof -
    have none: "rolesFor n todo = []" using that(1) by (auto simp: rolesFor_def filter_empty_conv)
    then have en: "?e n = ?b n" by (simp add: endRole_def)
    have "bit (?e' n) 0" unfolding e' using nextRoles_needed[OF role] by simp
    then have "bit (?b n) 0" "?e' n = ?b n" using that(2) en by simp_all
    then show ?thesis using bc assms(2) by (auto simp: admits_iff startRole_def committedRoles_def split: if_splits)
  qed
  show ?case unfolding s'
  proof (intro conjI allI)
    show "inclOk hp (includeRole h d exe role ?s n)" by (rule step(1))
    fix k
    show "rolesOf h (iheap (includeRole h d exe role ?s n)) (inext (includeRole h d exe role ?s n)) k = ?e' k"
      unfolding step(2) e' by simp
    have "ichanged (includeRole h d exe role ?s n) \<longleftrightarrow> exe \<and> \<not> execution d \<or> (\<exists>n. ?e n \<noteq> ?b n) \<or> ?e n \<noteq> ?e' n"
      unfolding step(3) IH(3) e' by simp
    then show "ichanged (includeRole h d exe role ?s n) \<longleftrightarrow> exe \<and> \<not> execution d \<or> (\<exists>n. ?e' n \<noteq> ?b n)"
      using changed e' by metis
    have inc: "k \<in> set (iincluded (includeRole h d exe role ?s n)) \<longleftrightarrow>
        k \<in> set (iincluded ?s) \<or> k = n \<and> ?e n \<noteq> ?e' n \<and> admits ?c (?e' n) exe"
      unfolding step(4) e' by simp
    show "k \<in> set (iincluded (includeRole h d exe role ?s n)) \<longleftrightarrow>
        k \<in> snd ` set (todo @ [rn]) \<and> admits (committedRoles h hp d k) (?e' k) exe"
    proof (cases "k = n")
      case True
      moreover have "n \<in> snd ` set (todo @ [rn])" by (simp add: rn)
      ultimately show ?thesis unfolding inc IH(4) using keep first by metis
    qed (unfold inc IH(4) e', auto simp: rn)
  qed
qed

text \<open>The effect of an update on the roles of one identity, stated without buckets, loops and order.\<close>

definition specRoles :: "(NamedResource \<Rightarrow> 8 word) \<Rightarrow> bool \<Rightarrow> Admission \<Rightarrow> bool \<Rightarrow> NamedResource \<Rightarrow> 8 word" where
  "specRoles old started u exe n =
     (if started \<and> \<not> exe then old n else
      let base = (if exe \<and> \<not> started then 0 else old n); c = (if started then old n else 0);
          isOrd = n \<in> set (Ordinary u); isNeed = n \<in> set (Needed u); isSel = exe \<and> n \<in> set (Selected u); isDirty = exe \<and> n \<in> set (Dirty u);
          again = c AND needed \<noteq> 0 \<and> c AND ordinary = 0 \<and> exe \<and> (isOrd \<or> isSel)
      in if n = zeroResource \<or> \<not> (isOrd \<or> isNeed \<or> isSel \<or> isDirty) then base
         else (base OR needed OR (if isSel then selected else 0) OR (if isOrd \<or> isSel then ordinary else 0) OR
               (if isDirty \<or> again then dirty else 0) OR (if again \<and> base AND dirty = 0 then promoted else 0))
              AND (if isDirty then NOT promoted else - 1))"

lemma set_work:
  "set (work u exe) = {(r, n). n \<noteq> zeroResource \<and> (r = ordinary \<and> n \<in> set (Ordinary u) \<or> r = needed \<and> n \<in> set (Needed u) \<or>
     r = selected \<and> exe \<and> n \<in> set (Selected u) \<or> r = dirty \<and> exe \<and> n \<in> set (Dirty u))}"
  by (auto simp: work_def axes_def)

lemma set_rolesFor_iff: "r \<in> set (rolesFor n todo) \<longleftrightarrow> (r, n) \<in> set todo"
  by (force simp: rolesFor_def)

lemma rolesFor_empty: "rolesFor n todo = [] \<longleftrightarrow> n \<notin> snd ` set todo"
  by (auto simp: rolesFor_def filter_empty_conv)

lemma endRole_spec:
  assumes "\<not> (execution d \<and> \<not> exe)"
  shows "endRole h hp d exe (work u exe) n = specRoles (rolesOf h hp d) (execution d) u exe n"
proof (cases "n \<in> snd ` set (work u exe)")
  case False
  then have "rolesFor n (work u exe) = []" by (simp add: rolesFor_empty)
  moreover have "n = zeroResource \<or> \<not> (n \<in> set (Ordinary u) \<or> n \<in> set (Needed u) \<or> exe \<and> n \<in> set (Selected u) \<or> exe \<and> n \<in> set (Dirty u))"
    using False by (auto simp: set_work image_iff)
  ultimately show ?thesis using assms by (auto simp: endRole_def specRoles_def startRole_def Let_def)
next
  case True
  let ?rs = "rolesFor n (work u exe)"
  have n: "n \<noteq> zeroResource" using True by (auto simp: set_work)
  have rs: "ordinary \<in> set ?rs \<longleftrightarrow> n \<in> set (Ordinary u)" "needed \<in> set ?rs \<longleftrightarrow> n \<in> set (Needed u)"
    "selected \<in> set ?rs \<longleftrightarrow> exe \<and> n \<in> set (Selected u)" "dirty \<in> set ?rs \<longleftrightarrow> exe \<and> n \<in> set (Dirty u)"
    using n by (auto simp: set_rolesFor_iff set_work)
  have ne: "?rs \<noteq> []" using True by (simp add: rolesFor_empty)
  have inn: "set ?rs \<subseteq> inputRoles" by (auto simp: set_rolesFor_iff set_work inputRoles_def)
  have any: "n \<in> set (Ordinary u) \<or> n \<in> set (Needed u) \<or> exe \<and> n \<in> set (Selected u) \<or> exe \<and> n \<in> set (Dirty u)"
    using True by (auto simp: set_work)
  note bits = joinRoles_bits[OF inn base_committed[OF assms, of h hp n], of exe, unfolded rs, folded endRole_def]
  show ?thesis
  proof (rule bit_word_eqI)
    fix k assume k: "k < LENGTH(8)"
    then have possible: "possible_bit TYPE(8 word) k" by (simp add: possible_bit_word)
    consider "k = 0" | "k = 1" | "k = 2" | "k = 3" | "k = 4" | "k > 4" by linarith
    then show "bit (endRole h hp d exe (work u exe) n) k = bit (specRoles (rolesOf h hp d) (execution d) u exe n) k"
      using assms n any ne k possible
      by cases (simp add: bits specRoles_def Let_def promotes_def startRole_def committedRoles_def bit_or_iff bit_and_iff bit_not_iff, blast?)+
  qed
qed

lemma sorted_compact: "remdups_adj (sortFunc compareResource xs) = sorted_list_of_set (set xs)"
proof -
  have "sorted_wrt (<) (remdups_adj (sort xs))" by (simp add: strict_sorted_remdups_adj)
  then show ?thesis unfolding sortFunc_compareResource by (metis set_sort remdups_adj_set sorted_list_of_set.idem_if_sorted_distinct strict_sorted_iff)
qed

text \<open>The identities that become due by an update, because their membership, demand or dirtiness changed.\<close>

definition specIncluded :: "(NamedResource \<Rightarrow> 8 word) \<Rightarrow> bool \<Rightarrow> Admission \<Rightarrow> bool \<Rightarrow> NamedResource set" where
  "specIncluded old started u exe =
     {n \<in> set (Ordinary u) \<union> set (Needed u) \<union> set (Selected u) \<union> set (Dirty u). n \<noteq> zeroResource \<and>
        admits (if started then old n else 0) (specRoles old started u exe n) exe}"

lemma include_spec:
  assumes "heapOk hp d" and "includeUpdate h hp d u exe = (hp', d', inc)"
  shows "heapOk hp' d' \<and> prefix hp hp' \<and>
    (\<forall>n. rolesOf h hp' d' n = specRoles (rolesOf h hp d) (execution d) u exe n) \<and>
    inc = sorted_list_of_set (specIncluded (rolesOf h hp d) (execution d) u exe) \<and>
    execution d' = (execution d \<or> exe) \<and>
    revision d' = revision d + (if execution d' = execution d \<and> (\<forall>n. rolesOf h hp' d' n = rolesOf h hp d n) then 0 else 1)"
proof (cases "execution d \<and> \<not> exe")
  case True
  then have eq: "hp' = hp" "d' = d" "inc = []" using assms(2) by (simp_all add: includeUpdate_def)
  have "specIncluded (rolesOf h hp d) (execution d) u exe = {}" using True by (auto simp: specIncluded_def admits_def)
  then show ?thesis unfolding eq using True assms(1) by (simp add: specRoles_def)
next
  case False
  let ?s = "foldl (includeOne h d exe) (startInclusion hp d exe) (work u exe)" and ?e = "endRole h hp d exe (work u exe)"
  have roles: "fst ` set (work u exe) \<subseteq> inputRoles" by (auto simp: set_work inputRoles_def)
  note fold = include_fold[OF assms(1) False roles, of h]
  have ok: "inclOk hp ?s" and end_roles: "\<And>n. rolesOf h (iheap ?s) (inext ?s) n = ?e n"
    and changed: "ichanged ?s \<longleftrightarrow> exe \<and> \<not> execution d \<or> (\<exists>n. ?e n \<noteq> startRole h hp d exe n)"
    and included: "\<And>n. n \<in> set (iincluded ?s) \<longleftrightarrow> n \<in> snd ` set (work u exe) \<and> admits (committedRoles h hp d n) (?e n) exe"
    using fold by blast+
  note spec = endRole_spec[OF False, of h hp u]
  have pre: "prefix hp (iheap ?s)" using ok by (simp add: inclOk_def)
  have set_inc: "set (iincluded ?s) = specIncluded (rolesOf h hp d) (execution d) u exe"
    unfolding specIncluded_def set_eq_iff included spec
    by (auto simp: set_work committedRoles_def admits_def image_iff)
  have unchanged: "specIncluded (rolesOf h hp d) (execution d) u exe = {}" if quiet: "\<not> ichanged ?s"
  proof (rule ccontr)
    assume "specIncluded (rolesOf h hp d) (execution d) u exe \<noteq> {}"
    then obtain n where "n \<in> set (iincluded ?s)" unfolding set_inc[symmetric] by (meson ex_in_conv)
    then have n: "n \<in> snd ` set (work u exe)" "admits (committedRoles h hp d n) (?e n) exe" by (simp_all only: included simp_thms)
    have "bit (?e n) 0" unfolding endRole_def using n(1) rolesFor_empty[of n "work u exe"]
      joinRoles_bits[OF order_trans[OF set_rolesFor roles] base_committed[OF False], where k = 0] by simp
    moreover have "?e n = committedRoles h hp d n" using quiet n(2) unfolding changed by (auto simp: startRole_def committedRoles_def admits_def)
    ultimately show False using n(2) by (simp add: admits_iff)
  qed
  show ?thesis
  proof (cases "ichanged ?s")
    case True
    then have eq: "hp' = iheap ?s" "d' = (inext ?s)\<lparr>execution := (execution d \<or> exe), revision := revision d + 1\<rparr>"
        "inc = sorted_list_of_set (set (iincluded ?s))"
      using assms(2) False by (auto simp: includeUpdate_def includeAxes_work sorted_compact Let_def)
    have roles': "rolesOf h hp' d' n = ?e n" for n using end_roles by (simp add: eq rolesOf_def)
    have moved: "\<not> (execution d' = execution d \<and> (\<forall>n. rolesOf h hp' d' n = rolesOf h hp d n))"
      using True unfolding changed roles' by (auto simp: eq startRole_def)
    have "heapOk hp' d'" using ok by (simp add: eq inclOk_def heapOk_def)
    then show ?thesis using pre moved roles' spec set_inc by (simp add: eq(1,3)) (simp add: eq(2))
  next
    case quiet: False
    then have eq: "hp' = iheap ?s" "d' = d" "inc = []" using assms(2) False by (auto simp: includeUpdate_def includeAxes_work Let_def)
    have goks: "\<forall>m \<in> set (iheap ?s). gok m" using ok by (simp add: inclOk_def heapOk_def)
    have same: "specRoles (rolesOf h hp d) (execution d) u exe n = rolesOf h hp d n" for n
      using quiet False unfolding changed spec[symmetric] by (auto simp: startRole_def)
    have ex: "execution d = (execution d \<or> exe)" using quiet unfolding changed by auto
    show ?thesis using heapOk_prefix[OF assms(1) pre goks] rolesOf_prefix[OF assms(1) pre, of h] pre same ex unchanged[OF quiet] by (simp add: eq)
  qed
qed

text \<open>
  C7. Including an admission. The roles of every identity after the update are given by \<open>specRoles\<close>, whatever the
  seed of the hash; the identities reported as newly due are exactly those of \<open>specIncluded\<close>, sorted and without
  repetition; the revision advances by one exactly when a role or the stage changed; and the decision
  that was published before keeps all its roles, because only cloned buckets are written.
\<close>

theorem include_exact:
  assumes "heapOk hp d" and "includeUpdate h hp d u exe = (hp', d', inc)"
  shows "heapOk hp' d' \<and> (\<forall>n. rolesOf h hp' d n = rolesOf h hp d n) \<and>
    (\<forall>n. rolesOf h hp' d' n = specRoles (rolesOf h hp d) (execution d) u exe n) \<and>
    inc = sorted_list_of_set (specIncluded (rolesOf h hp d) (execution d) u exe) \<and>
    execution d' = (execution d \<or> exe) \<and>
    revision d' = revision d + (if execution d' = execution d \<and> (\<forall>n. rolesOf h hp' d' n = rolesOf h hp d n) then 0 else 1)"
  using include_spec[OF assms] rolesOf_prefix[OF assms(1), of hp' h] by blast

section \<open>Sessions\<close>

text \<open>
  Commits run concurrently. Each takes the current decision, includes its proposal and publishes the result
  under the lock if the current decision is still the same pointer and its revision the one the proposal was
  prepared for; otherwise it prepares a new proposal. Decisions get an address when they are made. The
  validity of the evidence a commit was prepared from is open: a publication may fail at any time. \<open>commits\<close>
  records what was published since the session began or its construction was discarded.
\<close>

datatype attempt = NoAttempt | Attempt nat nat "64 word" Admission bool

record Session =
  sheap :: mapHeap
  allocated :: "Decision list"
  current :: nat
  attempts :: "attempt list"
  commits :: "(Admission \<times> bool) list"

definition emptyDecision :: "64 word \<Rightarrow> Decision" where
  "emptyDecision rv = \<lparr>buckets = replicate decisionBuckets None, revision = rv, execution = False\<rparr>"

definition newSession :: "nat \<Rightarrow> Session" where
  "newSession k = \<lparr>sheap = [], allocated = [emptyDecision 0], current = 0, attempts = replicate k NoAttempt, commits = []\<rparr>"

definition currentDecision :: "Session \<Rightarrow> Decision" where
  "currentDecision s = allocated s ! current s"

text \<open>An unchanged decision is returned as it is, a changed one is new.\<close>

definition propose :: "hasher \<Rightarrow> nat \<Rightarrow> 64 word \<Rightarrow> Admission \<Rightarrow> bool \<Rightarrow> Session \<Rightarrow> Session" where
  "propose h i rv u exe s =
     (let (hp, d, _) = includeUpdate h (sheap s) (currentDecision s) u exe
      in if d = currentDecision s
         then s\<lparr>sheap := hp, attempts := (attempts s)[i := Attempt (current s) (current s) rv u exe]\<rparr>
         else s\<lparr>sheap := hp, allocated := allocated s @ [d],
                attempts := (attempts s)[i := Attempt (current s) (length (allocated s)) rv u exe]\<rparr>)"

definition publish :: "nat \<Rightarrow> bool \<Rightarrow> Session \<Rightarrow> Session" where
  "publish i valid s = (case attempts s ! i of
     NoAttempt \<Rightarrow> s
   | Attempt seen made rv u exe \<Rightarrow>
       let s' = s\<lparr>attempts := (attempts s)[i := NoAttempt]\<rparr>
       in if valid \<and> current s = seen \<and> rv = revision (allocated s ! seen)
          then s'\<lparr>current := made, commits := commits s @ [(u, exe)]\<rparr> else s')"

definition discardConstruction :: "Session \<Rightarrow> Session" where
  "discardConstruction s =
     (if execution (currentDecision s) then s
      else s\<lparr>allocated := allocated s @ [emptyDecision (revision (currentDecision s) + 1)],
             current := length (allocated s), commits := []\<rparr>)"

inductive sessionReachable :: "hasher \<Rightarrow> nat \<Rightarrow> Session \<Rightarrow> bool" for h k where
  NewS: "sessionReachable h k (newSession k)"
| Propose: "sessionReachable h k s \<Longrightarrow> i < k \<Longrightarrow> attempts s ! i = NoAttempt \<Longrightarrow> sessionReachable h k (propose h i rv u exe s)"
| Publish: "sessionReachable h k s \<Longrightarrow> i < k \<Longrightarrow> sessionReachable h k (publish i valid s)"
| Discard: "sessionReachable h k s \<Longrightarrow> sessionReachable h k (discardConstruction s)"

text \<open>The sequential behaviour: the published commits, one after the other.\<close>

definition replayStep :: "(NamedResource \<Rightarrow> 8 word) \<times> bool \<Rightarrow> Admission \<times> bool \<Rightarrow> (NamedResource \<Rightarrow> 8 word) \<times> bool" where
  "replayStep a c = (specRoles (fst a) (snd a) (fst c) (snd c), snd a \<or> snd c)"

definition replay :: "(Admission \<times> bool) list \<Rightarrow> (NamedResource \<Rightarrow> 8 word) \<times> bool" where
  "replay cs = foldl replayStep (\<lambda>_. 0, False) cs"

definition absDecision :: "hasher \<Rightarrow> mapHeap \<Rightarrow> Decision \<Rightarrow> (NamedResource \<Rightarrow> 8 word) \<times> bool" where
  "absDecision h hp d = (rolesOf h hp d, execution d)"

definition sessionOk :: "hasher \<Rightarrow> nat \<Rightarrow> Session \<Rightarrow> bool" where
  "sessionOk h k s \<longleftrightarrow> length (attempts s) = k \<and> current s < length (allocated s) \<and> (\<forall>d \<in> set (allocated s). heapOk (sheap s) d) \<and>
     absDecision h (sheap s) (currentDecision s) = replay (commits s) \<and>
     (\<forall>p q rv u exe. Attempt p q rv u exe \<in> set (attempts s) \<longrightarrow> p < length (allocated s) \<and> q < length (allocated s) \<and>
        absDecision h (sheap s) (allocated s ! q) = replayStep (absDecision h (sheap s) (allocated s ! p)) (u, exe))"

lemma absDecision_prefix: "heapOk hp d \<Longrightarrow> prefix hp hp' \<Longrightarrow> absDecision h hp' d = absDecision h hp d"
  unfolding absDecision_def using rolesOf_prefix[of hp d hp' h] by auto

lemma heapOk_empty: "(\<forall>m \<in> set hp. gok m) \<Longrightarrow> heapOk hp (emptyDecision rv)"
  by (simp add: heapOk_def emptyDecision_def)

lemma absDecision_empty: "absDecision h hp (emptyDecision rv) = (\<lambda>_. 0, False)"
  by (simp add: absDecision_def rolesOf_def roleIn_def mapAt_def emptyDecision_def fun_eq_iff)

lemma Attempt_update: "Attempt p q r u e \<in> set (xs[i := x]) \<Longrightarrow> Attempt p q r u e = x \<or> Attempt p q r u e \<in> set xs"
  using set_update_subset_insert by fastforce

lemma sessionOk_propose:
  assumes "sessionOk h k s"
  shows "sessionOk h k (propose h i rv u exe s)"
proof -
  obtain hp d inc where inc: "includeUpdate h (sheap s) (currentDecision s) u exe = (hp, d, inc)" by (cases "includeUpdate h (sheap s) (currentDecision s) u exe")
  have len: "length (attempts s) = k" and cur: "current s < length (allocated s)" and oks: "\<forall>d \<in> set (allocated s). heapOk (sheap s) d"
    and abs: "absDecision h (sheap s) (currentDecision s) = replay (commits s)"
    using assms by (auto simp: sessionOk_def)
  have ok: "heapOk (sheap s) (currentDecision s)" using oks cur by (simp add: currentDecision_def)
  have spec: "heapOk hp d" "prefix (sheap s) hp" "absDecision h hp d = replayStep (absDecision h (sheap s) (currentDecision s)) (u, exe)"
    using include_spec[OF ok inc] by (auto simp: absDecision_def replayStep_def)
  have goks: "\<forall>m \<in> set hp. gok m" using spec(1) by (simp add: heapOk_def)
  have keep: "heapOk hp e" "absDecision h hp e = absDecision h (sheap s) e" if "e \<in> set (allocated s)" for e
    using oks that heapOk_prefix[OF _ spec(2) goks] absDecision_prefix[OF _ spec(2)] by auto
  have nth: "heapOk hp (allocated s ! p)" "absDecision h hp (allocated s ! p) = absDecision h (sheap s) (allocated s ! p)"
    if "p < length (allocated s)" for p using keep nth_mem[OF that] by auto
  have olds: "p < length (allocated s) \<and> q < length (allocated s) \<and>
      absDecision h hp (allocated s ! q) = replayStep (absDecision h hp (allocated s ! p)) (v, x)"
    if "Attempt p q r v x \<in> set (attempts s)" for p q r v x
    using assms that nth unfolding sessionOk_def by metis
  show ?thesis
  proof (cases "d = currentDecision s")
    case True
    have new: "propose h i rv u exe s = s\<lparr>sheap := hp, attempts := (attempts s)[i := Attempt (current s) (current s) rv u exe]\<rparr>"
      by (simp add: propose_def inc True)
    have step: "absDecision h hp (allocated s ! current s) = replayStep (absDecision h hp (allocated s ! current s)) (u, exe)"
      using spec(3) True nth[OF cur] by (simp add: currentDecision_def)
    have "p < length (allocated s) \<and> q < length (allocated s) \<and>
        absDecision h hp (allocated s ! q) = replayStep (absDecision h hp (allocated s ! p)) (v, x)"
      if "Attempt p q r v x \<in> set ((attempts s)[i := Attempt (current s) (current s) rv u exe])" for p q r v x
      using Attempt_update[OF that] olds[of p q r v x] cur step by auto
    then show ?thesis using keep(1) cur abs nth(2)[OF cur] len by (simp add: sessionOk_def new currentDecision_def)
  next
    case False
    let ?ds = "allocated s @ [d]"
    have new: "propose h i rv u exe s = s\<lparr>sheap := hp, allocated := ?ds,
        attempts := (attempts s)[i := Attempt (current s) (length (allocated s)) rv u exe]\<rparr>"
      by (simp add: propose_def inc False)
    have at: "?ds ! p = allocated s ! p" if "p < length (allocated s)" for p using that by (simp add: nth_append)
    have step: "absDecision h hp d = replayStep (absDecision h hp (allocated s ! current s)) (u, exe)"
      using spec(3) nth[OF cur] by (simp add: currentDecision_def)
    have "p < length ?ds \<and> q < length ?ds \<and> absDecision h hp (?ds ! q) = replayStep (absDecision h hp (?ds ! p)) (v, x)"
      if "Attempt p q r v x \<in> set ((attempts s)[i := Attempt (current s) (length (allocated s)) rv u exe])" for p q r v x
      using Attempt_update[OF that] olds[of p q r v x] cur step at by auto
    moreover have "heapOk hp e" if "e \<in> set ?ds" for e using that keep(1) spec(1) by auto
    moreover have "absDecision h hp (?ds ! current s) = replay (commits s)" using at[OF cur] nth(2)[OF cur] abs by (simp add: currentDecision_def)
    ultimately show ?thesis using cur len by (simp add: sessionOk_def new currentDecision_def)
  qed
qed

lemma sessionOk_publish:
  assumes "sessionOk h k s" and "i < k"
  shows "sessionOk h k (publish i valid s)"
proof (cases "attempts s ! i")
  case NoAttempt
  then show ?thesis using assms(1) by (simp add: publish_def)
next
  case (Attempt p q rv u exe)
  have "Attempt p q rv u exe \<in> set (attempts s)" using assms Attempt nth_mem[of i "attempts s"] by (simp add: sessionOk_def)
  then have made: "q < length (allocated s)"
      "absDecision h (sheap s) (allocated s ! q) = replayStep (absDecision h (sheap s) (allocated s ! p)) (u, exe)"
    using assms(1) unfolding sessionOk_def by blast+
  have olds: "p < length (allocated s) \<and> q < length (allocated s) \<and>
      absDecision h (sheap s) (allocated s ! q) = replayStep (absDecision h (sheap s) (allocated s ! p)) (v, x)"
    if "Attempt p q r v x \<in> set ((attempts s)[i := NoAttempt])" for p q r v x
    using Attempt_update[OF that] assms(1) unfolding sessionOk_def by blast
  show ?thesis
  proof (cases "valid \<and> current s = p \<and> rv = revision (allocated s ! p)")
    case True
    have "absDecision h (sheap s) (allocated s ! q) = replay (commits s @ [(u, exe)])"
      using True made(2) assms(1) by (simp add: replay_def sessionOk_def currentDecision_def)
    then show ?thesis using True Attempt made(1) assms(1) olds
      by (simp add: sessionOk_def publish_def Let_def currentDecision_def)
  next
    case False
    then have "publish i valid s = s\<lparr>attempts := (attempts s)[i := NoAttempt]\<rparr>" using Attempt by (auto simp: publish_def Let_def)
    then show ?thesis using assms(1) olds by (simp add: sessionOk_def currentDecision_def)
  qed
qed

lemma sessionOk_discard:
  assumes "sessionOk h k s"
  shows "sessionOk h k (discardConstruction s)"
proof (cases "execution (currentDecision s)")
  case False
  have "allocated s \<noteq> []" using assms by (auto simp: sessionOk_def)
  then have "heapOk (sheap s) (hd (allocated s))" using assms by (simp add: sessionOk_def)
  then have "heapOk (sheap s) (emptyDecision rv)" for rv by (intro heapOk_empty) (simp add: heapOk_def)
  then show ?thesis using assms False
    by (auto simp: sessionOk_def discardConstruction_def currentDecision_def nth_append absDecision_empty replay_def less_SucI)
qed (use assms in \<open>simp add: discardConstruction_def\<close>)

lemma sessionOk_reachable: "sessionReachable h k s \<Longrightarrow> sessionOk h k s"
proof (induction rule: sessionReachable.induct)
  case NewS
  show ?case by (simp add: sessionOk_def newSession_def currentDecision_def heapOk_empty absDecision_empty replay_def)
qed (simp_all add: sessionOk_propose sessionOk_publish sessionOk_discard)

text \<open>Roles are never taken back once execution has begun, and a role byte is always well formed.\<close>

definition roleOk :: "8 word \<Rightarrow> bool" where
  "roleOk r \<longleftrightarrow> (\<forall>k. bit r k \<longrightarrow> k < 5 \<and> bit r 0) \<and> (bit r 1 \<longrightarrow> bit r 3) \<and> (bit r 4 \<longrightarrow> bit r 2)"

lemma spec_bits:
  fixes old :: "NamedResource \<Rightarrow> 8 word" and n :: NamedResource and u :: Admission
  assumes "\<not> (started \<and> \<not> exe)"
  defines "base \<equiv> if exe \<and> \<not> started then 0 else old n"
  defines "in_ord \<equiv> n \<noteq> zeroResource \<and> n \<in> set (Ordinary u)" and "in_need \<equiv> n \<noteq> zeroResource \<and> n \<in> set (Needed u)"
    and "in_sel \<equiv> n \<noteq> zeroResource \<and> exe \<and> n \<in> set (Selected u)" and "in_dirty \<equiv> n \<noteq> zeroResource \<and> exe \<and> n \<in> set (Dirty u)"
  defines "again \<equiv> started \<and> bit (old n) 0 \<and> \<not> bit (old n) 3 \<and> (in_ord \<or> in_sel)"
  shows "bit (specRoles old started u exe n) k \<longleftrightarrow> k < 8 \<and>
    (if k = 0 then bit base 0 \<or> in_ord \<or> in_need \<or> in_sel \<or> in_dirty else if k = 1 then bit base 1 \<or> in_sel
     else if k = 2 then bit base 2 \<or> in_dirty \<or> again else if k = 3 then bit base 3 \<or> in_ord \<or> in_sel
     else if k = 4 then \<not> in_dirty \<and> (bit base 4 \<or> again \<and> \<not> bit base 2) else bit base k)"
proof (cases "k < 8")
  case True
  then have possible: "possible_bit TYPE(8 word) k" by (simp add: possible_bit_word)
  note defs = base_def in_ord_def in_need_def in_sel_def in_dirty_def again_def
  consider "k = 0" | "k = 1" | "k = 2" | "k = 3" | "k = 4" | "k > 4" by linarith
  then show ?thesis using assms(1) True possible
    by cases (simp add: specRoles_def Let_def defs bit_or_iff bit_and_iff bit_not_iff, blast?)+
qed (auto dest: bit_imp_possible_bit simp: possible_bit_word)

lemma spec_roleOk:
  assumes "roleOk (old n)"
  shows "roleOk (specRoles old started u exe n)"
proof (cases "started \<and> \<not> exe")
  case False
  show ?thesis using assms unfolding roleOk_def spec_bits[OF False] by (auto split: if_splits)
qed (simp add: specRoles_def assms)

lemma replay_snoc: "replay (cs @ [c]) = replayStep (replay cs) c"
  by (simp add: replay_def)

lemma replay_started: "snd (replay cs) \<longleftrightarrow> True \<in> snd ` set cs"
  by (induction cs rule: rev_induct) (simp add: replay_def, simp add: replay_snoc replayStep_def disj_commute)

lemma replay_roleOk: "roleOk (fst (replay cs) n)"
  by (induction cs rule: rev_induct) (simp add: replay_def roleOk_def, simp add: replay_snoc replayStep_def spec_roleOk)

lemma replay_keeps:
  assumes "(u, True) \<in> set cs" and "n \<noteq> zeroResource"
  shows "(n \<in> set (Ordinary u) \<union> set (Needed u) \<union> set (Selected u) \<union> set (Dirty u) \<longrightarrow> bit (fst (replay cs) n) 0) \<and>
    (n \<in> set (Selected u) \<longrightarrow> bit (fst (replay cs) n) 1) \<and> (n \<in> set (Dirty u) \<longrightarrow> bit (fst (replay cs) n) 2) \<and>
    (n \<in> set (Ordinary u) \<union> set (Selected u) \<longrightarrow> bit (fst (replay cs) n) 3)"
  using assms(1)
proof (induction cs rule: rev_induct)
  case (snoc c cs)
  obtain v exe where c: "c = (v, exe)" by (cases c)
  have now: "fst (replay (cs @ [c])) n = specRoles (fst (replay cs)) (snd (replay cs)) v exe n" by (simp add: replay_snoc replayStep_def c)
  show ?case
  proof (cases "c = (u, True)")
    case True
    then have "\<not> (snd (replay cs) \<and> \<not> exe)" using c by simp
    from spec_bits[OF this] show ?thesis unfolding now using True c assms(2) by simp
  next
    case False
    then have old: "(u, True) \<in> set cs" using snoc.prems by simp
    then have started: "snd (replay cs)" unfolding replay_started using imageI[OF old, of snd] by simp
    show ?thesis
    proof (cases exe)
      case True
      then have "\<not> (snd (replay cs) \<and> \<not> exe)" by simp
      from spec_bits[OF this] show ?thesis unfolding now using snoc.IH[OF old] started by auto
    next
      case False
      then show ?thesis unfolding now using snoc.IH[OF old] started by (simp add: specRoles_def)
    qed
  qed
qed simp

text \<open>
  C6. No admission is lost. However commits, failed publications and discarded constructions interleave,
  the current decision holds exactly the roles that the published commits give when they are run one after the other,
  so a commit that was prepared from an outdated decision never overwrites another. In particular everything
  a published execution commit asked for is still admitted.
\<close>

theorem session_linearizable:
  assumes "sessionReachable h k s"
  shows "rolesOf h (sheap s) (currentDecision s) = fst (replay (commits s)) \<and>
    execution (currentDecision s) = snd (replay (commits s)) \<and>
    (\<forall>u n. (u, True) \<in> set (commits s) \<longrightarrow> n \<noteq> zeroResource \<longrightarrow>
       (n \<in> set (Ordinary u) \<union> set (Needed u) \<union> set (Selected u) \<union> set (Dirty u) \<longrightarrow> reconciles h (sheap s) (Some (currentDecision s)) n) \<and>
       (n \<in> set (Selected u) \<longrightarrow> outputs h (sheap s) (Some (currentDecision s)) n) \<and>
       (n \<in> set (Dirty u) \<longrightarrow> changedRole h (sheap s) (Some (currentDecision s)) n) \<and>
       (n \<in> set (Ordinary u) \<union> set (Selected u) \<longrightarrow> ordinaryDemand h (sheap s) (Some (currentDecision s)) n))"
proof -
  have abs: "absDecision h (sheap s) (currentDecision s) = replay (commits s)"
    using sessionOk_reachable[OF assms] by (simp add: sessionOk_def)
  then have roles: "rolesOf h (sheap s) (currentDecision s) = fst (replay (commits s))" "execution (currentDecision s) = snd (replay (commits s))"
    unfolding absDecision_def by (metis fst_conv, metis snd_conv)
  then show ?thesis using replay_keeps[where cs = "commits s"]
    by (simp add: reconciles_def outputs_def changedRole_def ordinaryDemand_def roles_def)
qed

text \<open>
  C12. Role bytes are well formed in every decision a session publishes: only the five roles occur, every role implies
  that the identity is needed, selected output is ordinary demand, and a promoted identity is dirty.
\<close>

theorem session_roles_ok:
  assumes "sessionReachable h k s"
  shows "roleOk (rolesOf h (sheap s) (currentDecision s) n)"
proof -
  have "absDecision h (sheap s) (currentDecision s) = replay (commits s)"
    using sessionOk_reachable[OF assms] by (simp add: sessionOk_def)
  then have "rolesOf h (sheap s) (currentDecision s) = fst (replay (commits s))" unfolding absDecision_def by (metis fst_conv)
  then show ?thesis by (simp add: replay_roleOk)
qed

section \<open>An example run\<close>

definition exampleApp :: NamedResource where
  "exampleApp = NamedResource ''apps'' ''Deployment'' ''web'' ''front''"

definition exampleUpdate :: Admission where
  "exampleUpdate = \<lparr>Ordinary = [], Needed = [exampleApp], Selected = [exampleApp], Dirty = []\<rparr>"

definition exampleSession :: Session where
  "exampleSession = publish 0 True (propose (\<lambda>_. 0) 0 0 exampleUpdate True (newSession 1))"

lemma exampleSession_reachable: "sessionReachable (\<lambda>_. 0) 1 exampleSession" "commits exampleSession = [(exampleUpdate, True)]"
proof -
  have "sessionReachable (\<lambda>_. 0) 1 (propose (\<lambda>_. 0) 0 0 exampleUpdate True (newSession 1))"
    by (rule sessionReachable.Propose[OF sessionReachable.NewS]) (simp_all add: newSession_def)
  then show "sessionReachable (\<lambda>_. 0) 1 exampleSession" unfolding exampleSession_def by (rule sessionReachable.Publish) simp
  show "commits exampleSession = [(exampleUpdate, True)]"
    by (simp add: exampleSession_def publish_def propose_def newSession_def currentDecision_def emptyDecision_def Let_def split: prod.splits if_splits)
qed

theorem include_exact_witness:
  "heapOk [] (emptyDecision 0) \<and> snd (snd (includeUpdate (\<lambda>_. 0) [] (emptyDecision 0) exampleUpdate True)) = [exampleApp] \<and>
   sorted_list_of_set (specIncluded (rolesOf (\<lambda>_. 0) [] (emptyDecision 0)) False exampleUpdate True) = [exampleApp]"
proof -
  have ok: "heapOk [] (emptyDecision 0)" by (simp add: heapOk_empty)
  obtain hp d inc where inc: "includeUpdate (\<lambda>_. 0) [] (emptyDecision 0) exampleUpdate True = (hp, d, inc)"
    by (cases "includeUpdate (\<lambda>_. 0) [] (emptyDecision 0) exampleUpdate True")
  have run: "snd (snd (includeUpdate (\<lambda>_. 0) [] (emptyDecision 0) exampleUpdate True)) = [exampleApp]" by code_simp
  then have "inc = [exampleApp]" by (simp add: inc)
  moreover have "inc = sorted_list_of_set (specIncluded (rolesOf (\<lambda>_. 0) [] (emptyDecision 0)) False exampleUpdate True)"
    using include_exact[OF ok inc] by (simp add: emptyDecision_def)
  ultimately show ?thesis using ok run by simp
qed

theorem session_linearizable_witness:
  "outputs (\<lambda>_. 0) (sheap exampleSession) (Some (currentDecision exampleSession)) exampleApp"
proof -
  have "(exampleUpdate, True) \<in> set (commits exampleSession)" "exampleApp \<noteq> zeroResource" "exampleApp \<in> set (Selected exampleUpdate)"
    by (simp_all add: exampleSession_reachable(2) exampleUpdate_def) (simp add: exampleApp_def)
  then show ?thesis using session_linearizable[OF exampleSession_reachable(1)] by blast
qed

theorem session_roles_ok_witness: "roleOk (rolesOf (\<lambda>_. 0) (sheap exampleSession) (currentDecision exampleSession) exampleApp)"
  by (rule session_roles_ok[OF exampleSession_reachable(1)])

section \<open>What is projected\<close>

lemma map_of_addToBatch:
  "map_of (addToBatch p doc bs) q = (if q = p then Some (case map_of bs p of None \<Rightarrow> [doc] | Some docs \<Rightarrow> docs @ [doc]) else map_of bs q)"
  by (induction p doc bs rule: addToBatch.induct) auto

lemma keys_addToBatch: "map fst (addToBatch p doc bs) = map fst bs @ (if p \<in> fst ` set bs then [] else [p])"
  by (induction p doc bs rule: addToBatch.induct) auto

definition keptDocument :: "hasher \<Rightarrow> mapHeap \<Rightarrow> Decision option \<Rightarrow> 'doc EmissionFacts \<Rightarrow> NamedResource \<Rightarrow> bool" where
  "keptDocument h hp d e n \<longleftrightarrow> documentScope e \<or> outputs h hp d (emitter e) \<or> reconciles h hp d n"

definition keptPairs :: "hasher \<Rightarrow> mapHeap \<Rightarrow> Decision option \<Rightarrow> 'doc EmissionFacts list \<Rightarrow> (NamedResource \<times> 'doc) list" where
  "keptPairs h hp d es = [(emissionParent e, doc). e \<leftarrow> es, (doc, n) \<leftarrow> facts e, keptDocument h hp d e n]"

lemma collectEmissions_pairs: "collectEmissions h hp d es = foldl (\<lambda>bs (p, doc). addToBatch p doc bs) [] (keptPairs h hp d es)"
proof -
  have inner: "foldl (\<lambda>bs (doc, n). if \<not> documentScope e \<and> \<not> outputs h hp d (emitter e) \<and> \<not> reconciles h hp d n then bs
       else addToBatch (emissionParent e) doc bs) bs fs =
     foldl (\<lambda>bs (p, doc). addToBatch p doc bs) bs [(emissionParent e, doc). (doc, n) \<leftarrow> fs, keptDocument h hp d e n]" for e bs fs
    by (induction fs arbitrary: bs) (auto simp: keptDocument_def)
  have "foldl (\<lambda>bs e. foldl (\<lambda>bs (doc, n). if \<not> documentScope e \<and> \<not> outputs h hp d (emitter e) \<and> \<not> reconciles h hp d n then bs
       else addToBatch (emissionParent e) doc bs) bs (facts e)) bs es = foldl (\<lambda>bs (p, doc). addToBatch p doc bs) bs (keptPairs h hp d es)" for bs
    unfolding inner keptPairs_def by (induction es arbitrary: bs) simp_all
  then show ?thesis unfolding collectEmissions_def .
qed

lemma batches_of_pairs:
  "distinct (map fst (foldl (\<lambda>bs (p, doc). addToBatch p doc bs) [] ps)) \<and>
   map_of (foldl (\<lambda>bs (p, doc). addToBatch p doc bs) [] ps) p =
     (let docs = map snd (filter (\<lambda>x. fst x = p) ps) in if docs = [] then None else Some docs)"
proof (induction ps rule: rev_induct)
  case (snoc x ps)
  obtain q doc where x: "x = (q, doc)" by (cases x)
  let ?bs = "foldl (\<lambda>bs (p, doc). addToBatch p doc bs) [] ps"
  have "distinct (map fst (addToBatch q doc ?bs))" unfolding keys_addToBatch using snoc by auto
  then show ?case using snoc by (auto simp: x map_of_addToBatch Let_def split: if_splits)
qed simp

text \<open>
  Collecting emissions keeps exactly the documents of the admitted emitters, of the admitted identities and of the
  emitters that scope their documents themselves, grouped under their reporting parents, in the order they
  were emitted, and each parent has one batch, which is not empty.
\<close>

theorem collectEmissions_exact:
  "distinct (map fst (collectEmissions h hp d es)) \<and>
   map_of (collectEmissions h hp d es) p =
     (let docs = [doc. e \<leftarrow> es, emissionParent e = p, (doc, n) \<leftarrow> facts e,
                       documentScope e \<or> outputs h hp d (emitter e) \<or> reconciles h hp d n]
      in if docs = [] then None else Some docs)"
proof -
  have one: "map snd (filter (\<lambda>x. fst x = p) [(emissionParent e, doc). (doc, n) \<leftarrow> fs, keptDocument h hp d e n]) =
      (if emissionParent e = p then [doc. (doc, n) \<leftarrow> fs, keptDocument h hp d e n] else [])" for e fs
    by (induction fs) auto
  have pairs: "map snd (filter (\<lambda>x. fst x = p) (keptPairs h hp d es)) =
      [doc. e \<leftarrow> es, emissionParent e = p, (doc, n) \<leftarrow> facts e, keptDocument h hp d e n]"
    unfolding keptPairs_def by (induction es) (simp_all only: list.map concat.simps filter.simps filter_append map_append one)
  show ?thesis unfolding collectEmissions_pairs pairs[unfolded keptDocument_def, symmetric] by (rule batches_of_pairs)
qed

lemma projectIndex_exact:
  assumes "gok readers" and "d \<noteq> None" and "projectIndex h hp d (Some readers) = Some readers'"
  shows "map_of readers' f = (case map_of readers f of None \<Rightarrow> None
    | Some rs \<Rightarrow> let kept = filter (reconciles h hp d) rs in if rs \<noteq> [] \<and> kept = [] then None else Some kept)"
proof -
  define prune where "prune = (\<lambda>(m :: (string, NamedResource list) gomap) (path, rs).
    if list_ex (\<lambda>r. \<not> reconciles h hp d r) rs
    then let kept = filter (reconciles h hp d) rs in if kept = [] then gdel path m else gput path kept m else m)"
  define view where "view = (\<lambda>rs. let kept = filter (reconciles h hp d) rs in if rs \<noteq> [] \<and> kept = [] then None else Some kept)"
  have clean: "view rs = Some rs" if "\<not> list_ex (\<lambda>r. \<not> reconciles h hp d r) rs" for rs
  proof -
    have "filter (reconciles h hp d) rs = rs" using that by (intro filter_True) (auto simp: list_ex_iff)
    then show ?thesis by (simp add: view_def)
  qed
  have step: "gok (prune m (path, rs)) \<and> map_of (prune m (path, rs)) f = (if f = path then view rs else map_of m f)"
    if m: "gok m" "map_of m path = Some rs" for m path rs f
  proof (cases "list_ex (\<lambda>r. \<not> reconciles h hp d r) rs")
    case True
    then have "rs \<noteq> []" by auto
    then show ?thesis using m(1) True by (simp add: prune_def view_def Let_def gok_gput gok_gdel map_of_gput map_of_gdel)
  qed (use m clean in \<open>simp add: prune_def\<close>)
  have "gok (foldl prune m todo) \<and> map_of (foldl prune m todo) f = (case map_of todo f of None \<Rightarrow> map_of m f | Some rs \<Rightarrow> view rs)"
    if "gok m" "distinct (map fst todo)" "\<forall>(path, rs) \<in> set todo. map_of m path = Some rs" for m todo
    using that
  proof (induction todo arbitrary: m)
    case (Cons x todo)
    obtain path rs where x: "x = (path, rs)" by (cases x)
    have here: "map_of m path = Some rs" using Cons.prems x by simp
    note now = step[OF Cons.prems(1) here]
    have "\<forall>(g, qs) \<in> set todo. map_of (prune m (path, rs)) g = Some qs" using Cons.prems x now by (force simp: rev_image_eqI)
    from Cons.IH[OF conjunct1[OF now] _ this] show ?case using Cons.prems(2) now x
      by (auto split: option.splits dest: map_of_SomeD simp: rev_image_eqI)
  qed simp
  note all = this[of readers readers, OF assms(1) gok_distinct[OF assms(1)]]
  have "readers' = foldl prune readers readers" using assms(2,3) by (auto simp: projectIndex_def prune_def)
  moreover have "\<forall>(g, rs) \<in> set readers. map_of readers g = Some rs" using gok_distinct[OF assms(1)] by auto
  ultimately show ?thesis using all by (cases "map_of readers f") (simp_all add: view_def)
qed

end
