(* ===== verification/Failures.thy ===== *)
theory Failures
  imports Status Decisions
begin

text \<open>
  Which failures a projected run reports, and as what: \<^verbatim>\<open>pkg/selection/scope.go\<close>.

  \<open>blocked\<close> maps a resource that failed because of others to those others. The recursive closures of the source
  share one set of seen nodes, so each is a loop here: its stack holds the arguments of the pending calls. Maps
  that the source ranges over in random order are association lists; what is collected from them is sorted or a set.
  The names under which diagnostics print are a parameter \<open>describe\<close>.
\<close>

section \<open>Root causes\<close>

type_synonym blockMap = "(NamedResource, NamedResource list) gomap"

definition blockersIn :: "blockMap \<Rightarrow> NamedResource \<Rightarrow> NamedResource list" where
  "blockersIn b n = (case map_of b n of None \<Rightarrow> [] | Some ds \<Rightarrow> ds)"

definition derived :: "blockMap \<Rightarrow> NamedResource \<Rightarrow> bool" where
  "derived b n \<longleftrightarrow> map_of b n \<noteq> None"

definition unseenKeys :: "('a \<times> 'b) list \<Rightarrow> 'a list \<Rightarrow> nat" where
  "unseenKeys b seen = card (fst ` set b - set seen)"

lemma unseenKeys_less: "map_of b n \<noteq> None \<Longrightarrow> n \<notin> set seen \<Longrightarrow> unseenKeys b (n # seen) < unseenKeys b seen"
  unfolding unseenKeys_def by (rule psubset_card_mono) (auto simp: map_of_eq_None_iff)

lemma unseenKeys_le: "unseenKeys b (n # seen) \<le> unseenKeys b seen"
  unfolding unseenKeys_def by (rule card_mono) auto

function walkRoots :: "blockMap \<Rightarrow> NamedResource list \<Rightarrow> NamedResource list \<Rightarrow> NamedResource list \<Rightarrow> NamedResource list \<times> NamedResource list" where
  "walkRoots b seen out [] = (seen, out)"
| "walkRoots b seen out (dep # pending) =
     (if dep \<in> set seen then walkRoots b seen out pending
      else if derived b dep then walkRoots b (dep # seen) out (blockersIn b dep @ pending)
      else walkRoots b (dep # seen) (out @ [dep]) pending)"
  by pat_completeness auto
termination
  by (relation "measures [\<lambda>(b, seen, out, pending). unseenKeys b seen, \<lambda>(b, seen, out, pending). length pending]")
    (auto simp: derived_def intro: unseenKeys_less le_neq_implies_less[OF unseenKeys_le])

definition rootsOf :: "NamedResource \<Rightarrow> blockMap \<Rightarrow> NamedResource list" where
  "rootsOf n b = snd (walkRoots b [n] [] (blockersIn b n))"

definition compactSorted :: "NamedResource list \<Rightarrow> NamedResource list" where
  "compactSorted ns = remdups_adj (sortFunc compareResource ns)"

definition appendTo :: "NamedResource \<Rightarrow> blockMap \<Rightarrow> NamedResource \<Rightarrow> blockMap" where
  "appendTo n m root = gput root (blockersIn m root @ [n]) m"

definition rootVictims :: "blockMap \<Rightarrow> blockMap" where
  "rootVictims b = map (\<lambda>(root, ns). (root, compactSorted ns))
     (foldl (\<lambda>m n. foldl (appendTo n) m (rootsOf n b)) [] (map fst b))"

section \<open>Dependency cycles\<close>

function reachesLoop :: "blockMap \<Rightarrow> NamedResource \<Rightarrow> NamedResource list \<Rightarrow> NamedResource list \<Rightarrow> bool" where
  "reachesLoop b n seen [] = False"
| "reachesLoop b n seen (dep # pending) =
     (if dep = n then True
      else if dep \<in> set seen then reachesLoop b n seen pending
      else reachesLoop b n (dep # seen) (blockersIn b dep @ pending))"
  by pat_completeness auto
termination
proof (relation "measures [\<lambda>(b, n, seen, pending). unseenKeys b seen, \<lambda>(b, n, seen, pending). length pending]", goal_cases)
  case (3 b n seen dep pending)
  show ?case
  proof (cases "map_of b dep")
    case None
    then show ?thesis using unseenKeys_le[of b dep seen] by (auto simp: blockersIn_def)
  next
    case (Some ds)
    then show ?thesis using unseenKeys_less[of b dep seen] 3 by auto
  qed
qed auto

definition markDependencyCycles :: "(NamedResource, StatusInfo) gomap \<Rightarrow> blockMap \<Rightarrow> (NamedResource \<Rightarrow> bool) \<Rightarrow> NamedResource list" where
  "markDependencyCycles failed b covered =
     filter (\<lambda>n. \<not> covered n \<and> reachesLoop b n [] (blockersIn b n)) (map fst failed)"

section \<open>The report of causes\<close>

definition cycleMessage :: "(NamedResource \<Rightarrow> string) \<Rightarrow> NamedResource list \<Rightarrow> string" where
  "cycleMessage describe peers =
     ''dependency cycle: blocked by '' @ joinWith '', '' (map describe (sortFunc compareResource peers))"

definition coveredBy :: "blockMap \<Rightarrow> (NamedResource, StatusInfo) gomap \<Rightarrow> blockMap \<Rightarrow> NamedResource \<Rightarrow> bool" where
  "coveredBy byRoot failed b n \<longleftrightarrow>
     n \<in> fst ` set byRoot \<or> list_ex (\<lambda>(root, ns). n \<in> set ns) byRoot \<or> (n \<in> fst ` set failed \<and> \<not> derived b n)"

text \<open>The failures with the messages of cycles, and the causes with their victims.\<close>

definition failureCauses ::
  "(NamedResource \<Rightarrow> string) \<Rightarrow> (NamedResource, StatusInfo) gomap \<Rightarrow> blockMap \<Rightarrow> (NamedResource, StatusInfo) gomap \<times> blockMap" where
  "failureCauses describe failed b =
     (let byRoot = rootVictims b;
          cycles = markDependencyCycles failed b (coveredBy byRoot failed b);
          view = foldl (\<lambda>v n. gdel n v) b cycles;
          failed' = foldl (\<lambda>f n. case map_of f n of None \<Rightarrow> f
                              | Some info \<Rightarrow> gput n (info\<lparr>infoMessage := cycleMessage describe (blockersIn b n)\<rparr>) f) failed cycles;
          byRoot = (if cycles \<noteq> [] then rootVictims view else byRoot)
      in (failed', foldl (\<lambda>m n. if derived view n \<or> derived m n then m else gput n [] m) byRoot (map fst failed')))"

definition blockedCount :: "(NamedResource, StatusInfo) gomap \<Rightarrow> blockMap \<Rightarrow> blockMap \<Rightarrow> int" where
  "blockedCount failed b causes =
     int (length b) - int (length (filter (\<lambda>root. map_of failed root \<noteq> None \<and> derived b root) (map fst causes)))"

section \<open>Roots are the reachable resources that nothing blocks\<close>

abbreviation blocksOn :: "blockMap \<Rightarrow> (NamedResource \<times> NamedResource) set" where
  "blocksOn b \<equiv> {(u, v). v \<in> set (blockersIn b u)}"

interpretation blocks: successor_graph "\<lambda>u. set (blockersIn b u)" for b .

lemma blockersIn_derived: "blockersIn b n \<noteq> [] \<Longrightarrow> derived b n"
  by (auto simp: blockersIn_def derived_def split: option.splits)

lemma cycle_derived: "(n, r) \<in> (blocksOn b)\<^sup>+ \<Longrightarrow> derived b n"
proof -
  assume "(n, r) \<in> (blocksOn b)\<^sup>+"
  then obtain v where "v \<in> set (blockersIn b n)" by (auto dest: tranclD)
  then have "blockersIn b n \<noteq> []" by auto
  then show ?thesis by (rule blockersIn_derived)
qed

text \<open>The nodes a walk adds are reachable from its stack and closed, and the ones that nothing blocks are its output.\<close>

lemma walkRoots_facts:
  assumes "walkRoots b seen out pending = (seen', out')"
  shows "set seen \<union> set pending \<subseteq> set seen' \<and>
    (\<forall>u \<in> set seen' - set seen. set (blockersIn b u) \<subseteq> set seen' \<and> (\<exists>x \<in> set pending. (x, u) \<in> (blocksOn b)\<^sup>*)) \<and>
    set out' = set out \<union> {u \<in> set seen' - set seen. \<not> derived b u}"
  using assms
proof (induction b seen out pending rule: walkRoots.induct)
  case (2 b seen out dep pending)
  consider (old) "dep \<in> set seen" | (inner) "dep \<notin> set seen" "derived b dep" | (leaf) "dep \<notin> set seen" "\<not> derived b dep" by blast
  then show ?case
  proof cases
    case old
    then show ?thesis using "2.IH"(1)[OF old] "2.prems" by fastforce
  next
    case inner
    have IH: "set (dep # seen) \<union> set (blockersIn b dep @ pending) \<subseteq> set seen'"
      "\<forall>u \<in> set seen' - set (dep # seen). set (blockersIn b u) \<subseteq> set seen' \<and> (\<exists>x \<in> set (blockersIn b dep @ pending). (x, u) \<in> (blocksOn b)\<^sup>*)"
      "set out' = set out \<union> {u \<in> set seen' - set (dep # seen). \<not> derived b u}"
      using "2.IH"(2)[OF inner] "2.prems" inner by simp_all
    have "\<exists>x \<in> set (dep # pending). (x, u) \<in> (blocksOn b)\<^sup>*" if "u \<in> set seen' - set seen" for u
    proof (cases "u = dep")
      case False
      then have "u \<in> set seen' - set (dep # seen)" using that by simp
      then obtain x where x: "x \<in> set (blockersIn b dep @ pending)" "(x, u) \<in> (blocksOn b)\<^sup>*" using IH(2) by blast
      then show ?thesis by (cases "x \<in> set pending") (auto intro: converse_rtrancl_into_rtrancl)
    qed simp
    moreover have "set (blockersIn b u) \<subseteq> set seen'" if "u \<in> set seen' - set seen" for u
      using IH(1,2) that by (cases "u = dep") auto
    ultimately show ?thesis using IH(1,3) inner(2) by auto
  next
    case leaf
    then have none: "blockersIn b dep = []" using blockersIn_derived by blast
    have IH: "set (dep # seen) \<union> set pending \<subseteq> set seen'"
      "\<forall>u \<in> set seen' - set (dep # seen). set (blockersIn b u) \<subseteq> set seen' \<and> (\<exists>x \<in> set pending. (x, u) \<in> (blocksOn b)\<^sup>*)"
      "set out' = set (out @ [dep]) \<union> {u \<in> set seen' - set (dep # seen). \<not> derived b u}"
      using "2.IH"(3)[OF leaf] "2.prems" leaf by simp_all
    have "set (blockersIn b u) \<subseteq> set seen' \<and> (\<exists>x \<in> set (dep # pending). (x, u) \<in> (blocksOn b)\<^sup>*)" if "u \<in> set seen' - set seen" for u
      using IH(1,2) that none by (cases "u = dep") auto
    then show ?thesis using IH(1,3) leaf by auto
  qed
qed simp

lemma walkRoots_distinct:
  assumes "walkRoots b seen out pending = (seen', out')" and "distinct out" and "set out \<subseteq> set seen"
  shows "distinct out'"
  using assms by (induction b seen out pending rule: walkRoots.induct) (auto split: if_splits)

lemma rootsOf_exact:
  shows "set (rootsOf n b) = {r. (n, r) \<in> (blocksOn b)\<^sup>+ \<and> \<not> derived b r}" and "distinct (rootsOf n b)"
proof -
  obtain seen out where walk: "walkRoots b [n] [] (blockersIn b n) = (seen, out)" by (cases "walkRoots b [n] [] (blockersIn b n)")
  then have out: "rootsOf n b = out" by (simp add: rootsOf_def)
  note facts = walkRoots_facts[OF walk]
  have closed: "v \<in> set seen" if "u \<in> set seen" "v \<in> set (blockersIn b u)" for u v
    using facts that by (cases "u = n") auto
  have reach: "u \<in> set seen" if "(n, u) \<in> (blocksOn b)\<^sup>+" for u
    using blocks.closed_reachable[OF trancl_into_rtrancl[OF that], of "set seen"] facts closed by auto
  have back_: "(n, u) \<in> (blocksOn b)\<^sup>+" if "u \<in> set seen" "u \<noteq> n" for u
  proof -
    have "u \<in> set seen - set [n]" using that by simp
    then obtain x where "x \<in> set (blockersIn b n)" "(x, u) \<in> (blocksOn b)\<^sup>*" using facts by blast
    then show ?thesis by (auto intro: rtrancl_into_trancl2)
  qed
  have "set out = {u \<in> set seen - {n}. \<not> derived b u}" using facts by simp
  then show "set (rootsOf n b) = {r. (n, r) \<in> (blocksOn b)\<^sup>+ \<and> \<not> derived b r}"
    unfolding out using reach back_ cycle_derived by blast
  show "distinct (rootsOf n b)" unfolding out using walkRoots_distinct[OF walk] by simp
qed

lemma reachesLoop_sound: "reachesLoop b n seen pending \<Longrightarrow> \<exists>q \<in> set pending. (q, n) \<in> (blocksOn b)\<^sup>*"
proof (induction b n seen pending rule: reachesLoop.induct)
  case (2 b n seen dep pending)
  show ?case
  proof (cases "dep = n \<or> dep \<in> set seen")
    case True
    then show ?thesis using 2 by (auto split: if_splits)
  next
    case False
    then obtain q where "q \<in> set (blockersIn b dep @ pending)" "(q, n) \<in> (blocksOn b)\<^sup>*" using 2 by auto
    then show ?thesis by (cases "q \<in> set pending") (auto intro: converse_rtrancl_into_rtrancl)
  qed
qed simp

lemma reachesLoop_complete:
  assumes "\<not> reachesLoop b n seen pending" and "\<forall>u \<in> set seen. set (blockersIn b u) \<subseteq> set seen \<union> set pending" and "n \<notin> set seen"
  shows "\<exists>S. set seen \<union> set pending \<subseteq> S \<and> n \<notin> S \<and> (\<forall>u \<in> S. set (blockersIn b u) \<subseteq> S)"
  using assms
proof (induction b n seen pending rule: reachesLoop.induct)
  case (1 b n seen)
  then show ?case by (intro exI[of _ "set seen"]) simp
next
  case (2 b n seen dep pending)
  have new: "dep \<noteq> n" using 2(3) by auto
  show ?case
  proof (cases "dep \<in> set seen")
    case True
    have "\<exists>S. set seen \<union> set pending \<subseteq> S \<and> n \<notin> S \<and> (\<forall>u \<in> S. set (blockersIn b u) \<subseteq> S)"
    proof (rule 2(1)[OF new True])
      show "\<not> reachesLoop b n seen pending" using 2(3) new True by simp
      show "\<forall>u \<in> set seen. set (blockersIn b u) \<subseteq> set seen \<union> set pending" using 2(4) True by auto
    qed (rule 2(5))
    then obtain S where S: "set seen \<union> set pending \<subseteq> S" "n \<notin> S" "\<forall>u \<in> S. set (blockersIn b u) \<subseteq> S" by blast
    moreover have "set seen \<union> set (dep # pending) \<subseteq> S" using S(1) True by auto
    ultimately show ?thesis by blast
  next
    case False
    have "\<exists>S. set (dep # seen) \<union> set (blockersIn b dep @ pending) \<subseteq> S \<and> n \<notin> S \<and> (\<forall>u \<in> S. set (blockersIn b u) \<subseteq> S)"
    proof (rule 2(2)[OF new False])
      show "\<not> reachesLoop b n (dep # seen) (blockersIn b dep @ pending)" using 2(3) new False by simp
      show "\<forall>u \<in> set (dep # seen). set (blockersIn b u) \<subseteq> set (dep # seen) \<union> set (blockersIn b dep @ pending)" using 2(4) by auto
    qed (use 2(5) new in auto)
    then obtain S where S: "set (dep # seen) \<union> set (blockersIn b dep @ pending) \<subseteq> S" "n \<notin> S" "\<forall>u \<in> S. set (blockersIn b u) \<subseteq> S" by blast
    moreover have "set seen \<union> set (dep # pending) \<subseteq> S" using S(1) by auto
    ultimately show ?thesis by blast
  qed
qed

lemma reachesLoop_iff: "reachesLoop b n [] (blockersIn b n) \<longleftrightarrow> (n, n) \<in> (blocksOn b)\<^sup>+"
proof
  assume "reachesLoop b n [] (blockersIn b n)"
  then obtain q where "q \<in> set (blockersIn b n)" "(q, n) \<in> (blocksOn b)\<^sup>*" using reachesLoop_sound by blast
  then show "(n, n) \<in> (blocksOn b)\<^sup>+" by (auto intro: rtrancl_into_trancl2)
next
  assume cyc: "(n, n) \<in> (blocksOn b)\<^sup>+"
  show "reachesLoop b n [] (blockersIn b n)"
  proof (rule ccontr)
    assume "\<not> reachesLoop b n [] (blockersIn b n)"
    then obtain S where S: "set (blockersIn b n) \<subseteq> S" "n \<notin> S" "\<forall>u \<in> S. set (blockersIn b u) \<subseteq> S"
      using reachesLoop_complete[of b n "[]" "blockersIn b n"] by auto
    obtain v where "(n, v) \<in> blocksOn b" "(v, n) \<in> (blocksOn b)\<^sup>*" using tranclD[OF cyc] by blast
    then show False using blocks.closed_reachable[of v n b S] S by blast
  qed
qed

section \<open>Victims\<close>

lemma compactSorted_eq: "compactSorted ns = sorted_list_of_set (set ns)"
  unfolding compactSorted_def by (rule sorted_compact)

lemma blockersIn_gput: "gok m \<Longrightarrow> blockersIn (gput k v m) n = (if n = k then v else blockersIn m n)"
  by (simp add: blockersIn_def map_of_gput)

definition victimOk :: "blockMap \<Rightarrow> bool" where
  "victimOk m \<longleftrightarrow> gok m \<and> (\<forall>r. derived m r \<longleftrightarrow> blockersIn m r \<noteq> [])"

lemma appendTo_ok:
  assumes "victimOk m"
  shows "victimOk (appendTo n m root)" "set (blockersIn (appendTo n m root) r) = set (blockersIn m r) \<union> (if r = root then {n} else {})"
  using assms by (auto simp: victimOk_def appendTo_def blockersIn_gput gok_gput derived_def map_of_gput)

lemma appendAll_ok:
  assumes "victimOk m"
  shows "victimOk (foldl (appendTo n) m rs) \<and> set (blockersIn (foldl (appendTo n) m rs) r) = set (blockersIn m r) \<union> (if r \<in> set rs then {n} else {})"
  using assms by (induction rs arbitrary: m) (auto simp: appendTo_ok)

lemma collectVictims_ok:
  assumes "victimOk m"
  shows "victimOk (foldl (\<lambda>m n. foldl (appendTo n) m (rootsOf n b)) m ns) \<and>
    set (blockersIn (foldl (\<lambda>m n. foldl (appendTo n) m (rootsOf n b)) m ns) r) = set (blockersIn m r) \<union> {n \<in> set ns. r \<in> set (rootsOf n b)}"
  using assms
proof (induction ns arbitrary: m)
  case (Cons n ns)
  then show ?case using appendAll_ok[OF Cons.prems, of n "rootsOf n b"] by auto
qed simp

definition victims :: "blockMap \<Rightarrow> NamedResource \<Rightarrow> NamedResource set" where
  "victims b r = {n. (n, r) \<in> (blocksOn b)\<^sup>+ \<and> \<not> derived b r}"

lemma victims_derived: "n \<in> victims b r \<Longrightarrow> derived b n"
  by (auto simp: victims_def intro: cycle_derived)

lemma derived_keys: "derived b n \<longleftrightarrow> n \<in> fst ` set b"
  by (auto simp: derived_def map_of_eq_None_iff)

lemma rootVictims_exact:
  "gok (rootVictims b) \<and> map_of (rootVictims b) r = (if victims b r = {} then None else Some (sorted_list_of_set (victims b r)))"
proof -
  define m where "m = foldl (\<lambda>m n. foldl (appendTo n) m (rootsOf n b)) [] (map fst b)"
  have "victimOk []" by (simp add: victimOk_def derived_def blockersIn_def)
  from collectVictims_ok[OF this, of b "map fst b" r] have ok: "victimOk m"
    and set_m: "set (blockersIn m r) = {n \<in> fst ` set b. r \<in> set (rootsOf n b)}" unfolding m_def by (auto simp: blockersIn_def)
  have vs: "set (blockersIn m r) = victims b r"
    unfolding set_m rootsOf_exact(1) using victims_derived[of _ b r] by (auto simp: victims_def derived_keys)
  have rv: "rootVictims b = map (\<lambda>(k, v). (k, compactSorted v)) m" by (simp add: rootVictims_def m_def)
  have "map_of (rootVictims b) r = map_option compactSorted (map_of m r)" unfolding rv by (rule map_of_map_value)
  moreover have "map_of m r = (if victims b r = {} then None else Some (blockersIn m r))"
  proof (cases "map_of m r")
    case None
    then show ?thesis using vs by (simp add: blockersIn_def)
  next
    case (Some ns)
    then have "derived m r" by (simp add: derived_def)
    then have "blockersIn m r \<noteq> []" using ok unfolding victimOk_def by blast
    then show ?thesis using Some vs by (auto simp: blockersIn_def)
  qed
  ultimately show ?thesis using ok by (auto simp: rv gok_map_value victimOk_def compactSorted_eq vs)
qed

section \<open>Causes\<close>

lemma map_of_foldl_gdel: "gok b \<Longrightarrow> gok (foldl (\<lambda>v n. gdel n v) b ns) \<and> map_of (foldl (\<lambda>v n. gdel n v) b ns) k = (if k \<in> set ns then None else map_of b k)"
  by (induction ns arbitrary: b) (auto simp: gok_gdel map_of_gdel)

lemma fill_causes:
  assumes "gok m"
  shows "gok (foldl (\<lambda>m n. if P n \<or> derived m n then m else gput n [] m) m ns) \<and>
    map_of (foldl (\<lambda>m n. if P n \<or> derived m n then m else gput n [] m) m ns) k =
      (case map_of m k of Some vs \<Rightarrow> Some vs | None \<Rightarrow> if k \<in> set ns \<and> \<not> P k then Some [] else None)"
  using assms by (induction ns arbitrary: m) (auto simp: gok_gput map_of_gput derived_def split: option.splits)

lemma cycle_messages:
  assumes "gok failed"
  shows "gok (foldl (\<lambda>f n. case map_of f n of None \<Rightarrow> f | Some info \<Rightarrow> gput n (g n info) f) failed ns) \<and>
    dom (map_of (foldl (\<lambda>f n. case map_of f n of None \<Rightarrow> f | Some info \<Rightarrow> gput n (g n info) f) failed ns)) = dom (map_of failed)"
  using assms
proof (induction ns arbitrary: failed)
  case (Cons n ns)
  then show ?case by (cases "map_of failed n") (simp_all add: gok_gput dom_gput insert_absorb domI)
qed simp

lemma failureCauses_failed:
  assumes "gok failed" and "failureCauses describe failed b = (failed', causes)"
  shows "dom (map_of failed') = dom (map_of failed)"
proof -
  have "failed' = foldl (\<lambda>f n. case map_of f n of None \<Rightarrow> f
      | Some info \<Rightarrow> gput n (info\<lparr>infoMessage := cycleMessage describe (blockersIn b n)\<rparr>) f) failed
      (markDependencyCycles failed b (coveredBy (rootVictims b) failed b))"
    using assms(2) unfolding failureCauses_def Let_def by simp
  then show ?thesis
    using cycle_messages[OF assms(1), of "\<lambda>n info. info\<lparr>infoMessage := cycleMessage describe (blockersIn b n)\<rparr>"] by simp
qed

text \<open>
  A closed cycle is a resource that blocks itself and from which nothing unblocked is reachable. Closed cycles are
  reported as causes, so they are taken out of the blocked resources.
\<close>

definition closedCycle :: "blockMap \<Rightarrow> NamedResource \<Rightarrow> bool" where
  "closedCycle b n \<longleftrightarrow> (n, n) \<in> (blocksOn b)\<^sup>+ \<and> (\<forall>r. n \<notin> victims b r)"

definition openBlocks :: "(NamedResource, StatusInfo) gomap \<Rightarrow> blockMap \<Rightarrow> blockMap" where
  "openBlocks failed b = filter (\<lambda>(n, ds). \<not> (derived b n \<and> map_of failed n \<noteq> None \<and> closedCycle b n)) b"

lemma coveredBy_iff:
  "coveredBy (rootVictims b) failed b n \<longleftrightarrow> victims b n \<noteq> {} \<or> (\<exists>r. n \<in> victims b r) \<or> (n \<in> fst ` set failed \<and> \<not> derived b n)"
proof -
  have fin: "finite (victims b r)" for r
    by (rule finite_subset[of _ "fst ` set b"]) (auto dest: victims_derived simp: derived_keys)
  have ok: "gok (rootVictims b)" using rootVictims_exact[of b] by blast
  have keys: "n \<in> fst ` set (rootVictims b) \<longleftrightarrow> victims b n \<noteq> {}"
    using rootVictims_exact[of b n] derived_keys[of "rootVictims b" n] by (auto simp: derived_def split: if_splits)
  have "list_ex (\<lambda>(root, ns). n \<in> set ns) (rootVictims b) \<longleftrightarrow> (\<exists>r ns. map_of (rootVictims b) r = Some ns \<and> n \<in> set ns)"
    using map_of_eq_Some_iff[OF gok_distinct[OF ok]] by (auto simp: list_ex_iff Bex_def)
  also have "\<dots> \<longleftrightarrow> (\<exists>r. n \<in> victims b r)"
  proof -
    have "map_of (rootVictims b) r = (if victims b r = {} then None else Some (sorted_list_of_set (victims b r)))" for r
      using rootVictims_exact[of b r] by blast
    then show ?thesis using fin by auto
  qed
  finally show ?thesis unfolding coveredBy_def keys by blast
qed

lemma cycles_exact:
  "set (markDependencyCycles failed b (coveredBy (rootVictims b) failed b)) = {n \<in> fst ` set failed. closedCycle b n}"
proof -
  have "victims b n = {}" if "(n, n) \<in> (blocksOn b)\<^sup>+" for n using cycle_derived[OF that] by (auto simp: victims_def)
  then show ?thesis unfolding markDependencyCycles_def reachesLoop_iff
    using cycle_derived by (auto simp: closedCycle_def coveredBy_iff)
qed

lemma map_of_openBlocks:
  assumes "gok b"
  shows "map_of (openBlocks failed b) k = (if map_of failed k \<noteq> None \<and> closedCycle b k then None else map_of b k)"
proof -
  have "derived b k" if "closedCycle b k" using that cycle_derived by (auto simp: closedCycle_def)
  moreover have "map_of (filter (\<lambda>(n, ds). P n) b) k = (if P k then map_of b k else None)" for P
    by (induction b) auto
  ultimately show ?thesis unfolding openBlocks_def by auto
qed

lemma gok_openBlocks: "gok b \<Longrightarrow> gok (openBlocks failed b)"
  unfolding openBlocks_def by (rule gok_filter)

lemma failureCauses_unfold:
  assumes "gok failed" and "gok b" and "failureCauses describe failed b = (failed', causes)"
  defines "view \<equiv> openBlocks failed b"
  shows "gok failed' \<and> dom (map_of failed') = dom (map_of failed) \<and> gok causes \<and>
    map_of causes r = (if victims view r \<noteq> {} \<or> map_of failed r \<noteq> None \<and> \<not> derived view r
                       then Some (sorted_list_of_set (victims view r)) else None)"
proof -
  define cycles where "cycles = markDependencyCycles failed b (coveredBy (rootVictims b) failed b)"
  define failed'' where "failed'' = foldl (\<lambda>f n. case map_of f n of None \<Rightarrow> f
      | Some info \<Rightarrow> gput n (info\<lparr>infoMessage := cycleMessage describe (blockersIn b n)\<rparr>) f) failed cycles"
  define v where "v = foldl (\<lambda>v n. gdel n v) b cycles"
  have v: "v = view"
  proof (rule gok_ext)
    show "gok v" "gok view" using map_of_foldl_gdel[OF assms(2)] gok_openBlocks[OF assms(2)] by (auto simp: v_def view_def)
    show "map_of v k = map_of view k" for k
      using map_of_foldl_gdel[OF assms(2), of cycles k] map_of_openBlocks[OF assms(2), of failed k] cycles_exact[of failed b]
      by (auto simp: v_def view_def cycles_def map_of_eq_None_iff)
  qed
  have rv: "(if cycles \<noteq> [] then rootVictims v else rootVictims b) = rootVictims view"
    by (cases "cycles = []") (auto simp: v[symmetric] v_def)
  have eq: "failed' = failed''" "causes = foldl (\<lambda>m n. if derived view n \<or> derived m n then m else gput n [] m) (rootVictims view) (map fst failed'')"
    using assms(3)[unfolded failureCauses_def Let_def, folded cycles_def, folded failed''_def v_def, unfolded rv, unfolded v] by auto
  have f: "gok failed''" "dom (map_of failed'') = dom (map_of failed)"
    using cycle_messages[OF assms(1), of "\<lambda>n info. info\<lparr>infoMessage := cycleMessage describe (blockersIn b n)\<rparr>" cycles]
    unfolding failed''_def by simp_all
  have keys: "k \<in> set (map fst failed'') \<longleftrightarrow> map_of failed k \<noteq> None" for k
    using f(2) by (auto simp: dom_def set_eq_iff map_of_eq_None_iff)
  note exact = rootVictims_exact[of view]
  have ok: "gok (rootVictims view)" using exact by blast
  have "map_of causes r = (case map_of (rootVictims view) r of Some vs \<Rightarrow> Some vs | None \<Rightarrow> if map_of failed r \<noteq> None \<and> \<not> derived view r then Some [] else None)"
    unfolding eq fill_causes[OF ok, THEN conjunct2] keys ..
  then show ?thesis unfolding eq(1) using f fill_causes[OF ok, of "derived view" "map fst failed''"] exact[of r]
    by (auto simp: eq(2) split: if_splits)
qed

text \<open>
  C11. The causes of failures. A cause is a resource that is not blocked itself, or that is on a closed cycle, and either
  failed or blocks something that failed. Its victims, sorted and without repetition, are exactly the resources from which it can
  be reached through blocked resources. The failures themselves stay the same but for the messages of closed
  cycles.
\<close>

theorem failureCauses_exact:
  assumes "gok failed" and "gok b" and "failureCauses describe failed b = (failed', causes)"
  shows "dom (map_of failed') = dom (map_of failed) \<and>
    map_of causes r =
      (if victims (openBlocks failed b) r \<noteq> {} \<or> map_of failed r \<noteq> None \<and> \<not> derived (openBlocks failed b) r
       then Some (sorted_list_of_set (victims (openBlocks failed b) r)) else None)"
  using failureCauses_unfold[OF assms] by blast

lemma finite_cycle:
  assumes "finite X" and "x \<in> X" and "\<forall>x \<in> X. \<exists>y \<in> X. (x, y) \<in> R"
  shows "\<exists>x \<in> X. (x, x) \<in> R\<^sup>+"
proof (rule ccontr)
  assume none: "\<not> (\<exists>x \<in> X. (x, x) \<in> R\<^sup>+)"
  let ?R = "R \<inter> X \<times> X"
  have "finite ?R" using assms(1) by auto
  moreover have "acyclic ?R"
  proof (rule acyclicI, intro allI notI)
    fix x assume loop: "(x, x) \<in> ?R\<^sup>+"
    then have "x \<in> X" by (auto dest: tranclD)
    moreover have "(x, x) \<in> R\<^sup>+" using loop by (rule trancl_mono) simp
    ultimately show False using none by blast
  qed
  ultimately have "wf (?R\<inverse>)" by (rule finite_acyclic_wf_converse)
  then obtain z where z: "z \<in> X" "\<And>y. (y, z) \<in> ?R\<inverse> \<Longrightarrow> y \<notin> X" using wfE_min[of "?R\<inverse>" x X] assms(2) by blast
  then show False using assms(3) by blast
qed

lemma openBlocks_lists: "gok b \<Longrightarrow> derived (openBlocks failed b) n \<Longrightarrow> blockersIn (openBlocks failed b) n = blockersIn b n \<and> derived b n"
  unfolding derived_def blockersIn_def using map_of_openBlocks[of b failed n] by (auto split: if_splits)

text \<open>Nobody waits in vain: what is still blocked reaches a cause.\<close>

lemma blocked_has_cause:
  assumes "gok b" and "\<forall>n. derived b n \<longrightarrow> map_of failed n \<noteq> None \<and> blockersIn b n \<noteq> []" and "derived (openBlocks failed b) n"
  shows "\<exists>r. n \<in> victims (openBlocks failed b) r"
proof (rule ccontr)
  let ?view = "openBlocks failed b"
  assume none: "\<not> (\<exists>r. n \<in> victims ?view r)"
  define X where "X = {x. (n, x) \<in> (blocksOn ?view)\<^sup>*}"
  have all: "derived ?view x" if x: "x \<in> X" for x
  proof (cases "x = n")
    case False
    then have "(n, x) \<in> (blocksOn ?view)\<^sup>+" using x by (simp add: X_def rtrancl_eq_or_trancl)
    then show ?thesis using none by (auto simp: victims_def)
  qed (simp add: assms(3))
  note lists = openBlocks_lists[OF assms(1), of failed]
  have closed: "y \<in> X" if "x \<in> X" "y \<in> set (blockersIn b x)" for x y
    using that lists[OF all[OF that(1)]] by (auto simp: X_def intro: rtrancl_into_rtrancl)
  have "\<exists>y \<in> X. (x, y) \<in> blocksOn b" if "x \<in> X" for x
  proof -
    have "blockersIn b x \<noteq> []" using assms(2) lists[OF all[OF that]] by blast
    then have "hd (blockersIn b x) \<in> set (blockersIn b x)" by simp
    then show ?thesis using closed[OF that] by blast
  qed
  moreover have "finite X"
    by (rule finite_subset[of _ "fst ` set ?view"]) (use all in \<open>auto simp: derived_keys\<close>)
  moreover have "n \<in> X" by (simp add: X_def)
  ultimately obtain x where x: "x \<in> X" "(x, x) \<in> (blocksOn b)\<^sup>+" using finite_cycle[of X n "blocksOn b"] by blast
  have "x \<notin> victims b r" for r
  proof
    assume "x \<in> victims b r"
    then have path: "(x, r) \<in> (blocksOn b)\<^sup>*" "\<not> derived b r" by (auto simp: victims_def)
    have "r \<in> X" using blocks.closed_reachable[OF path(1) x(1)] closed by blast
    then show False using path(2) lists[OF all] by blast
  qed
  then have "closedCycle b x" using x(2) by (simp add: closedCycle_def)
  moreover have "map_of failed x \<noteq> None" using assms(2) lists[OF all[OF x(1)]] by blast
  ultimately show False using all[OF x(1)] by (simp add: derived_def map_of_openBlocks[OF assms(1)])
qed

lemma keys_of: "fst ` set m = dom (map_of m)"
  by (rule dom_map_of_conv_image_fst[symmetric])

lemma length_keys: "gok m \<Longrightarrow> length m = card (dom (map_of m))"
  using distinct_card[OF gok_distinct, of m] by (simp add: keys_of[symmetric])

text \<open>
  C10. Every failure is reported exactly once. If only failed resources are recorded as blocked, and each by something,
  then each failed resource is a cause or a victim of a cause, and the number of failed causes plus the
  number of resources reported as blocked is the number of failures.
\<close>

theorem failureCauses_complete:
  assumes "gok failed" and "gok b" and "failureCauses describe failed b = (failed', causes)"
    and "\<forall>n. derived b n \<longrightarrow> map_of failed n \<noteq> None \<and> blockersIn b n \<noteq> []"
  shows "(\<forall>n. map_of failed n \<noteq> None \<longrightarrow> derived causes n \<or> (\<exists>r. n \<in> set (blockersIn causes r))) \<and>
    int (card {r. derived causes r \<and> map_of failed r \<noteq> None}) + blockedCount failed' b causes = int (length failed)"
proof -
  let ?view = "openBlocks failed b"
  note spec = failureCauses_unfold[OF assms(1-3)]
  have causes: "map_of causes r = (if victims ?view r \<noteq> {} \<or> map_of failed r \<noteq> None \<and> \<not> derived ?view r
      then Some (sorted_list_of_set (victims ?view r)) else None)" for r using spec by blast
  have dom': "dom (map_of failed') = dom (map_of failed)" and ok: "gok causes" using spec by blast+
  have fin: "finite (victims ?view r)" for r
    by (rule finite_subset[of _ "fst ` set ?view"]) (auto dest: victims_derived simp: derived_keys)
  have explained: "derived causes n \<or> (\<exists>r. n \<in> set (blockersIn causes r))" if n: "map_of failed n \<noteq> None" for n
  proof (cases "derived ?view n")
    case True
    then obtain r where r: "n \<in> victims ?view r" using blocked_has_cause[OF assms(2,4)] by blast
    then have "map_of causes r = Some (sorted_list_of_set (victims ?view r))" using causes[of r] by auto
    then have "n \<in> set (blockersIn causes r)" using r fin by (simp add: blockersIn_def)
    then show ?thesis by blast
  qed (use causes[of n] n in \<open>simp add: derived_def\<close>)
  define cyc where "cyc = {n. map_of failed n \<noteq> None \<and> closedCycle b n}"
  let ?F = "dom (map_of failed)" and ?B = "dom (map_of b)"
  have view: "derived ?view n \<longleftrightarrow> n \<in> ?B - cyc" for n
    using map_of_openBlocks[OF assms(2), of failed n] by (auto simp: derived_def cyc_def)
  have BF: "?B \<subseteq> ?F" using assms(4) by (auto simp: derived_def dom_def)
  have cB: "cyc \<subseteq> ?B" using cycle_derived by (auto simp: cyc_def closedCycle_def derived_def)
  have vic: "victims ?view r \<noteq> {} \<Longrightarrow> \<not> derived ?view r" for r by (auto simp: victims_def)
  have failed_causes: "{r. derived causes r \<and> map_of failed r \<noteq> None} = ?F - (?B - cyc)"
  proof -
    have "derived causes r \<and> map_of failed r \<noteq> None \<longleftrightarrow> map_of failed r \<noteq> None \<and> \<not> derived ?view r" for r
      using vic[of r] causes[of r] by (auto simp: derived_def)
    then show ?thesis unfolding view by (auto simp: dom_def)
  qed
  have "set (filter (\<lambda>r. map_of failed' r \<noteq> None \<and> derived b r) (map fst causes)) = cyc"
  proof -
    have "map_of failed' r \<noteq> None \<longleftrightarrow> r \<in> ?F" for r using dom' by (simp add: dom_def set_eq_iff)
    moreover have "derived b r \<longleftrightarrow> r \<in> ?B" for r by (simp add: derived_def dom_def)
    moreover have "r \<in> set (map fst causes) \<and> r \<in> ?F \<longleftrightarrow> r \<in> ?F - (?B - cyc)" for r
      using failed_causes derived_keys[of causes r] by (auto simp: set_eq_iff dom_def)
    ultimately have "r \<in> set (filter (\<lambda>r. map_of failed' r \<noteq> None \<and> derived b r) (map fst causes)) \<longleftrightarrow> r \<in> ?F - (?B - cyc) \<and> r \<in> ?B" for r
      unfolding set_filter mem_Collect_eq by blast
    then show ?thesis using cB BF by blast
  qed
  moreover have "distinct (filter (\<lambda>r. map_of failed' r \<noteq> None \<and> derived b r) (map fst causes))" using gok_distinct[OF ok] by simp
  ultimately have "length (filter (\<lambda>r. map_of failed' r \<noteq> None \<and> derived b r) (map fst causes)) = card cyc" by (metis distinct_card)
  then have blocked: "blockedCount failed' b causes = int (card ?B) - int (card cyc)" by (simp add: blockedCount_def length_keys[OF assms(2)])
  have fin': "finite ?F" "finite ?B" "finite cyc" using finite_dom_map_of finite_subset[OF cB] by blast+
  have "card (?F - (?B - cyc)) = card ?F - (card ?B - card cyc)"
    using fin' BF cB by (simp add: card_Diff_subset subset_iff)
  moreover have "card cyc \<le> card ?B" "card ?B \<le> card ?F" using fin' BF cB by (simp_all add: card_mono)
  ultimately show ?thesis using explained unfolding failed_causes blocked by (simp add: length_keys[OF assms(1)] of_nat_diff)
qed

section \<open>An example\<close>

definition exNode :: "string \<Rightarrow> NamedResource" where
  "exNode name = NamedResource [] ''K'' ''ns'' name"

definition exFailed :: "(NamedResource, StatusInfo) gomap" where
  "exFailed = [(exNode ''a'', zeroInfo), (exNode ''b'', zeroInfo), (exNode ''c'', zeroInfo)]"

text \<open>\<open>a\<close> and \<open>b\<close> block each other, \<open>c\<close> waits for \<open>a\<close>.\<close>

definition exBlocked :: blockMap where
  "exBlocked = [(exNode ''a'', [exNode ''b'']), (exNode ''b'', [exNode ''a'']), (exNode ''c'', [exNode ''a''])]"

lemma ex_hypotheses:
  "gok exFailed" "gok exBlocked" "\<forall>n. derived exBlocked n \<longrightarrow> map_of exFailed n \<noteq> None \<and> blockersIn exBlocked n \<noteq> []"
proof -
  show "gok exFailed" "gok exBlocked" by code_simp+
  show "\<forall>n. derived exBlocked n \<longrightarrow> map_of exFailed n \<noteq> None \<and> blockersIn exBlocked n \<noteq> []"
    by (auto simp: derived_def exBlocked_def exFailed_def blockersIn_def split: if_splits)
qed

lemma ex_causes: "snd (failureCauses Name exFailed exBlocked) = [(exNode ''a'', [exNode ''c'']), (exNode ''b'', [])]"
  by code_simp

theorem failureCauses_exact_witness:
  "map_of (snd (failureCauses Name exFailed exBlocked)) (exNode ''a'') = Some [exNode ''c''] \<and>
   sorted_list_of_set (victims (openBlocks exFailed exBlocked) (exNode ''a'')) = [exNode ''c'']"
proof -
  obtain f c where fc: "failureCauses Name exFailed exBlocked = (f, c)" by (cases "failureCauses Name exFailed exBlocked")
  then have c: "map_of c (exNode ''a'') = Some [exNode ''c'']" using ex_causes by simp
  then have "sorted_list_of_set (victims (openBlocks exFailed exBlocked) (exNode ''a'')) = [exNode ''c'']"
    using failureCauses_exact[OF ex_hypotheses(1,2) fc, of "exNode ''a''"] by (simp split: if_splits)
  then show ?thesis using c by (simp add: fc)
qed

theorem failureCauses_complete_witness:
  "int (card {r. derived (snd (failureCauses Name exFailed exBlocked)) r \<and> map_of exFailed r \<noteq> None}) +
     blockedCount (fst (failureCauses Name exFailed exBlocked)) exBlocked (snd (failureCauses Name exFailed exBlocked)) = 3"
proof -
  obtain f c where fc: "failureCauses Name exFailed exBlocked = (f, c)" by (cases "failureCauses Name exFailed exBlocked")
  show ?thesis using failureCauses_complete[OF ex_hypotheses(1,2) fc ex_hypotheses(3)] by (simp add: fc) (simp add: exFailed_def)
qed

end
