(* ===== verification/Scope.thy ===== *)
theory Scope
  imports Failures
begin

text \<open>
  Which failures are fatal for a request: the closure of the requested roots under children and prerequisites, the partition
  of the failures it induces, and the advisories for the others (\<^verbatim>\<open>pkg/selection/scope.go\<close>, \<^verbatim>\<open>snapshot.go\<close>).

  A side of a comparison is a record of what the closure reads: the index with the parents it records, the
  parents and productions of rendered objects, required inputs, the decision, the namespaces in scope. The store
  queries behind these are given as the finite maps they return.
\<close>

section \<open>A side of the selection\<close>

record Production =
  prodOwner :: NamedResource
  prodAuthored :: NamedResource
  prodDeclaration :: NamedResource

record selectionSide =
  sideRoots :: "NamedResource list"
  sideIndex :: "(NamedResource, NamedResource) gomap option"
  sideRendered :: "(NamedResource, NamedResource) gomap"
  sideProductions :: "(NamedResource \<times> Production list) list"
  sideInputs :: blockMap
  sideObjects :: "NamedResource list"
  sideNamespaces :: "string list option"
  sideFailed :: "(NamedResource, StatusInfo) gomap"
  sideBlocked :: blockMap
  sideHash :: hasher
  sideHeap :: mapHeap
  sideDecision :: "Decision option"
  entryProducer :: NamedResource
  entryKey :: NamedResource
  producerKeys :: "(NamedResource, NamedResource) gomap"

definition indexParents :: "selectionSide \<Rightarrow> (NamedResource, NamedResource) gomap" where
  "indexParents s = (case sideIndex s of None \<Rightarrow> [] | Some ix \<Rightarrow> ix)"

definition parentOf :: "selectionSide \<Rightarrow> NamedResource \<Rightarrow> NamedResource option" where
  "parentOf s n = (case map_of (indexParents s) n of
     Some p \<Rightarrow> if p \<noteq> zeroResource then Some p else map_of (sideRendered s) n
   | None \<Rightarrow> map_of (sideRendered s) n)"

definition includesNamespace :: "selectionSide \<Rightarrow> string \<Rightarrow> bool" where
  "includesNamespace s ns \<longleftrightarrow> ns = [] \<or> (case sideNamespaces s of None \<Rightarrow> True | Some nss \<Rightarrow> ns \<in> set nss)"

definition restrictedSide :: "selectionSide \<Rightarrow> bool" where
  "restrictedSide s \<longleftrightarrow> sideDecision s \<noteq> None"

definition outputOf :: "selectionSide \<Rightarrow> NamedResource \<Rightarrow> bool" where
  "outputOf s n = outputs (sideHash s) (sideHeap s) (sideDecision s) n"

definition reconcileOf :: "selectionSide \<Rightarrow> NamedResource \<Rightarrow> bool" where
  "reconcileOf s n = reconciles (sideHash s) (sideHeap s) (sideDecision s) n"

definition comparisonKey :: "selectionSide \<Rightarrow> NamedResource \<Rightarrow> NamedResource" where
  "comparisonKey s n = (case map_of (producerKeys s) n of Some key \<Rightarrow> key | None \<Rightarrow> n)"

definition actualProducer :: "selectionSide \<Rightarrow> NamedResource \<Rightarrow> NamedResource" where
  "actualProducer s key = (if entryProducer s \<noteq> zeroResource \<and> entryKey s = key then entryProducer s else key)"

definition emittedChildren :: "selectionSide \<Rightarrow> (NamedResource \<times> NamedResource) list" where
  "emittedChildren s = [(prodOwner p, n). (n, ps) \<leftarrow> sideProductions s, p \<leftarrow> ps,
     prodOwner p \<noteq> zeroResource \<and> prodOwner p \<noteq> n \<and> prodAuthored p = zeroResource \<and> prodDeclaration p = zeroResource]"

definition recordedChildren :: "selectionSide \<Rightarrow> (NamedResource \<times> NamedResource) list" where
  "recordedChildren s = [(p, n). (n, p) \<leftarrow> indexParents s, p \<noteq> zeroResource]"

definition childrenByParent :: "selectionSide \<Rightarrow> blockMap" where
  "childrenByParent s = map (\<lambda>(p, ns). (p, compactSorted ns))
     (foldl (\<lambda>m (p, n). appendTo n m p) [] (emittedChildren s @ recordedChildren s))"

section \<open>The closure of the roots\<close>

type_synonym queue = "NamedResource list \<times> NamedResource list"

definition addReq :: "queue \<Rightarrow> NamedResource \<Rightarrow> queue" where
  "addReq q n = (if n \<in> set (fst q) then q else (n # fst q, snd q @ [n]))"

definition seedable :: "selectionSide \<Rightarrow> NamedResource list \<Rightarrow> NamedResource \<Rightarrow> bool" where
  "seedable s rts n \<longleftrightarrow>
     \<not> (Name (hd rts) = [] \<and> restrictedSide s \<and> \<not> outputOf s n) \<and>
     matchesRequest \<lparr>Roots = rts, Changed = False, Labels = []\<rparr> n True \<and> includesNamespace s (Namespace n)"

definition seedAll :: "selectionSide \<Rightarrow> NamedResource list \<Rightarrow> queue \<Rightarrow> NamedResource list \<Rightarrow> queue" where
  "seedAll s rts q ns = foldl addReq q (filter (seedable s rts) ns)"

definition seedRoots :: "selectionSide \<Rightarrow> NamedResource list \<Rightarrow> queue \<Rightarrow> queue" where
  "seedRoots s rts q = seedAll s rts (seedAll s rts (seedAll s rts q (sideRoots s)) (map fst (indexParents s))) (map fst (sideFailed s))"

definition selectedChild :: "selectionSide \<Rightarrow> NamedResource list \<Rightarrow> NamedResource \<Rightarrow> bool" where
  "selectedChild s rts n \<longleftrightarrow> Name (hd rts) \<noteq> [] \<or>
     (if restrictedSide s then outputOf s n else includesNamespace s (Namespace n))"

definition pendingIn :: "NamedResource set \<Rightarrow> queue \<Rightarrow> nat" where
  "pendingIn U q = card (U - set (fst q)) + length (snd q)"

lemma pendingIn_addReqs:
  assumes "finite U" and "set ns \<subseteq> U"
  shows "pendingIn U (foldl addReq q ns) = pendingIn U q"
  using assms(2)
proof (induction ns arbitrary: q)
  case (Cons n ns)
  have "pendingIn U (addReq q n) = pendingIn U q"
  proof (cases "n \<in> set (fst q)")
    case False
    then have "card (U - set (fst q)) = Suc (card (U - set (fst q) - {n}))" using Cons.prems assms(1) by (intro card.remove) auto
    moreover have "U - set (n # fst q) = U - set (fst q) - {n}" by auto
    ultimately show ?thesis using False by (simp add: pendingIn_def addReq_def)
  qed (simp add: addReq_def)
  then show ?case using Cons by simp
qed simp

definition valuesOf :: "blockMap \<Rightarrow> NamedResource set" where
  "valuesOf m = \<Union> (set ` snd ` set m)"

lemma finite_valuesOf [simp]: "finite (valuesOf m)"
  by (simp add: valuesOf_def)

lemma blockersIn_values: "set (blockersIn m n) \<subseteq> valuesOf m"
  by (cases "map_of m n") (force simp: blockersIn_def valuesOf_def dest: map_of_SomeD)+

text \<open>The loop index runs over a queue that grows while it runs.\<close>

function expandChildren :: "selectionSide \<Rightarrow> NamedResource list \<Rightarrow> blockMap \<Rightarrow> nat \<Rightarrow> queue \<Rightarrow> queue" where
  "expandChildren s rts children i q =
     (if i < length (snd q)
      then expandChildren s rts children (Suc i)
             (foldl addReq q (filter (selectedChild s rts) (blockersIn children (snd q ! i))))
      else q)"
  by pat_completeness auto
termination
proof (relation "measure (\<lambda>(s, rts, children, i, q). pendingIn (valuesOf children) q - i)", goal_cases)
  case (2 s rts children i q)
  let ?q = "foldl addReq q (filter (selectedChild s rts) (blockersIn children (snd q ! i)))"
  have "pendingIn (valuesOf children) ?q = pendingIn (valuesOf children) q"
    by (rule pendingIn_addReqs) (use blockersIn_values[of children] in auto)
  moreover have "i < pendingIn (valuesOf children) q" using 2 by (simp add: pendingIn_def)
  ultimately show ?case by simp
qed simp

declare expandChildren.simps [simp del]

lemma parentOf_key: "parentOf s n \<noteq> None \<Longrightarrow> map_of (indexParents s @ sideRendered s) n \<noteq> None"
  by (auto simp: parentOf_def map_add_def split: option.splits if_splits)

function addOtherParents :: "selectionSide \<Rightarrow> selectionSide \<Rightarrow> NamedResource list \<Rightarrow> queue \<Rightarrow> NamedResource \<Rightarrow> queue" where
  "addOtherParents s other visited q n =
     (if n \<in> set (sideObjects s) \<or> n \<in> set visited then q
      else case parentOf other n of
        None \<Rightarrow> q
      | Some parent \<Rightarrow>
          let actual = actualProducer s (comparisonKey other parent); q = addReq q actual
          in if actual \<noteq> parent then q else addOtherParents s other (n # visited) q parent)"
  by pat_completeness auto
termination
proof (relation "measure (\<lambda>(s, other, visited, q, n). unseenKeys (indexParents other @ sideRendered other) visited)", goal_cases)
  case (2 s other visited q n parent x xa)
  then show ?case using unseenKeys_less[OF parentOf_key[of other n], of visited] by auto
qed simp

declare addOtherParents.simps [simp del]

definition seedOther :: "selectionSide \<Rightarrow> selectionSide \<Rightarrow> queue \<Rightarrow> queue" where
  "seedOther s other q =
     foldl (\<lambda>q n. addOtherParents s other [] (if restrictedSide s \<and> outputOf other n then addReq q n else q) n) q (sideRoots other)"

definition prerequisites :: "selectionSide \<Rightarrow> NamedResource \<Rightarrow> NamedResource list" where
  "prerequisites s n = (case parentOf s n of Some p \<Rightarrow> [p] | None \<Rightarrow> []) @ blockersIn (sideInputs s) n"

definition prerequisiteValues :: "selectionSide \<Rightarrow> NamedResource set" where
  "prerequisiteValues s = snd ` set (indexParents s) \<union> snd ` set (sideRendered s) \<union> valuesOf (sideInputs s)"

lemma parentOf_value: "parentOf s n = Some p \<Longrightarrow> p \<in> snd ` set (indexParents s) \<union> snd ` set (sideRendered s)"
  by (auto simp: parentOf_def split: option.splits if_splits dest!: map_of_SomeD intro: rev_image_eqI)

lemma prerequisites_values: "set (prerequisites s n) \<subseteq> prerequisiteValues s"
  using blockersIn_values[of "sideInputs s" n] parentOf_value[of s n]
  by (cases "parentOf s n") (auto simp: prerequisites_def prerequisiteValues_def)

lemma finite_prerequisiteValues [simp]: "finite (prerequisiteValues s)"
  by (simp add: prerequisiteValues_def)

function expandPrerequisites :: "selectionSide \<Rightarrow> queue \<Rightarrow> NamedResource list" where
  "expandPrerequisites s q =
     (if snd q = [] then fst q
      else expandPrerequisites s (foldl addReq (fst q, butlast (snd q)) (prerequisites s (last (snd q)))))"
  by pat_completeness auto
termination
proof (relation "measure (\<lambda>(s, q). pendingIn (prerequisiteValues s) q)", goal_cases)
  case (2 s q)
  have "pendingIn (prerequisiteValues s) (foldl addReq (fst q, butlast (snd q)) (prerequisites s (last (snd q)))) =
      pendingIn (prerequisiteValues s) (fst q, butlast (snd q))"
    by (rule pendingIn_addReqs) (use prerequisites_values in auto)
  also have "\<dots> < pendingIn (prerequisiteValues s) q" using 2 by (simp add: pendingIn_def)
  finally show ?case by simp
qed simp

declare expandPrerequisites.simps [simp del]

definition requiredClosure :: "selectionSide \<Rightarrow> NamedResource list \<Rightarrow> selectionSide option \<Rightarrow> NamedResource list" where
  "requiredClosure s rts other =
     (let q = seedRoots s rts ([], []);
          children = childrenByParent s;
          q = (if Name (hd rts) \<noteq> [] then seedAll s rts q (concat (map snd children)) else q);
          q = (if Name (hd rts) \<noteq> [] \<or> Namespace (hd rts) \<noteq> [] then expandChildren s rts children 0 q else q);
          q = (if entryProducer s \<noteq> zeroResource \<and> restrictedSide s \<and> reconcileOf s (entryProducer s) then addReq q (entryProducer s) else q);
          q = (case other of None \<Rightarrow> q | Some other \<Rightarrow> seedOther s other q)
      in expandPrerequisites s q)"

section \<open>What is required\<close>

abbreviation childStep :: "selectionSide \<Rightarrow> NamedResource list \<Rightarrow> (NamedResource \<times> NamedResource) set" where
  "childStep s rts \<equiv> {(u, v). v \<in> set (blockersIn (childrenByParent s) u) \<and> selectedChild s rts v}"

abbreviation needsStep :: "selectionSide \<Rightarrow> (NamedResource \<times> NamedResource) set" where
  "needsStep s \<equiv> {(u, v). v \<in> set (prerequisites s u)}"

interpretation needs: successor_graph "\<lambda>u. set (prerequisites s u)" for s .

text \<open>A queue whose pending part is still everything it has seen.\<close>

definition freshQueue :: "queue \<Rightarrow> bool" where
  "freshQueue q \<longleftrightarrow> set (snd q) = set (fst q)"

lemma addReqs_facts:
  "set (fst (foldl addReq q ns)) = set (fst q) \<union> set ns"
  "set (snd (foldl addReq q ns)) = set (snd q) \<union> (set ns - set (fst q))"
  by (induction ns arbitrary: q) (auto simp: addReq_def)

lemma addReqs_prefix: "prefix (snd q) (snd (foldl addReq q ns))"
proof (induction ns arbitrary: q)
  case (Cons n ns)
  have "prefix (snd q) (snd (addReq q n))" by (simp add: addReq_def)
  also have "prefix (snd (addReq q n)) (snd (foldl addReq (addReq q n) ns))" by (rule Cons.IH)
  finally show ?case by simp
qed simp

lemma freshQueue_add: "freshQueue q \<Longrightarrow> freshQueue (foldl addReq q ns)"
  unfolding freshQueue_def addReqs_facts by auto

lemma freshQueue_one: "freshQueue q \<Longrightarrow> freshQueue (addReq q n)" "set (fst (addReq q n)) = insert n (set (fst q))"
  using freshQueue_add[of q "[n]"] addReqs_facts(1)[of q "[n]"] by simp_all

lemma seedRoots_facts:
  assumes "freshQueue q"
  shows "freshQueue (seedRoots s rts q)"
    "set (fst (seedRoots s rts q)) = set (fst q) \<union> {n \<in> set (sideRoots s) \<union> fst ` set (indexParents s) \<union> fst ` set (sideFailed s). seedable s rts n}"
  using assms by (auto simp: seedRoots_def seedAll_def freshQueue_add addReqs_facts)

lemma expandChildren_facts:
  assumes "freshQueue q" and "i \<le> length (snd q)"
    and "\<forall>u \<in> set (take i (snd q)). \<forall>v. (u, v) \<in> childStep s rts \<longrightarrow> v \<in> set (fst q)"
  shows "freshQueue (expandChildren s rts (childrenByParent s) i q) \<and>
    set (fst (expandChildren s rts (childrenByParent s) i q)) = (childStep s rts)\<^sup>* `` set (fst q)"
  using assms
proof (induction s rts "childrenByParent s" i q rule: expandChildren.induct)
  case (1 s rts i q)
  let ?ns = "filter (selectedChild s rts) (blockersIn (childrenByParent s) (snd q ! i))"
  let ?q = "foldl addReq q ?ns"
  show ?case
  proof (cases "i < length (snd q)")
    case True
    have grow: "set (fst ?q) = set (fst q) \<union> set ?ns" by (rule addReqs_facts)
    obtain rest where rest: "snd ?q = snd q @ rest" using addReqs_prefix[of q ?ns] by (auto simp: prefix_def)
    have "take (Suc i) (snd ?q) = take i (snd q) @ [snd q ! i]" using True by (simp add: rest take_Suc_conv_app_nth)
    then have done': "\<forall>u \<in> set (take (Suc i) (snd ?q)). \<forall>v. (u, v) \<in> childStep s rts \<longrightarrow> v \<in> set (fst ?q)"
      using "1.prems"(3) grow by auto
    have IH: "freshQueue (expandChildren s rts (childrenByParent s) (Suc i) ?q) \<and>
        set (fst (expandChildren s rts (childrenByParent s) (Suc i) ?q)) = (childStep s rts)\<^sup>* `` set (fst ?q)"
      by (rule "1.hyps"[OF True freshQueue_add[OF "1.prems"(1)] _ done']) (use True rest in simp)
    have "snd q ! i \<in> set (fst q)" using True "1.prems"(1) nth_mem[OF True] by (simp add: freshQueue_def)
    then have "(childStep s rts)\<^sup>* `` set (fst ?q) = (childStep s rts)\<^sup>* `` set (fst q)"
      unfolding grow by (auto intro: converse_rtrancl_into_rtrancl)
    then show ?thesis using IH True by (subst (1 2) expandChildren.simps) simp
  next
    case False
    then have "take i (snd q) = snd q" by simp
    then have closed: "v \<in> set (fst q)" if "u \<in> set (fst q)" "(u, v) \<in> childStep s rts" for u v
      using "1.prems"(1,3) that by (auto simp: freshQueue_def)
    have "(childStep s rts)\<^sup>* `` set (fst q) = set (fst q)"
    proof
      show "(childStep s rts)\<^sup>* `` set (fst q) \<subseteq> set (fst q)"
      proof (clarify)
        fix u v assume "(u, v) \<in> (childStep s rts)\<^sup>*" "u \<in> set (fst q)"
        then show "v \<in> set (fst q)" by (induction rule: rtrancl_induct) (use closed in blast)+
      qed
    qed auto
    then show ?thesis using "1.prems"(1) False by (subst (1 2) expandChildren.simps) simp
  qed
qed

lemma expandPrerequisites_facts:
  assumes "set (snd q) \<subseteq> set (fst q)" and "\<forall>u \<in> set (fst q) - set (snd q). set (prerequisites s u) \<subseteq> set (fst q)"
  shows "set (expandPrerequisites s q) = (needsStep s)\<^sup>* `` set (fst q)"
  using assms
proof (induction s q rule: expandPrerequisites.induct)
  case (1 s q)
  show ?case
  proof (cases "snd q = []")
    case True
    have "v \<in> set (fst q)" if "u \<in> set (fst q)" "v \<in> set (prerequisites s u)" for u v using "1.prems"(2) that True by auto
    then have "(needsStep s)\<^sup>* `` set (fst q) = set (fst q)" using needs.closed_reachable[of _ _ s "set (fst q)"] by auto
    then show ?thesis using True by (subst expandPrerequisites.simps) simp
  next
    case False
    let ?n = "last (snd q)" and ?w = "butlast (snd q)"
    let ?q = "foldl addReq (fst q, ?w) (prerequisites s ?n)"
    have split: "set (snd q) = insert ?n (set ?w)" using append_butlast_last_id[OF False] by (metis list.simps(15) rotate1.simps(2) set_rotate1)
    have grow: "set (fst ?q) = set (fst q) \<union> set (prerequisites s ?n)" "set (snd ?q) = set ?w \<union> (set (prerequisites s ?n) - set (fst q))"
      by (simp_all add: addReqs_facts)
    have "set (expandPrerequisites s ?q) = (needsStep s)\<^sup>* `` set (fst ?q)"
      by (rule "1.IH"[OF False]) (use "1.prems" split grow in auto)
    moreover have "?n \<in> set (fst q)" using "1.prems"(1) split by auto
    then have "(needsStep s)\<^sup>* `` set (fst ?q) = (needsStep s)\<^sup>* `` set (fst q)"
      unfolding grow by (auto intro: converse_rtrancl_into_rtrancl)
    ultimately show ?thesis using False by (subst expandPrerequisites.simps) simp
  qed
qed

text \<open>
  The producers that the other side adds for a resource which this side does not have: the actual producers of its
  parents there, up to the first one that is bound differently here.
\<close>

definition producerHere :: "selectionSide \<Rightarrow> selectionSide \<Rightarrow> NamedResource \<Rightarrow> NamedResource" where
  "producerHere s other p = actualProducer s (comparisonKey other p)"

abbreviation upStep :: "selectionSide \<Rightarrow> selectionSide \<Rightarrow> (NamedResource \<times> NamedResource) set" where
  "upStep s other \<equiv> {(x, p). x \<notin> set (sideObjects s) \<and> parentOf other x = Some p}"

definition otherParents :: "selectionSide \<Rightarrow> selectionSide \<Rightarrow> NamedResource \<Rightarrow> NamedResource set" where
  "otherParents s other n = {producerHere s other p | x p. (n, x) \<in> (upStep s other \<inter> {(x, p). producerHere s other p = p})\<^sup>* \<and> (x, p) \<in> upStep s other}"

lemma otherParents_none: "n \<in> set (sideObjects s) \<or> parentOf other n = None \<Longrightarrow> otherParents s other n = {}"
  unfolding otherParents_def by (auto elim: converse_rtranclE)

lemma otherParents_some:
  assumes "n \<notin> set (sideObjects s)" and "parentOf other n = Some p"
  shows "otherParents s other n = insert (producerHere s other p) (if producerHere s other p = p then otherParents s other p else {})"
    (is "?l = ?r")
proof
  show "?l \<subseteq> ?r"
  proof
    fix z assume "z \<in> ?l"
    then obtain x y where z: "z = producerHere s other y" "(n, x) \<in> (upStep s other \<inter> {(x, p). producerHere s other p = p})\<^sup>*" "(x, y) \<in> upStep s other"
      unfolding otherParents_def by blast
    from z(2) show "z \<in> ?r"
    proof (cases rule: converse_rtranclE)
      case base
      then show ?thesis using z assms by auto
    next
      case (step w)
      then have "w = p" "producerHere s other p = p" using assms(2) by auto
      then show ?thesis using step(2) z(1,3) unfolding otherParents_def by auto
    qed
  qed
  have "producerHere s other p \<in> ?l" using assms unfolding otherParents_def by blast
  moreover have "otherParents s other p \<subseteq> ?l" if "producerHere s other p = p"
  proof -
    have "(n, p) \<in> upStep s other \<inter> {(x, p). producerHere s other p = p}" using assms that by simp
    then show ?thesis unfolding otherParents_def by (blast intro: converse_rtrancl_into_rtrancl)
  qed
  ultimately show "?r \<subseteq> ?l" by simp
qed

lemma otherParents_closed:
  assumes "n \<in> V" and "\<And>v p. v \<in> V \<Longrightarrow> (v, p) \<in> upStep s other \<Longrightarrow> producerHere s other p \<in> Q \<and> p \<in> V"
  shows "otherParents s other n \<subseteq> Q"
proof -
  have "x \<in> V" if "(n, x) \<in> (upStep s other \<inter> {(x, p). producerHere s other p = p})\<^sup>*" for x
    using that by (induction rule: rtrancl_induct) (use assms in blast)+
  then show ?thesis using assms(2) unfolding otherParents_def by blast
qed

lemma addOtherParents_facts:
  assumes "freshQueue q"
    and "\<forall>v p. v \<in> set visited \<longrightarrow> (v, p) \<in> upStep s other \<longrightarrow> producerHere s other p \<in> set (fst q) \<and> (p = n \<or> p \<in> set visited)"
  shows "freshQueue (addOtherParents s other visited q n) \<and>
    set (fst (addOtherParents s other visited q n)) = set (fst q) \<union> otherParents s other n"
  using assms
proof (induction s other visited q n rule: addOtherParents.induct)
  case (1 s other visited q n)
  show ?case
  proof (cases "n \<in> set (sideObjects s) \<or> parentOf other n = None \<or> n \<in> set visited")
    case True
    have "otherParents s other n \<subseteq> set (fst q)"
    proof (cases "n \<in> set visited")
      case True
      show ?thesis by (rule otherParents_closed[of n "set visited"]) (use "1.prems"(2) True in blast)+
    qed (use True otherParents_none in auto)
    moreover have "addOtherParents s other visited q n = q" using True by (subst addOtherParents.simps) auto
    ultimately show ?thesis using "1.prems"(1) by auto
  next
    case False
    then obtain p where p: "parentOf other n = Some p" and new: "\<not> (n \<in> set (sideObjects s) \<or> n \<in> set visited)" by auto
    let ?a = "producerHere s other p"
    have n: "n \<notin> set (sideObjects s)" using False by blast
    note here = otherParents_some[OF n p] and added = freshQueue_one(1)[OF "1.prems"(1), of ?a] freshQueue_one(2)[of q ?a]
    show ?thesis
    proof (cases "?a = p")
      case False
      then have "addOtherParents s other visited q n = addReq q ?a"
        using new p by (subst addOtherParents.simps) (simp add: Let_def producerHere_def)
      then show ?thesis using False here added by simp
    next
      case True
      then have same: "actualProducer s (comparisonKey other p) = p" by (simp add: producerHere_def)
      have next_: "addOtherParents s other visited q n = addOtherParents s other (n # visited) (addReq q ?a) p"
        using new p True same by (subst addOtherParents.simps) (simp add: Let_def)
      have "freshQueue (addOtherParents s other (n # visited) (addReq q ?a) p) \<and>
          set (fst (addOtherParents s other (n # visited) (addReq q ?a) p)) = set (fst (addReq q ?a)) \<union> otherParents s other p"
        unfolding True
      proof (rule "1.IH"[OF new p refl _ , unfolded same])
        show "\<forall>v p'. v \<in> set (n # visited) \<longrightarrow> (v, p') \<in> upStep s other \<longrightarrow>
            producerHere s other p' \<in> set (fst (addReq q p)) \<and> (p' = p \<or> p' \<in> set (n # visited))"
          using "1.prems"(2) p True freshQueue_one(2)[of q p] by auto
      qed (use added(1) True in auto)
      then show ?thesis using next_ here added(2) True by auto
    qed
  qed
qed

definition isChild :: "selectionSide \<Rightarrow> NamedResource \<Rightarrow> NamedResource \<Rightarrow> bool" where
  "isChild s p n \<longleftrightarrow> p \<noteq> zeroResource \<and>
     ((n, p) \<in> set (indexParents s) \<or>
      (\<exists>ps. (n, ps) \<in> set (sideProductions s) \<and> p \<noteq> n \<and>
         (\<exists>x \<in> set ps. prodOwner x = p \<and> prodAuthored x = zeroResource \<and> prodDeclaration x = zeroResource)))"

lemma children_pairs: "(p, n) \<in> set (emittedChildren s @ recordedChildren s) \<longleftrightarrow> isChild s p n"
proof -
  have "(p, n) \<in> set (recordedChildren s) \<longleftrightarrow> (n, p) \<in> set (indexParents s) \<and> p \<noteq> zeroResource"
    by (auto simp: recordedChildren_def)
  moreover have "(p, n) \<in> set (emittedChildren s) \<longleftrightarrow> p \<noteq> zeroResource \<and> (\<exists>ps. (n, ps) \<in> set (sideProductions s) \<and> p \<noteq> n \<and>
      (\<exists>x \<in> set ps. prodOwner x = p \<and> prodAuthored x = zeroResource \<and> prodDeclaration x = zeroResource))"
    by (auto simp: emittedChildren_def split: if_splits)
  ultimately show ?thesis unfolding isChild_def by auto
qed

lemma appendPairs:
  assumes "victimOk m"
  shows "victimOk (foldl (\<lambda>m (p, n). appendTo n m p) m xs) \<and>
    set (blockersIn (foldl (\<lambda>m (p, n). appendTo n m p) m xs) p) = set (blockersIn m p) \<union> {n. (p, n) \<in> set xs}"
  using assms
proof (induction xs arbitrary: m)
  case (Cons x xs)
  then show ?case using appendTo_ok[OF Cons.prems, of "snd x" "fst x"] by (cases x) auto
qed simp

lemma set_childrenByParent: "set (blockersIn (childrenByParent s) p) = {n. isChild s p n}"
proof -
  define m where "m = foldl (\<lambda>m (p, n). appendTo n m p) [] (emittedChildren s @ recordedChildren s)"
  have "victimOk []" by (simp add: victimOk_def derived_def blockersIn_def)
  from appendPairs[OF this, of "emittedChildren s @ recordedChildren s" p, folded m_def, unfolded children_pairs]
  have m: "set (blockersIn m p) = {n. isChild s p n}" by (simp add: blockersIn_def)
  have "blockersIn (childrenByParent s) p = (case map_of m p of None \<Rightarrow> [] | Some ns \<Rightarrow> compactSorted ns)"
    unfolding blockersIn_def childrenByParent_def m_def[symmetric] map_of_map_value by (cases "map_of m p") simp_all
  then show ?thesis using m by (auto simp: compactSorted_eq blockersIn_def split: option.splits)
qed

lemma gok_childrenByParent: "gok (childrenByParent s)"
proof -
  have "victimOk []" by (simp add: victimOk_def derived_def blockersIn_def)
  from appendPairs[OF this, of "emittedChildren s @ recordedChildren s"] show ?thesis
    unfolding childrenByParent_def gok_map_value victimOk_def by blast
qed

lemma set_allChildren: "set (concat (map snd (childrenByParent s))) = {n. \<exists>p. isChild s p n}"
proof -
  note entry = map_of_eq_Some_iff[OF gok_distinct[OF gok_childrenByParent[of s]]]
  have "n \<in> set (concat (map snd (childrenByParent s))) \<longleftrightarrow> (\<exists>p ns. (p, ns) \<in> set (childrenByParent s) \<and> n \<in> set ns)" for n by force
  also have "\<dots> n \<longleftrightarrow> (\<exists>p. n \<in> set (blockersIn (childrenByParent s) p))" for n
    unfolding entry[symmetric] blockersIn_def by (metis empty_iff list.set(1) option.case_eq_if option.collapse option.sel option.simps(5))
  finally show ?thesis unfolding set_childrenByParent by blast
qed

lemma seedOther_facts:
  assumes "freshQueue q"
  shows "freshQueue (seedOther s other q) \<and> set (fst (seedOther s other q)) =
    set (fst q) \<union> (\<Union>n \<in> set (sideRoots other). (if restrictedSide s \<and> outputOf other n then {n} else {}) \<union> otherParents s other n)"
proof -
  have "freshQueue (foldl (\<lambda>q n. addOtherParents s other [] (if restrictedSide s \<and> outputOf other n then addReq q n else q) n) q ns) \<and>
    set (fst (foldl (\<lambda>q n. addOtherParents s other [] (if restrictedSide s \<and> outputOf other n then addReq q n else q) n) q ns)) =
    set (fst q) \<union> (\<Union>n \<in> set ns. (if restrictedSide s \<and> outputOf other n then {n} else {}) \<union> otherParents s other n)" for ns
    using assms
  proof (induction ns arbitrary: q)
    case (Cons n ns)
    let ?q = "if restrictedSide s \<and> outputOf other n then addReq q n else q"
    have fresh: "freshQueue ?q" using Cons.prems freshQueue_one(1) by simp
    from addOtherParents_facts[OF fresh, of "[]" s other n]
    have "freshQueue (addOtherParents s other [] ?q n)" "set (fst (addOtherParents s other [] ?q n)) = set (fst ?q) \<union> otherParents s other n" by simp_all
    then show ?case using Cons.IH[of "addOtherParents s other [] ?q n"] freshQueue_one(2)[of q n] by auto
  qed simp
  then show ?thesis unfolding seedOther_def .
qed

text \<open>Where the closure starts, stated over the facts of the two sides.\<close>

definition requiredBase :: "selectionSide \<Rightarrow> NamedResource list \<Rightarrow> selectionSide option \<Rightarrow> NamedResource set" where
  "requiredBase s rts other =
     (let start = {n \<in> set (sideRoots s) \<union> fst ` set (indexParents s) \<union> fst ` set (sideFailed s) \<union>
                       (if Name (hd rts) \<noteq> [] then {n. \<exists>p. isChild s p n} else {}). seedable s rts n}
      in (if Name (hd rts) \<noteq> [] \<or> Namespace (hd rts) \<noteq> [] then {(p, n). isChild s p n \<and> selectedChild s rts n}\<^sup>* `` start else start) \<union>
         (if entryProducer s \<noteq> zeroResource \<and> restrictedSide s \<and> reconcileOf s (entryProducer s) then {entryProducer s} else {}) \<union>
         (case other of None \<Rightarrow> {} | Some o' \<Rightarrow>
            \<Union>n \<in> set (sideRoots o'). (if restrictedSide s \<and> outputOf o' n then {n} else {}) \<union> otherParents s o' n))"

lemma requiredClosure_set:
  "set (requiredClosure s rts other) = (needsStep s)\<^sup>* `` requiredBase s rts other"
proof -
  have step: "childStep s rts = {(p, n). isChild s p n \<and> selectedChild s rts n}" unfolding set_childrenByParent by simp
  define q1 where "q1 = (if Name (hd rts) \<noteq> [] then seedAll s rts (seedRoots s rts ([], [])) (concat (map snd (childrenByParent s))) else seedRoots s rts ([], []))"
  have f0: "freshQueue ([], [])" by (simp add: freshQueue_def)
  have q1: "freshQueue q1" "set (fst q1) = {n \<in> set (sideRoots s) \<union> fst ` set (indexParents s) \<union> fst ` set (sideFailed s) \<union>
      (if Name (hd rts) \<noteq> [] then {n. \<exists>p. isChild s p n} else {}). seedable s rts n}"
    using seedRoots_facts[OF f0, of s rts] set_allChildren[of s] by (auto simp: q1_def seedAll_def freshQueue_add addReqs_facts)
  define q2 where "q2 = (if Name (hd rts) \<noteq> [] \<or> Namespace (hd rts) \<noteq> [] then expandChildren s rts (childrenByParent s) 0 q1 else q1)"
  have q2: "freshQueue q2" "set (fst q2) = (if Name (hd rts) \<noteq> [] \<or> Namespace (hd rts) \<noteq> [] then (childStep s rts)\<^sup>* `` set (fst q1) else set (fst q1))"
    using expandChildren_facts[OF q1(1), of 0 s rts] q1(1) by (simp_all add: q2_def)
  define q3 where "q3 = (if entryProducer s \<noteq> zeroResource \<and> restrictedSide s \<and> reconcileOf s (entryProducer s) then addReq q2 (entryProducer s) else q2)"
  have q3: "freshQueue q3" "set (fst q3) = set (fst q2) \<union> (if entryProducer s \<noteq> zeroResource \<and> restrictedSide s \<and> reconcileOf s (entryProducer s) then {entryProducer s} else {})"
    using freshQueue_one[of q2] q2(1) by (auto simp: q3_def)
  define q4 where "q4 = (case other of None \<Rightarrow> q3 | Some other \<Rightarrow> seedOther s other q3)"
  have q4: "freshQueue q4" "set (fst q4) = set (fst q3) \<union> (case other of None \<Rightarrow> {} | Some o' \<Rightarrow>
      \<Union>n \<in> set (sideRoots o'). (if restrictedSide s \<and> outputOf o' n then {n} else {}) \<union> otherParents s o' n)"
    using seedOther_facts[OF q3(1)] q3(1) by (auto simp: q4_def split: option.splits)
  have "set (fst q4) = requiredBase s rts other" unfolding q4(2) q3(2) q2(2) q1(2) step requiredBase_def Let_def ..
  moreover have "requiredClosure s rts other = expandPrerequisites s q4"
    by (simp only: requiredClosure_def q1_def q2_def q3_def q4_def Let_def)
  moreover have "set (expandPrerequisites s q4) = (needsStep s)\<^sup>* `` set (fst q4)"
    by (rule expandPrerequisites_facts) (use q4(1) in \<open>auto simp: freshQueue_def\<close>)
  ultimately show ?thesis by simp
qed

text \<open>
  C9. The required resources of a request are exactly the closure under parents and required inputs of: the requested
  resources that are known or failed, their selected descendants when the request names a resource or a
  namespace, the entry producer, and what the other side of a comparison contributes. The four loops terminate on
  every graph, cyclic parents and inputs included.
\<close>

theorem requiredClosure_exact:
  "set (requiredClosure s rts other) = (needsStep s)\<^sup>* `` requiredBase s rts other"
  by (rule requiredClosure_set)

section \<open>Fatal and unrelated failures\<close>

definition WarnUnrelatedFailure :: string where "WarnUnrelatedFailure = ''UnrelatedFailure''"

definition unrelatedKids :: "NamedResource list \<Rightarrow> (NamedResource, StatusInfo) gomap \<Rightarrow> NamedResource list" where
  "unrelatedKids ns unrelated = filter (\<lambda>n. map_of unrelated n \<noteq> None) ns"

definition unrelatedWarning ::
  "(NamedResource \<Rightarrow> DiagnosticIdentity) \<Rightarrow> NamedResource \<Rightarrow> string \<Rightarrow> string list \<Rightarrow> NamedResource list \<Rightarrow> Warning" where
  "unrelatedWarning subject n message detail related =
     \<lparr>wResource = n, wSubject = subject n, wRelated = related, wCategory = WarnUnrelatedFailure,
      wMessage = message, wDetail = detail, wCount = 0\<rparr>"

text \<open>The unrelated failures that nothing blocks, each with the unrelated resources it blocks.\<close>

definition directFailures ::
  "(NamedResource \<Rightarrow> DiagnosticIdentity) \<Rightarrow> (NamedResource \<Rightarrow> string) \<Rightarrow> selectionSide \<Rightarrow> (NamedResource, StatusInfo) gomap \<Rightarrow> Warning list" where
  "directFailures subject describe s unrelated =
     [unrelatedWarning subject n (infoMessage info) (map describe kids) kids.
        (n, info) \<leftarrow> sideFailed s, \<not> derived (sideBlocked s) n \<and> map_of unrelated n \<noteq> None,
        kids \<leftarrow> [unrelatedKids (blockersIn (rootVictims (sideBlocked s)) n) unrelated]]"

text \<open>The resources that are missing and not required, with the unrelated failures that need them.\<close>

definition missingRoots ::
  "(NamedResource \<Rightarrow> DiagnosticIdentity) \<Rightarrow> (NamedResource \<Rightarrow> string) \<Rightarrow> selectionSide \<Rightarrow> (NamedResource, StatusInfo) gomap \<Rightarrow> NamedResource list \<Rightarrow> Warning list" where
  "missingRoots subject describe s unrelated required =
     [unrelatedWarning subject root ''not found; required by'' (map describe kids) kids.
        (root, ns) \<leftarrow> rootVictims (sideBlocked s), map_of (sideFailed s) root = None \<and> root \<notin> set required,
        kids \<leftarrow> [unrelatedKids ns unrelated], kids \<noteq> []]"

text \<open>Everything unrelated that was not covered so far, with what blocks it.\<close>

definition uncoveredFailures ::
  "(NamedResource \<Rightarrow> DiagnosticIdentity) \<Rightarrow> (NamedResource \<Rightarrow> string) \<Rightarrow> selectionSide \<Rightarrow> (NamedResource, StatusInfo) gomap \<Rightarrow> NamedResource set \<Rightarrow> Warning list" where
  "uncoveredFailures subject describe s unrelated covered =
     [unrelatedWarning subject n (infoMessage info) (map (\<lambda>d. ''blocked by '' @ describe d) deps) deps.
        (n, info) \<leftarrow> unrelated, n \<notin> covered, deps \<leftarrow> [compactSorted (blockersIn (sideBlocked s) n)]]"

definition unrelatedFailures ::
  "(NamedResource \<Rightarrow> DiagnosticIdentity) \<Rightarrow> (NamedResource \<Rightarrow> string) \<Rightarrow> selectionSide \<Rightarrow> (NamedResource, StatusInfo) gomap \<Rightarrow> NamedResource list \<Rightarrow> Warning list" where
  "unrelatedFailures subject describe s unrelated required =
     (let direct = directFailures subject describe s unrelated;
          missing = missingRoots subject describe s unrelated required;
          covered = set (map wResource direct @ concat (map wRelated (direct @ missing)))
      in sortFunc (\<lambda>a b. compareResource (wResource a) (wResource b))
           (direct @ missing @ uncoveredFailures subject describe s unrelated covered))"

record failureReport =
  repFailed :: "(NamedResource, StatusInfo) gomap"
  repBlocked :: blockMap
  repCauses :: blockMap
  repUnrelated :: "Warning list"

definition requiredSet :: "selectionSide \<Rightarrow> NamedResource list \<Rightarrow> selectionSide option \<Rightarrow> NamedResource list option" where
  "requiredSet s rts other =
     (if Name (hd rts) \<noteq> [] \<or> Namespace (hd rts) \<noteq> [] \<or> restrictedSide s then Some (requiredClosure s rts other) else None)"

definition isRequired :: "NamedResource list option \<Rightarrow> NamedResource \<Rightarrow> bool" where
  "isRequired required n = (case required of None \<Rightarrow> True | Some ns \<Rightarrow> n \<in> set ns)"

definition prepareFailures ::
  "(NamedResource \<Rightarrow> DiagnosticIdentity) \<Rightarrow> (NamedResource \<Rightarrow> string) \<Rightarrow> selectionSide \<Rightarrow> NamedResource list \<Rightarrow> selectionSide option \<Rightarrow> failureReport option" where
  "prepareFailures subject describe s rts other =
     (if sideFailed s = [] then None
      else let required = requiredSet s rts other;
               failed = filter (\<lambda>(n, _). isRequired required n) (sideFailed s);
               unrelated = filter (\<lambda>(n, _). \<not> isRequired required n \<and> includesNamespace s (Namespace n)) (sideFailed s);
               blocked = [(n, deps). (n, _) \<leftarrow> failed, deps \<leftarrow> [blockersIn (sideBlocked s) n], deps \<noteq> []];
               warnings = (if unrelated \<noteq> [] then unrelatedFailures subject describe s unrelated (case required of None \<Rightarrow> [] | Some ns \<Rightarrow> ns) else []);
               (failed', causes) = failureCauses describe failed blocked
           in Some \<lparr>repFailed = failed', repBlocked = blocked, repCauses = causes, repUnrelated = warnings\<rparr>)"

section \<open>The error of a projection\<close>

definition causeMessage :: "(NamedResource \<Rightarrow> string) \<Rightarrow> (NamedResource, StatusInfo) gomap \<Rightarrow> NamedResource \<Rightarrow> string" where
  "causeMessage describe failed root = (case map_of failed root of
     Some info \<Rightarrow> describe root @ '': '' @ infoString info
   | None \<Rightarrow> describe root @ '': not found'')"

definition newline :: string where "newline = [CHR 0x0A, CHR '' '', CHR '' '']"

definition selectedFailures :: "(NamedResource \<Rightarrow> string) \<Rightarrow> failureReport \<Rightarrow> string option" where
  "selectedFailures describe r =
     (if repFailed r = [] then None
      else let msgs = sort (map (causeMessage describe (repFailed r)) (map fst (repCauses r)));
               count = blockedCount (repFailed r) (repBlocked r) (repCauses r);
               msg = ''reconcile completed with '' @ showNat (length msgs) @ '' failure(s)'';
               msg = (if msgs \<noteq> [] then msg @ '':'' @ newline @ joinWith newline msgs else msg)
           in Some (if count > 0 then msg @ newline @ ''(+'' @ showInt count @ '' blocked by failed/missing dependencies)'' else msg))"

section \<open>No failure is hidden\<close>

lemma direct_facts:
  "wResource ` set (directFailures subject describe s unrelated) =
     {n \<in> fst ` set (sideFailed s). \<not> derived (sideBlocked s) n \<and> map_of unrelated n \<noteq> None}"
  by (force simp: directFailures_def unrelatedWarning_def)

lemma kids_unrelated: "set (unrelatedKids ns unrelated) \<subseteq> fst ` set unrelated"
  by (auto simp: unrelatedKids_def map_of_eq_None_iff)

lemma missing_facts:
  "w \<in> set (missingRoots subject describe s unrelated required) \<Longrightarrow>
     map_of (sideFailed s) (wResource w) = None \<and> wResource w \<notin> set required \<and> wRelated w \<noteq> [] \<and> set (wRelated w) \<subseteq> fst ` set unrelated"
  by (auto simp: missingRoots_def unrelatedWarning_def dest: kids_unrelated[THEN subsetD])

lemma uncovered_facts:
  "wResource ` set (uncoveredFailures subject describe s unrelated covered) = fst ` set unrelated - covered"
  by (force simp: uncoveredFailures_def unrelatedWarning_def)

lemma unrelated_disclosed:
  assumes "n \<in> fst ` set unrelated"
  shows "\<exists>w \<in> set (unrelatedFailures subject describe s unrelated required). wResource w = n \<or> n \<in> set (wRelated w)"
proof -
  let ?d = "directFailures subject describe s unrelated" and ?m = "missingRoots subject describe s unrelated required"
  let ?c = "set (map wResource ?d @ concat (map wRelated (?d @ ?m)))"
  let ?u = "uncoveredFailures subject describe s unrelated ?c"
  have ws: "set (unrelatedFailures subject describe s unrelated required) = set ?d \<union> set ?m \<union> set ?u"
    by (simp add: unrelatedFailures_def Let_def Un_assoc)
  show ?thesis
  proof (cases "n \<in> ?c")
    case True
    then show ?thesis unfolding ws by auto
  next
    case False
    then have "n \<in> wResource ` set ?u" using assms unfolding uncovered_facts by blast
    then show ?thesis unfolding ws by auto
  qed
qed

lemma unrelated_only:
  assumes "fst ` set unrelated \<subseteq> fst ` set (sideFailed s)" and "w \<in> set (unrelatedFailures subject describe s unrelated required)"
  shows "wResource w \<in> fst ` set unrelated \<or>
    map_of (sideFailed s) (wResource w) = None \<and> wResource w \<notin> set required \<and> wRelated w \<noteq> [] \<and> set (wRelated w) \<subseteq> fst ` set unrelated"
proof -
  let ?d = "directFailures subject describe s unrelated" and ?m = "missingRoots subject describe s unrelated required"
  let ?c = "set (map wResource ?d @ concat (map wRelated (?d @ ?m)))"
  let ?u = "uncoveredFailures subject describe s unrelated ?c"
  have "w \<in> set ?d \<or> w \<in> set ?m \<or> w \<in> set ?u" using assms(2) by (simp add: unrelatedFailures_def Let_def)
  then show ?thesis
  proof (elim disjE)
    assume "w \<in> set ?d"
    then have "wResource w \<in> wResource ` set ?d" by (rule imageI)
    then show ?thesis unfolding direct_facts by (simp add: map_of_eq_None_iff)
  next
    assume "w \<in> set ?u"
    then have "wResource w \<in> wResource ` set ?u" by (rule imageI)
    then show ?thesis unfolding uncovered_facts by blast
  qed (use missing_facts in blast)
qed

text \<open>
  C8. No failure is hidden. A failure is fatal exactly when the request is unrestricted or the closure of what was
  requested contains it; every other failure whose namespace is in scope is disclosed by an advisory, as
  its resource or among its victims; and an advisory is about such a failure, or about a resource that is
  missing, not required, and needed by such failures.
\<close>

theorem failures_partitioned:
  assumes "gok (sideFailed s)" and "prepareFailures subject describe s rts other = Some r"
  defines "fatal \<equiv> \<lambda>n. Name (hd rts) = [] \<and> Namespace (hd rts) = [] \<and> \<not> restrictedSide s \<or> n \<in> (needsStep s)\<^sup>* `` requiredBase s rts other"
  defines "disclosed \<equiv> \<lambda>n. map_of (sideFailed s) n \<noteq> None \<and> \<not> fatal n \<and> includesNamespace s (Namespace n)"
  shows "(map_of (repFailed r) n \<noteq> None \<longleftrightarrow> map_of (sideFailed s) n \<noteq> None \<and> fatal n) \<and>
    (disclosed n \<longrightarrow> (\<exists>w \<in> set (repUnrelated r). wResource w = n \<or> n \<in> set (wRelated w))) \<and>
    (\<forall>w \<in> set (repUnrelated r). disclosed (wResource w) \<or>
       map_of (sideFailed s) (wResource w) = None \<and> wRelated w \<noteq> [] \<and> (\<forall>k \<in> set (wRelated w). disclosed k))"
proof -
  let ?req = "requiredSet s rts other"
  have req: "isRequired ?req k \<longleftrightarrow> fatal k" for k
    unfolding requiredSet_def isRequired_def fatal_def requiredClosure_set[symmetric] by auto
  define failed where "failed = filter (\<lambda>(n, _). isRequired ?req n) (sideFailed s)"
  define unrelated where "unrelated = filter (\<lambda>(n, _). \<not> isRequired ?req n \<and> includesNamespace s (Namespace n)) (sideFailed s)"
  define blocked where "blocked = [(n, deps). (n, _) \<leftarrow> failed, deps \<leftarrow> [blockersIn (sideBlocked s) n], deps \<noteq> []]"
  obtain failed' causes where fc: "failureCauses describe failed blocked = (failed', causes)" by (cases "failureCauses describe failed blocked")
  have r: "repFailed r = failed'" "repUnrelated r = (if unrelated \<noteq> [] then unrelatedFailures subject describe s unrelated
      (case ?req of None \<Rightarrow> [] | Some ns \<Rightarrow> ns) else [])"
    using assms(2) fc unfolding prepareFailures_def Let_def failed_def[symmetric] unrelated_def[symmetric] blocked_def[symmetric] by (auto split: if_splits)
  have gokf: "gok failed" unfolding failed_def by (rule gok_filter[OF assms(1)])
  have keys: "n \<in> fst ` set unrelated \<longleftrightarrow> disclosed n" for n
    unfolding unrelated_def disclosed_def req map_of_eq_None_iff by force
  have sub: "fst ` set unrelated \<subseteq> fst ` set (sideFailed s)" unfolding unrelated_def by auto
  have dom: "dom (map_of failed') = dom (map_of failed)" by (rule failureCauses_failed[OF gokf fc])
  have "map_of failed n \<noteq> None \<longleftrightarrow> map_of (sideFailed s) n \<noteq> None \<and> fatal n"
    unfolding failed_def req map_of_eq_None_iff by force
  moreover have "map_of (repFailed r) n \<noteq> None \<longleftrightarrow> map_of failed n \<noteq> None" using dom r(1) by (auto simp: dom_def set_eq_iff)
  moreover have "\<exists>w \<in> set (repUnrelated r). wResource w = n \<or> n \<in> set (wRelated w)" if "disclosed n"
  proof -
    have mem: "n \<in> fst ` set unrelated" using that keys by blast
    then have "unrelated \<noteq> []" by auto
    then show ?thesis unfolding r(2) using unrelated_disclosed[OF mem] by simp
  qed
  moreover have "disclosed (wResource w) \<or> map_of (sideFailed s) (wResource w) = None \<and> wRelated w \<noteq> [] \<and> (\<forall>k \<in> set (wRelated w). disclosed k)"
    if w: "w \<in> set (repUnrelated r)" for w
  proof -
    have "w \<in> set (unrelatedFailures subject describe s unrelated (case ?req of None \<Rightarrow> [] | Some ns \<Rightarrow> ns))"
      using w unfolding r(2) by (simp split: if_splits)
    from unrelated_only[OF sub this] show ?thesis unfolding keys subset_iff by blast
  qed
  ultimately show ?thesis by blast
qed

definition exSide :: selectionSide where
  "exSide = \<lparr>sideRoots = [exNode ''a''], sideIndex = None, sideRendered = [], sideProductions = [], sideInputs = [],
     sideObjects = [], sideNamespaces = None, sideFailed = exFailed, sideBlocked = exBlocked, sideHash = (\<lambda>_. 0), sideHeap = [],
     sideDecision = None, entryProducer = zeroResource, entryKey = zeroResource, producerKeys = []\<rparr>"

lemma prepareFailures_Some: "sideFailed s \<noteq> [] \<Longrightarrow> \<exists>r. prepareFailures subject describe s rts other = Some r"
  by (simp add: prepareFailures_def Let_def split_def)

theorem failures_partitioned_witness:
  "map_of (repFailed (the (prepareFailures (\<lambda>n. \<lparr>ID = n, Resource = n, Path = []\<rparr>) Name exSide [exNode []] None))) (exNode ''a'') \<noteq> None"
proof -
  have "sideFailed exSide \<noteq> []" by (simp add: exSide_def exFailed_def)
  then obtain r where r: "prepareFailures (\<lambda>n. \<lparr>ID = n, Resource = n, Path = []\<rparr>) Name exSide [exNode []] None = Some r"
    using prepareFailures_Some by blast
  have ok: "gok (sideFailed exSide)" using ex_hypotheses(1) by (simp add: exSide_def)
  have failed: "map_of (sideFailed exSide) (exNode ''a'') \<noteq> None" by (simp add: exSide_def exFailed_def)
  have "seedable exSide [exNode []] (exNode ''a'')"
    by (simp add: seedable_def restrictedSide_def exSide_def matchesRequest_def includesNamespace_def exNode_def)
  then have "exNode ''a'' \<in> requiredBase exSide [exNode []] None"
    unfolding requiredBase_def Let_def by (auto simp: exSide_def exNode_def)
  then have "exNode ''a'' \<in> (needsStep exSide)\<^sup>* `` requiredBase exSide [exNode []] None" by blast
  then show ?thesis using failures_partitioned[OF ok r, of "exNode ''a''"] failed by (simp add: r)
qed

end
