(* ===== verification/Spec2Isabelle.thy ===== *)
theory Spec2Isabelle
  imports Prelude Identity Scheduler DepGraph Status Depwait Documents Values SsrfGuard Paths TreeFS TreeIndex DiffPrep ResourceSets Pool Advisories Kinds Decisions Failures Scope
begin

text \<open>
  \<^bold>\<open>A verification of flate.\<close> flate renders a Flux repository offline, the way the Flux controllers would on a
  cluster, and compares the result with another revision. A run loads the manifests, admits the resources that
  can affect the requested output, reconciles them to a fixpoint and then prints, tests or compares what was
  rendered.

  \<^bold>\<open>How the parts interact.\<close> The orchestrator seeds a scheduler (\<^verbatim>\<open>pkg/schedule\<close>) with resource identities.
  Each task of the scheduler runs a controller, which asks the waiter (\<^verbatim>\<open>pkg/depwait\<close>) whether the
  dependencies of the resource are ready, failed or still blocked, reads the values and substitutions it
  names (\<^verbatim>\<open>pkg/values\<close>), fetches sources through guarded connections (\<^verbatim>\<open>pkg/source\<close>) into in-memory trees
  (\<^verbatim>\<open>pkg/tree\<close>), renders, and publishes documents and a status (\<^verbatim>\<open>pkg/store\<close>). Publications come back to
  the scheduler as events that make other nodes runnable. A dependency graph (\<^verbatim>\<open>pkg/orchestrator\<close>) fails the
  members of dependency cycles. After the run, the documents of two runs are filtered, normalised and paired
  (\<^verbatim>\<open>internal/diffprep\<close>) for \<^verbatim>\<open>flate diff\<close>.

  \<^bold>\<open>Theories.\<close>
  \<^item> \<open>Prelude\<close>: Go's comparisons, sorting, maps and string functions; the contracts \<open>three_way\<close>,
    \<open>three_way_total\<close>, \<open>go_map\<close> and \<open>successor_graph\<close> with the lemmas proved from them.
  \<^item> \<open>Identity\<close> (\<^verbatim>\<open>pkg/manifest/types.go\<close>, \<^verbatim>\<open>diagnostic.go\<close>, \<^verbatim>\<open>warning.go\<close>, \<^verbatim>\<open>gitref.go\<close>): resource identities,
    captured reasons and Git references. Printed identities are unique, comparators are total orders whose
    equality is the semantic one, normalised references are equivalent to the originals.
  \<^item> \<open>Scheduler\<close> (\<^verbatim>\<open>pkg/schedule/schedule.go\<close>): every critical section as a function on the guarded state, and
    their interleaving as an inductive step relation. The invariant holds in every reachable state, the
    scheduler cannot deadlock before \<^verbatim>\<open>Run\<close> returns, and it returns without an error only at a fixpoint.
  \<^item> \<open>DepGraph\<close> (\<^verbatim>\<open>pkg/orchestrator/depgraph.go\<close>): the incremental graph. After any sequence of edge
    replacements the failed nodes are exactly the members of cycles, each with a real cycle as its reason.
  \<^item> \<open>Status\<close> (\<^verbatim>\<open>pkg/store/status.go\<close>, \<^verbatim>\<open>status_message.go\<close>): conditions, their projection and failure
    provenance. A write changes the generation exactly when readers can see a difference, and reads return
    what was written.
  \<^item> \<open>Depwait\<close> (\<^verbatim>\<open>pkg/depwait\<close>): classification of dependencies and of data references. Readiness is a
    declarative gate, decisions are stable under higher drain levels, and the last level decides everything.
  \<^item> \<open>Documents\<close> (\<^verbatim>\<open>equality.go\<close>, \<^verbatim>\<open>strip.go\<close>, \<^verbatim>\<open>deepcopy.go\<close>, \<^verbatim>\<open>namespace.go\<close> of \<^verbatim>\<open>pkg/manifest\<close>): decoded
    documents, their equality, and the removal of attributes and fields, exact in what it removes and keeps.
  \<^item> \<open>Values\<close> (\<^verbatim>\<open>pkg/values\<close>): values references and substitutions; the parse cache is transparent, lookups
    are captured once per expansion, precedence and validation of variables.
  \<^item> \<open>SsrfGuard\<close> (\<^verbatim>\<open>pkg/source/ssrfguard\<close>): the bit tests of the egress guard against address blocks.
  \<^item> \<open>Paths\<close> (\<^verbatim>\<open>pkg/source/safepath\<close>, \<^verbatim>\<open>internal/claimpath\<close>): Go's path functions, archive names,
    containment and claim prefixes.
  \<^item> \<open>TreeFS\<close> (\<^verbatim>\<open>pkg/tree\<close>): in-memory filesystems with overlays, mounts and links; what a path resolves
    to is inside the tree, and link errors are reported.
  \<^item> \<open>TreeIndex\<close> (\<^verbatim>\<open>pkg/tree/builder.go\<close>): the construction overlays. The indexes of directories list exactly
    what a lookup finds, the operations refine updates of a map from paths to contents, and the lower tree is
    never changed.
  \<^item> \<open>DiffPrep\<close> (\<^verbatim>\<open>internal/diffprep\<close>, \<^verbatim>\<open>pkg/image\<close>, \<^verbatim>\<open>internal/imageutil\<close>, \<^verbatim>\<open>pkg/diff/compare.go\<close>): which
    producers are withheld from a comparison and how that is disclosed, pairing, image comparison.
  \<^item> \<open>ResourceSets\<close> (\<^verbatim>\<open>internal/resourcesetinput\<close>, \<^verbatim>\<open>pkg/resourceset\<close>): composition of inputs and rendering of
    steps. The permutation loop returns the product of the groups, rendered documents are unique, the selector
    cache is transparent.
  \<^item> \<open>Pool\<close> (\<^verbatim>\<open>pkg/task\<close>, \<^verbatim>\<open>internal/keylock\<close>): the worker pool and the key locks as step relations. The bound
    holds, the pool cannot deadlock, locks exclude each other.
  \<^item> \<open>Advisories\<close> (\<^verbatim>\<open>pkg/store/warning.go\<close>, \<^verbatim>\<open>advisory.go\<close>): warnings are kept once and reported compactly
    without loss.
  \<^item> \<open>Kinds\<close> (\<^verbatim>\<open>pkg/manifest/kind.go\<close>): the registry of kinds and its lookups.
  \<^item> \<open>Decisions\<close> (\<^verbatim>\<open>decision.go\<close>, \<^verbatim>\<open>request.go\<close>, \<^verbatim>\<open>session.go\<close>, \<^verbatim>\<open>snapshot.go\<close> of \<^verbatim>\<open>pkg/selection\<close>): admission
    decisions as shared, copied-on-write role maps, and the sessions that publish them. Inclusion has a
    specification without buckets and order; concurrent commits are linearizable and lose nothing; role bytes
    are well formed.
  \<^item> \<open>Failures\<close> (\<^verbatim>\<open>pkg/selection/scope.go\<close>): causes of failures, their victims and dependency cycles, exact and
    complete.
  \<^item> \<open>Scope\<close> (\<^verbatim>\<open>scope.go\<close>, \<^verbatim>\<open>snapshot.go\<close>): the closure of a request, which failures it makes fatal and how the
    others are disclosed.

  \<^bold>\<open>State and effects.\<close> A struct is a record, or a datatype with selectors where it needs an order or is
  recursive. A method that changes its receiver returns the new receiver. Go maps are association lists with
  increasing keys, so that equal maps are equal values; a map whose iteration order the source leaves open is
  only used where a theorem shows the order does not matter, or where the source sorts. Errors are values of
  a sum or option type. Nodes of in-memory trees live in a heap indexed by address, because directories share
  them. Interleaving is modelled at the granularity of the source's critical sections.

  \<^bold>\<open>Bounds and termination.\<close> Every function is total. The worklist searches of \<open>DepGraph\<close>, \<open>Depwait\<close>, \<open>Failures\<close>
  and \<open>Scope\<close> terminate because the visited set grows inside a finite set of nodes. Link resolution terminates because
  it follows at most eight links (\<open>maxSymbolicLinkDepth\<close>) and consumes the rest of the path otherwise; the
  chain of parent directories is cut where the source's loop would not end, which cannot happen for the
  relative paths the callers pass. The scheduler is a step relation, so no fuel is needed; its own bound on
  revalidations is \<open>maxRedispatches\<close>. The permutation loop of \<open>ResourceSets\<close> has no bound of its own, so it is
  a partial function, proved to return for every input. Modes and addresses are words of their width.

  \<^bold>\<open>Parameters.\<close> Code outside the repository is an argument: the CEL evaluator in \<open>Depwait\<close>, the YAML
  decoder, Helm's merge and path setters in \<open>Values\<close>, address parsing in \<open>SsrfGuard\<close>, foreign filesystems in
  \<open>TreeFS\<close>, the image reference parser, digests and quoting in \<open>DiffPrep\<close>,
  the template engine, the label matcher and the Unicode tables in \<open>ResourceSets\<close>, the printed forms that key the
  warnings in \<open>Advisories\<close>, the seeded hash of \<open>Decisions\<close>, the printed subjects in \<open>Failures\<close> and \<open>Scope\<close>. The behaviour of controllers,
  which the scheduler dispatches, is left open in its step relation.

  \<^bold>\<open>Not modelled.\<close> The loader, discovery, the admission closure that proposes decisions, change detection and baselines (built
  on YAML, kustomize and Git), the rest of the store (publications, captures, registrations), the controllers' bodies, Helm and
  kustomize rendering, the fetchers and the disk cache (network and file-system I/O), typed manifests
  (upstream API types), the command line and the formatting of reports. Within modelled packages: raw tree
  walks of \<^verbatim>\<open>pkg/tree\<close>, the dyff report of \<^verbatim>\<open>internal/diffprep\<close>, listeners of the store, the text of
  diagnostics.
\<close>

end
